(* ===== verification/Prelude.thy ===== *)
theory Prelude
  imports Main "HOL-Library.Multiset"
begin

text \<open>
  What every component of the development shares: Rust's fixed-width integers as
  \<open>int\<close> with the wrap-around and the saturation written out, the hash map operations
  the code uses (\<open>entry(k).or_default()\<close>), counted loops as folds with an invariant rule,
  and work lists.
\<close>

named_theorems i64_simps \<open>unfolding of the constants of the 64-bit integer model\<close>

section \<open>Rust integers\<close>

type_synonym i64 = int
type_synonym usize = nat
type_synonym block_id = nat

definition usize_max :: usize where "usize_max = 18446744073709551615"

definition i64_max :: i64 where [i64_simps]: "i64_max = 9223372036854775807"
definition i64_min :: i64 where [i64_simps]: "i64_min = - 9223372036854775808"

definition in_i64 :: "int \<Rightarrow> bool" where
  [i64_simps]: "in_i64 v \<longleftrightarrow> i64_min \<le> v \<and> v \<le> i64_max"

text \<open>The value an overflowing \<open>+ - *\<close> leaves in a release build: two's complement wrap-around.\<close>

definition wrap_i64 :: "int \<Rightarrow> i64" where
  [i64_simps]: "wrap_i64 v = (v + 9223372036854775808) mod 18446744073709551616 - 9223372036854775808"

text \<open>\<open>saturating_add\<close> and \<open>saturating_mul\<close> clamp to the range instead.\<close>

definition sat_i64 :: "int \<Rightarrow> i64" where
  [i64_simps]: "sat_i64 v = max i64_min (min i64_max v)"

text \<open>Rust's \<open>/\<close> truncates towards zero.\<close>

definition rust_div :: "int \<Rightarrow> int \<Rightarrow> int" where
  "rust_div a b = sgn a * sgn b * (\<bar>a\<bar> div \<bar>b\<bar>)"

lemma wrap_i64_id [simp]: "in_i64 v \<Longrightarrow> wrap_i64 v = v"
  by (simp add: i64_simps)

lemma in_i64_wrap [simp]: "in_i64 (wrap_i64 v)"
  using pos_mod_bound [of 18446744073709551616 "v + 9223372036854775808"]
    pos_mod_sign [of 18446744073709551616 "v + 9223372036854775808"]
  by (simp add: i64_simps)

lemma in_i64_sat [simp]: "in_i64 (sat_i64 v)"
  by (simp add: i64_simps)

lemma sat_i64_id [simp]: "in_i64 v \<Longrightarrow> sat_i64 v = v"
  by (simp add: i64_simps)

lemma rust_div_2_nonneg: "0 \<le> a \<Longrightarrow> rust_div a 2 = a div 2"
  by (cases "a = 0") (simp_all add: rust_div_def)

lemma rust_div_2_neg: "a < 0 \<Longrightarrow> rust_div a 2 = - ((- a) div 2)"
  by (simp add: rust_div_def)

section \<open>Counted loops\<close>

text \<open>\<open>for k in 0..n { s = f(k, s) }\<close>\<close>

definition for_range :: "nat \<Rightarrow> (nat \<Rightarrow> 's \<Rightarrow> 's) \<Rightarrow> 's \<Rightarrow> 's" where
  "for_range n f s = fold f [0..<n] s"

lemma for_range_0 [simp]: "for_range 0 f s = s"
  by (simp add: for_range_def)

lemma for_range_Suc: "for_range (Suc n) f s = f n (for_range n f s)"
  by (simp add: for_range_def)

lemma fold_invariant:
  assumes "P s" and "\<And>x s. x \<in> set xs \<Longrightarrow> P s \<Longrightarrow> P (f x s)"
  shows "P (fold f xs s)"
  using assms by (induction xs arbitrary: s) simp_all

lemma fold_collect:
  assumes "\<And>x s. x \<in> set xs \<Longrightarrow> h (f x s) = h s \<union> g x"
  shows "h (fold f xs s) = h s \<union> (\<Union>x \<in> set xs. g x)"
  using assms by (induction xs arbitrary: s) auto

lemma for_range_invariant:
  assumes "P s" and "\<And>k s. k < n \<Longrightarrow> P s \<Longrightarrow> P (f k s)"
  shows "P (for_range n f s)"
  unfolding for_range_def by (rule fold_invariant) (use assms in auto)

text \<open>
  The same with an invariant that may mention how far the loop is.
\<close>

lemma for_range_counted:
  assumes "P 0 s" and "\<And>k s. k < n \<Longrightarrow> P k s \<Longrightarrow> P (Suc k) (f k s)"
  shows "P n (for_range n f s)"
  using assms
proof (induction n)
  case 0
  then show ?case by simp
next
  case (Suc n)
  then show ?case by (simp add: for_range_Suc)
qed

text \<open>The same where a step may fail: \<open>None\<close> is a panic or a loop that does not end.\<close>

fun fold_opt :: "('a \<Rightarrow> 's \<Rightarrow> 's option) \<Rightarrow> 'a list \<Rightarrow> 's \<Rightarrow> 's option" where
  "fold_opt f [] s = Some s"
| "fold_opt f (x # xs) s = (case f x s of None \<Rightarrow> None | Some s \<Rightarrow> fold_opt f xs s)"

lemma fold_opt_total:
  assumes "P s" and "\<And>x s. x \<in> set xs \<Longrightarrow> P s \<Longrightarrow> \<exists>s'. f x s = Some s' \<and> P s'"
  shows "\<exists>s'. fold_opt f xs s = Some s' \<and> P s'"
  using assms
proof (induction xs arbitrary: s)
  case (Cons x xs)
  from Cons.prems(1) Cons.prems(2) [of x s] obtain s' where s': "f x s = Some s'" "P s'" by auto
  have "\<exists>t. fold_opt f xs s' = Some t \<and> P t"
    using Cons.IH [OF s'(2)] Cons.prems(2) by simp
  with s' show ?case by simp
qed simp

section \<open>Hash maps\<close>

text \<open>
  \<open>HashMap<K, V>\<close> is \<open>'k \<rightharpoonup> 'v\<close>. The order in which Rust iterates a hash map or a hash set
  is unspecified: where it matters the operations of the model take a function \<open>enum\<close> that lists a
  finite set in that order.
\<close>

definition enumerates :: "('a set \<Rightarrow> 'a list) \<Rightarrow> bool" where
  "enumerates enum \<longleftrightarrow> (\<forall>S. finite S \<longrightarrow> set (enum S) = S \<and> distinct (enum S))"

lemma enumeratesD: "enumerates enum \<Longrightarrow> finite S \<Longrightarrow> set (enum S) = S"
  by (simp add: enumerates_def)

definition entry_or_default :: "'k \<Rightarrow> ('k \<rightharpoonup> 'v list) \<Rightarrow> ('k \<rightharpoonup> 'v list)" where
  "entry_or_default k m = m(k \<mapsto> (case m k of None \<Rightarrow> [] | Some vs \<Rightarrow> vs))"

definition entry_push :: "'k \<Rightarrow> 'v \<Rightarrow> ('k \<rightharpoonup> 'v list) \<Rightarrow> ('k \<rightharpoonup> 'v list)" where
  "entry_push k v m = m(k \<mapsto> (case m k of None \<Rightarrow> [v] | Some vs \<Rightarrow> vs @ [v]))"

text \<open>\<open>map.get(k).cloned().unwrap_or_default()\<close> for the two container types of the code.\<close>

definition get_list :: "('k \<rightharpoonup> 'v list) \<Rightarrow> 'k \<Rightarrow> 'v list" where
  "get_list m k = (case m k of None \<Rightarrow> [] | Some vs \<Rightarrow> vs)"

definition get_set :: "('k \<rightharpoonup> 'v set) \<Rightarrow> 'k \<Rightarrow> 'v set" where
  "get_set m k = (case m k of None \<Rightarrow> {} | Some vs \<Rightarrow> vs)"

lemma get_list_entry_or_default [simp]: "get_list (entry_or_default k m) = get_list m"
  by (auto simp: get_list_def entry_or_default_def fun_eq_iff split: option.splits)

lemma get_list_entry_push [simp]:
  "get_list (entry_push k v m) k' = get_list m k' @ (if k' = k then [v] else [])"
  by (auto simp: get_list_def entry_push_def split: option.splits)

lemma get_list_empty [simp]: "get_list Map.empty k = []"
  by (simp add: get_list_def)

lemma get_set_empty [simp]: "get_set Map.empty k = {}"
  by (simp add: get_set_def)

lemma get_set_upd [simp]: "get_set (m(k \<mapsto> s)) k' = (if k' = k then s else get_set m k')"
  by (simp add: get_set_def)

lemma dom_entry_or_default [simp]: "dom (entry_or_default k m) = insert k (dom m)"
  by (simp add: entry_or_default_def)

lemma dom_entry_push [simp]: "dom (entry_push k v m) = insert k (dom m)"
  by (simp add: entry_push_def)

section \<open>Values of a hash map\<close>

text \<open>
  The values of a hash map whose keys are among \<open>ks\<close>. The code iterates them in an unspecified order,
  and only where the order does not matter.
\<close>

definition map_values :: "'k list \<Rightarrow> ('k \<rightharpoonup> 'v) \<Rightarrow> 'v list" where
  "map_values ks m = map (\<lambda>k. the (m k)) (filter (\<lambda>k. m k \<noteq> None) (remdups ks))"

lemma set_map_values: "dom m \<subseteq> set ks \<Longrightarrow> set (map_values ks m) = ran m"
  by (force simp: map_values_def ran_def dom_def)

end
