(* ===== verification/Bound.thy ===== *)
theory Bound
  imports Prelude
begin

text \<open>
  \<open>dataflow/octagon/bound.rs\<close>: the numeric type of the entries of a difference bound matrix.
  The Rust trait \<open>Bound\<close> is the record of its operations, the 64-bit implementation is a value
  of that record, and the laws the octagon algorithms rely on are the locale \<open>sound_bound\<close>,
  interpreted below on the 64-bit implementation.
\<close>

section \<open>The trait\<close>

record 'b bound_ops =
  b_infinity :: 'b
  b_neg_infinity :: 'b
  b_zero :: 'b
  b_is_pos_infinity :: "'b \<Rightarrow> bool"
  b_is_neg_infinity :: "'b \<Rightarrow> bool"
  b_add :: "'b \<Rightarrow> 'b \<Rightarrow> 'b"
  b_min :: "'b \<Rightarrow> 'b \<Rightarrow> 'b"
  b_max :: "'b \<Rightarrow> 'b \<Rightarrow> 'b"
  b_half :: "'b \<Rightarrow> 'b"
  b_neg :: "'b \<Rightarrow> 'b"
  b_tighten :: "'b \<Rightarrow> 'b"
  b_closure_add :: "'b \<Rightarrow> 'b \<Rightarrow> 'b"
  b_from_i64 :: "i64 \<Rightarrow> 'b"
  b_lt :: "'b \<Rightarrow> 'b \<Rightarrow> bool"  \<comment> \<open>\<open>PartialOrd\<close>, a supertrait\<close>
  b_eq :: "'b \<Rightarrow> 'b \<Rightarrow> bool"  \<comment> \<open>\<open>PartialEq\<close>, a supertrait\<close>

section \<open>The 64-bit implementation\<close>

definition i64_add :: "i64 \<Rightarrow> i64 \<Rightarrow> i64" where
  "i64_add a b =
     (if a = i64_max \<or> b = i64_max then i64_max
      else if a = i64_min \<or> b = i64_min then i64_min
      else sat_i64 (a + b))"

definition i64_half :: "i64 \<Rightarrow> i64" where
  "i64_half a = (if 0 \<le> a then rust_div a 2 else rust_div (wrap_i64 (a - 1)) 2)"

definition i64_neg :: "i64 \<Rightarrow> i64" where
  "i64_neg a = (if a = i64_min then i64_max else if a = i64_max then i64_min else - a)"

definition i64_tighten :: "i64 \<Rightarrow> i64" where
  "i64_tighten a = (if a = i64_max \<or> a = i64_min then a else sat_i64 (i64_half a * 2))"

definition i64_closure_add :: "i64 \<Rightarrow> i64 \<Rightarrow> i64" where
  "i64_closure_add a b =
     (if a = i64_max \<or> b = i64_max then i64_max
      else if a = i64_min \<or> b = i64_min then i64_min
      else sat_i64 (a + b))"

definition i64_bound :: "i64 bound_ops" where
  "i64_bound = \<lparr>
     b_infinity = i64_max,
     b_neg_infinity = i64_min,
     b_zero = 0,
     b_is_pos_infinity = (\<lambda>a. a = i64_max),
     b_is_neg_infinity = (\<lambda>a. a = i64_min),
     b_add = i64_add,
     b_min = min,
     b_max = max,
     b_half = i64_half,
     b_neg = i64_neg,
     b_tighten = i64_tighten,
     b_closure_add = i64_closure_add,
     b_from_i64 = (\<lambda>v. v),
     b_lt = (<),
     b_eq = (=)\<rparr>"

lemma i64_bound_sel [simp]:
  "b_infinity i64_bound = i64_max"
  "b_neg_infinity i64_bound = i64_min"
  "b_zero i64_bound = 0"
  "b_is_pos_infinity i64_bound a \<longleftrightarrow> a = i64_max"
  "b_is_neg_infinity i64_bound a \<longleftrightarrow> a = i64_min"
  "b_add i64_bound = i64_add"
  "b_min i64_bound = min"
  "b_max i64_bound = max"
  "b_half i64_bound = i64_half"
  "b_neg i64_bound = i64_neg"
  "b_tighten i64_bound = i64_tighten"
  "b_closure_add i64_bound = i64_closure_add"
  "b_from_i64 i64_bound v = v"
  "b_lt i64_bound = (<)"
  "b_eq i64_bound = (=)"
  by (simp_all add: i64_bound_def)

section \<open>What the algorithms rely on\<close>

text \<open>
  A bound \<open>b\<close> is read as the set of the integers it admits: \<open>admits b d\<close> says that the
  difference \<open>d\<close> of two literals satisfies \<open>d \<le> b\<close>. The laws are needed only for differences that
  are \<open>ok\<close>: small enough for the representation.
\<close>

locale sound_bound =
  fixes B :: "'b bound_ops"
    and admits :: "'b \<Rightarrow> int \<Rightarrow> bool"
    and ok :: "int \<Rightarrow> bool"
  assumes admits_infinity: "admits (b_infinity B) d"
    and admits_pos_infinity: "b_is_pos_infinity B a \<Longrightarrow> admits a d"
    and admits_zero: "admits (b_zero B) d \<longleftrightarrow> d \<le> 0"
    and admits_closure_add:
      "admits a d \<Longrightarrow> admits b e \<Longrightarrow> ok d \<Longrightarrow> ok e \<Longrightarrow> admits (b_closure_add B a b) (d + e)"
    and admits_half: "admits s (d + d) \<Longrightarrow> ok d \<Longrightarrow> admits (b_half B s) d"
    and admits_min: "admits (b_min B a b) d \<longleftrightarrow> admits a d \<and> admits b d"
    and admits_max: "admits a d \<or> admits b d \<Longrightarrow> admits (b_max B a b) d"
    and admits_lt: "\<not> b_lt B a b \<Longrightarrow> admits b d \<Longrightarrow> admits a d"
    and negative_excludes_zero: "b_lt B a (b_zero B) \<Longrightarrow> \<not> admits a 0"
    and eq_admits: "b_eq B a b \<Longrightarrow> admits a d \<longleftrightarrow> admits b d"
    and admits_from_i64: "d \<le> c \<Longrightarrow> admits (b_from_i64 B c) d"
    and from_i64_exact: "ok c \<Longrightarrow> admits (b_from_i64 B c) d \<Longrightarrow> d \<le> c"
    and admits_neg_from_i64: "ok c \<Longrightarrow> d \<le> - c \<Longrightarrow> admits (b_neg B (b_from_i64 B c)) d"
    and neg_from_i64_exact: "ok c \<Longrightarrow> admits (b_neg B (b_from_i64 B c)) d \<Longrightarrow> d \<le> - c"
    and admits_tighten: "admits a (d + d) \<Longrightarrow> admits (b_tighten B a) (d + d)"
begin

lemma admits_min_I [intro]: "admits a d \<Longrightarrow> admits b d \<Longrightarrow> admits (b_min B a b) d"
  by (simp add: admits_min)

lemma zero_not_negative: "admits a 0 \<Longrightarrow> \<not> b_lt B a (b_zero B)"
  using negative_excludes_zero by blast

end

section \<open>The 64-bit implementation obeys the laws\<close>

definition i64_admits :: "i64 \<Rightarrow> int \<Rightarrow> bool" where
  "i64_admits b d \<longleftrightarrow> i64_max \<le> b \<or> d \<le> b"

definition i64_ok :: "int \<Rightarrow> bool" where
  "i64_ok d \<longleftrightarrow> \<bar>d\<bar> \<le> 2305843009213693952"

lemma i64_half_floor:
  assumes "in_i64 a" and "a \<noteq> i64_min"
  shows "i64_half a = a div 2"
proof (cases "0 \<le> a")
  case True
  then show ?thesis by (simp add: i64_half_def rust_div_2_nonneg)
next
  case False
  moreover from assms have "in_i64 (a - 1)" by (auto simp: i64_simps)
  ultimately show ?thesis by (simp add: i64_half_def rust_div_2_neg)
qed

lemma i64_half_infinity: "i64_half i64_max = 4611686018427387903"
  by (simp add: i64_half_def rust_div_def i64_simps)

lemma i64_half_min: "i64_half i64_min = 4611686018427387903"
  by (simp add: i64_half_def rust_div_def i64_simps)

lemma wrap_i64_ge: "v \<le> i64_max \<Longrightarrow> v \<le> wrap_i64 v"
proof -
  assume v: "v \<le> i64_max"
  show "v \<le> wrap_i64 v"
  proof (cases "i64_min \<le> v")
    case True
    with v show ?thesis by (simp add: in_i64_def)
  next
    case False
    have "i64_min \<le> wrap_i64 v" using in_i64_wrap by (simp add: in_i64_def)
    with False show ?thesis by linarith
  qed
qed

lemma i64_half_ge: "a \<le> i64_max \<Longrightarrow> a div 2 \<le> i64_half a"
proof (cases "0 \<le> a")
  case True
  then show ?thesis by (simp add: i64_half_def rust_div_2_nonneg)
next
  case False
  assume "a \<le> i64_max"
  then have w: "a - 1 \<le> wrap_i64 (a - 1)" using wrap_i64_ge [of "a - 1"] by simp
  show ?thesis
  proof (cases "0 \<le> wrap_i64 (a - 1)")
    case True
    with False show ?thesis by (simp add: i64_half_def rust_div_2_nonneg)
  next
    case neg: False
    have "- (1 - a) \<le> wrap_i64 (a - 1)" using w by simp
    then have "(- wrap_i64 (a - 1)) div 2 \<le> (1 - a) div 2" by (intro zdiv_mono1) simp_all
    moreover have "a div 2 \<le> - ((1 - a) div 2)" by presburger
    ultimately show ?thesis using False neg by (simp add: i64_half_def rust_div_2_neg)
  qed
qed

lemma i64_admits_simps [simp]:
  "i64_admits i64_max d"
  "i64_admits 0 d \<longleftrightarrow> d \<le> 0"
  by (simp_all add: i64_admits_def i64_simps)

lemma i64_admits_closure_add:
  assumes "i64_admits a d" and "i64_admits b e" and "i64_ok d" and "i64_ok e"
  shows "i64_admits (i64_closure_add a b) (d + e)"
proof -
  from assms have "a \<noteq> i64_min" and "b \<noteq> i64_min"
    by (auto simp: i64_admits_def i64_ok_def i64_simps)
  moreover from assms have "d + e \<le> sat_i64 (a + b) \<or> i64_max \<le> sat_i64 (a + b)"
    by (auto simp: i64_admits_def i64_ok_def sat_i64_def i64_min_def i64_max_def)
  ultimately show ?thesis by (auto simp: i64_admits_def i64_closure_add_def)
qed

lemma i64_admits_half:
  assumes "i64_admits s (d + d)" and "i64_ok d"
  shows "i64_admits (i64_half s) d"
proof (cases "i64_max \<le> s")
  case True
  then have "4611686018427387903 \<le> i64_half s"
    by (simp add: i64_half_def rust_div_2_nonneg i64_simps)
  with assms show ?thesis by (auto simp: i64_admits_def i64_ok_def)
next
  case False
  with assms have s: "d + d \<le> s" by (simp add: i64_admits_def)
  then have "d \<le> s div 2" by linarith
  with False i64_half_ge [of s] show ?thesis by (simp add: i64_admits_def)
qed

lemma i64_admits_tighten:
  assumes "i64_admits a (d + d)"
  shows "i64_admits (i64_tighten a) (d + d)"
proof (cases "a = i64_max \<or> a = i64_min")
  case True
  with assms show ?thesis by (auto simp: i64_tighten_def)
next
  case False
  show ?thesis
  proof (cases "i64_max < a")
    case True
    then have "i64_max \<le> i64_half a * 2"
      by (simp add: i64_half_def rust_div_2_nonneg i64_simps)
    with False show ?thesis by (simp add: i64_tighten_def i64_admits_def sat_i64_def i64_min_def i64_max_def)
  next
    case le: False
    with False assms have "d + d \<le> a" by (auto simp: i64_admits_def)
    with le i64_half_ge [of a] have "d \<le> i64_half a" by linarith
    then show ?thesis using False
      by (auto simp: i64_tighten_def i64_admits_def sat_i64_def i64_min_def i64_max_def)
  qed
qed

interpretation i64: sound_bound i64_bound i64_admits i64_ok
proof unfold_locales
  show "i64_admits a d \<Longrightarrow> i64_admits b e \<Longrightarrow> i64_ok d \<Longrightarrow> i64_ok e \<Longrightarrow>
      i64_admits (b_closure_add i64_bound a b) (d + e)" for a b d e
    by (simp add: i64_admits_closure_add)
  show "i64_admits s (d + d) \<Longrightarrow> i64_ok d \<Longrightarrow> i64_admits (b_half i64_bound s) d" for s d
    by (simp add: i64_admits_half)
  show "i64_admits a (d + d) \<Longrightarrow> i64_admits (b_tighten i64_bound a) (d + d)" for a d
    using i64_admits_tighten by simp
qed (auto simp: i64_admits_def i64_ok_def i64_neg_def min_def max_def i64_simps split: if_splits)

end
