(* ===== verification/Dbm.thy ===== *)
theory Dbm
  imports Bound
begin

text \<open>
  \<open>dataflow/octagon/dbm.rs\<close>: the half-matrix storage of an octagon. The record holds the two
  vectors of the code; \<open>dbm_get\<close> and \<open>dbm_set\<close> go through the same index arithmetic. Reading or
  writing outside \<open>0..dim\<close> panics in Rust: the operations that take an index from their caller
  check it (\<open>Octagon_Transfer\<close>), and every lemma here is about indices in range.
\<close>

section \<open>Data and operations\<close>

record 'b dbm =
  n_vars :: usize
  dbm_data :: "'b list"
  upper_diag :: "'b list"

definition dim :: "('b, 'z) dbm_scheme \<Rightarrow> usize" where
  "dim d = 2 * n_vars d"

text \<open>\<open>i ^ 1\<close>\<close>

definition complement :: "usize \<Rightarrow> usize" where
  "complement i = (if even i then i + 1 else i - 1)"

definition is_upper_diag :: "usize \<Rightarrow> usize \<Rightarrow> bool" where
  "is_upper_diag i j \<longleftrightarrow> i < j \<and> complement i = j"

definition lower_index :: "usize \<Rightarrow> usize \<Rightarrow> usize" where
  "lower_index i j = i * (i + 1) div 2 + j"

definition index_of :: "usize \<Rightarrow> usize \<Rightarrow> usize" where
  "index_of i j =
     (if j \<le> i then lower_index i j
      else lower_index (complement j) (complement i))"

definition dbm_new :: "'b bound_ops \<Rightarrow> usize \<Rightarrow> 'b dbm" where
  "dbm_new B n =
     (let size = 2 * n * (2 * n + 1) div 2;
          cells = for_range (2 * n)
            (\<lambda>i cs. if lower_index i i < length cs then cs[lower_index i i := b_zero B] else cs)
            (replicate size (b_infinity B))
      in \<lparr>n_vars = n, dbm_data = cells, upper_diag = replicate n (b_infinity B)\<rparr>)"

definition dbm_len :: "'b dbm \<Rightarrow> usize" where
  "dbm_len d = length (dbm_data d)"

definition dbm_is_empty :: "'b dbm \<Rightarrow> bool" where
  "dbm_is_empty d \<longleftrightarrow> n_vars d = 0"

definition dbm_get :: "'b dbm \<Rightarrow> usize \<Rightarrow> usize \<Rightarrow> 'b" where
  "dbm_get d i j =
     (if is_upper_diag i j then upper_diag d ! (i div 2)
      else dbm_data d ! index_of i j)"

definition dbm_set :: "'b dbm \<Rightarrow> usize \<Rightarrow> usize \<Rightarrow> 'b \<Rightarrow> 'b dbm" where
  "dbm_set d i j v =
     (if is_upper_diag i j then d\<lparr>upper_diag := (upper_diag d)[i div 2 := v]\<rparr>
      else d\<lparr>dbm_data := (dbm_data d)[index_of i j := v]\<rparr>)"

text \<open>
  The loop the callers of \<open>dbm_set\<close> use to write a whole matrix:
  \<open>for i in 0..dim { for j in 0..dim { d.set(i, j, m(i, j)) } }\<close>.
\<close>

definition dbm_fill :: "(usize \<Rightarrow> usize \<Rightarrow> 'b) \<Rightarrow> usize \<Rightarrow> 'b dbm \<Rightarrow> 'b dbm" where
  "dbm_fill m k d = for_range k (\<lambda>i. for_range k (\<lambda>j d. dbm_set d i j (m i j))) d"

text \<open>The lengths of the two vectors, kept by every operation.\<close>

definition wf_dbm :: "'b dbm \<Rightarrow> bool" where
  "wf_dbm d \<longleftrightarrow> length (dbm_data d) = dim d * (dim d + 1) div 2 \<and> length (upper_diag d) = n_vars d"

section \<open>Index arithmetic\<close>

lemma complement_simps [simp]:
  "complement (2 * k) = 2 * k + 1"
  "complement (Suc (2 * k)) = 2 * k"
  by (simp_all add: complement_def)

lemma complement_complement [simp]: "complement (complement i) = i"
  by (auto simp: complement_def elim: oddE)

lemma complement_inj [simp]: "complement i = complement j \<longleftrightarrow> i = j"
  by (metis complement_complement)

lemma complement_neq [simp]: "complement i \<noteq> i"
  by (auto simp: complement_def elim: oddE)

lemma complement_div2 [simp]: "complement i div 2 = i div 2"
  by (auto simp: complement_def elim!: oddE evenE)

lemma even_complement [simp]: "even (complement i) \<longleftrightarrow> odd i"
  by (auto simp: complement_def elim: oddE)

lemma complement_less_dim [simp]: "complement i < dim d \<longleftrightarrow> i < dim d"
  by (auto simp: complement_def dim_def elim!: oddE evenE)

lemma same_block: "i div 2 = j div 2 \<longleftrightarrow> j = i \<or> j = complement i"
  by (auto simp: complement_def elim!: oddE evenE)

lemma is_upper_diag_iff: "is_upper_diag i j \<longleftrightarrow> even i \<and> j = i + 1"
  by (auto simp: is_upper_diag_def complement_def split: if_splits)

lemma off_block_less:
  assumes "i < j" and "i div 2 \<noteq> j div 2"
  shows "complement i < complement j"
proof -
  have "i div 2 < j div 2" using assms by (simp add: div_le_mono order_less_le)
  then have "complement i div 2 < complement j div 2" by simp
  then show ?thesis by (meson div_le_mono leD leI)
qed

lemma tri_Suc: "Suc i * (Suc i + 1) div 2 = i * (i + 1) div 2 + Suc i"
proof -
  have "Suc i * (Suc i + 1) = i * (i + 1) + Suc i * 2" by simp
  then show ?thesis by (metis div_mult_self1 zero_neq_numeral add.commute)
qed

lemma tri_mono: "i \<le> i' \<Longrightarrow> i * (i + 1) div 2 \<le> i' * (i' + 1) div (2::nat)"
  by (intro div_le_mono mult_le_mono) simp_all

lemma lower_index_less:
  assumes "j \<le> i" and "i < i'"
  shows "lower_index i j < i' * (i' + 1) div 2"
proof -
  have "lower_index i j \<le> i * (i + 1) div 2 + i" using assms(1) by (simp add: lower_index_def)
  also have "\<dots> < Suc i * (Suc i + 1) div 2" by (simp only: tri_Suc)
  also have "\<dots> \<le> i' * (i' + 1) div 2" using assms(2) by (intro tri_mono) simp
  finally show ?thesis .
qed

lemma lower_index_inj:
  assumes "j \<le> i" and "j' \<le> i'" and eq: "lower_index i j = lower_index i' j'"
  shows "i = i' \<and> j = j'"
proof -
  have "\<not> i < i'" using lower_index_less [OF assms(1), of i'] eq by (auto simp: lower_index_def)
  moreover have "\<not> i' < i" using lower_index_less [OF assms(2), of i] eq by (auto simp: lower_index_def)
  ultimately have "i = i'" by simp
  with eq show ?thesis by (simp add: lower_index_def)
qed

text \<open>
  The cell an entry lives in: its own coordinates in the lower triangle, or those of its coherent
  counterpart.
\<close>

definition cell :: "usize \<Rightarrow> usize \<Rightarrow> usize \<times> usize" where
  "cell i j = (if j \<le> i \<or> is_upper_diag i j then (i, j) else (complement j, complement i))"

lemma cell_cases:
  "cell i j = (i, j) \<or> (i div 2 \<noteq> j div 2 \<and> cell i j = (complement j, complement i))"
  by (auto simp: cell_def is_upper_diag_def same_block)

lemma cell_lower: "\<not> is_upper_diag i j \<Longrightarrow> snd (cell i j) \<le> fst (cell i j)"
proof (cases "j \<le> i")
  case False
  assume u: "\<not> is_upper_diag i j"
  with False have "i div 2 \<noteq> j div 2" by (auto simp: same_block is_upper_diag_def)
  with u False off_block_less [of i j] show ?thesis by (auto simp: cell_def)
qed (simp add: cell_def)

lemma index_of_cell: "\<not> is_upper_diag i j \<Longrightarrow> index_of i j = lower_index (fst (cell i j)) (snd (cell i j))"
  by (simp add: index_of_def cell_def)

lemma cell_eq_iff:
  "cell i j = cell i' j' \<longleftrightarrow>
     (i' = i \<and> j' = j) \<or> (i div 2 \<noteq> j div 2 \<and> i' = complement j \<and> j' = complement i)"
proof
  assume e: "cell i j = cell i' j'"
  show "(i' = i \<and> j' = j) \<or> (i div 2 \<noteq> j div 2 \<and> i' = complement j \<and> j' = complement i)"
    using cell_cases [of i j] cell_cases [of i' j'] e
    by (metis Pair_inject complement_complement complement_div2)
next
  assume "(i' = i \<and> j' = j) \<or> (i div 2 \<noteq> j div 2 \<and> i' = complement j \<and> j' = complement i)"
  then show "cell i j = cell i' j'"
  proof
    assume a: "i div 2 \<noteq> j div 2 \<and> i' = complement j \<and> j' = complement i"
    then have ne: "i \<noteq> j" "\<not> is_upper_diag i j" "\<not> is_upper_diag (complement j) (complement i)"
      by (auto simp: is_upper_diag_def same_block)
    show ?thesis
    proof (cases "i < j")
      case True
      with a off_block_less [of i j] ne show ?thesis by (auto simp: cell_def)
    next
      case False
      with ne have "j < i" by simp
      with a off_block_less [of j i] ne show ?thesis by (auto simp: cell_def)
    qed
  qed simp
qed

lemma is_upper_diag_cell: "cell i j = cell i' j' \<Longrightarrow> is_upper_diag i j \<longleftrightarrow> is_upper_diag i' j'"
  by (auto simp: cell_eq_iff is_upper_diag_def)

section \<open>Reading back what was written\<close>

lemma complement_less_even: "i < 2 * n \<Longrightarrow> complement i < 2 * n"
  by (auto simp: complement_def elim!: oddE evenE)

lemma dim_simps [simp]:
  "n_vars (dbm_set d i j v) = n_vars d"
  "dim (dbm_set d i j v) = dim d"
  by (simp_all add: dbm_set_def dim_def)

lemma wf_dbm_set [simp]: "wf_dbm d \<Longrightarrow> wf_dbm (dbm_set d i j v)"
  by (simp add: wf_dbm_def dbm_set_def dim_def)

lemma index_of_less:
  assumes "i < dim d" and "j < dim d" and "\<not> is_upper_diag i j" and "wf_dbm d"
  shows "index_of i j < length (dbm_data d)"
proof -
  have "fst (cell i j) < dim d" using assms(1,2) by (auto simp: cell_def)
  with lower_index_less [OF cell_lower [OF assms(3)]] assms(3,4) show ?thesis
    by (simp add: index_of_cell wf_dbm_def)
qed

theorem dbm_get_set:
  assumes wf: "wf_dbm d" and "i < dim d" "j < dim d" "i' < dim d" "j' < dim d"
  shows "dbm_get (dbm_set d i j v) i' j' = (if cell i j = cell i' j' then v else dbm_get d i' j')"
proof (cases "is_upper_diag i j")
  case True
  then have "i div 2 < length (upper_diag d)" using assms by (auto simp: wf_dbm_def dim_def)
  moreover have "cell i j = cell i' j' \<longleftrightarrow> is_upper_diag i' j' \<and> i' div 2 = i div 2"
    using True by (auto simp: cell_eq_iff is_upper_diag_iff elim!: evenE)
  ultimately show ?thesis using True by (auto simp: dbm_get_def dbm_set_def)
next
  case False
  show ?thesis
  proof (cases "is_upper_diag i' j'")
    case True
    then have "cell i j \<noteq> cell i' j'" using False is_upper_diag_cell by blast
    with True False show ?thesis by (simp add: dbm_get_def dbm_set_def)
  next
    case F': False
    have "index_of i j = index_of i' j' \<longleftrightarrow> cell i j = cell i' j'"
      using lower_index_inj [OF cell_lower [OF False] cell_lower [OF F']]
      by (auto simp: index_of_cell [OF False] index_of_cell [OF F'] prod_eq_iff)
    moreover have "index_of i j < length (dbm_data d)" using index_of_less False assms by blast
    ultimately show ?thesis using False F' by (auto simp: dbm_get_def dbm_set_def)
  qed
qed

lemma dbm_get_set_same [simp]:
  "wf_dbm d \<Longrightarrow> i < dim d \<Longrightarrow> j < dim d \<Longrightarrow> dbm_get (dbm_set d i j v) i j = v"
  by (simp add: dbm_get_set)

text \<open>Coherence holds by construction: off the diagonal blocks the two entries share a cell.\<close>

lemma dbm_get_coherent: "i div 2 \<noteq> j div 2 \<Longrightarrow> dbm_get d (complement j) (complement i) = dbm_get d i j"
proof -
  assume ne: "i div 2 \<noteq> j div 2"
  then have c: "cell i j = cell (complement j) (complement i)" by (simp add: cell_eq_iff)
  from ne have "\<not> is_upper_diag i j" "\<not> is_upper_diag (complement j) (complement i)"
    by (auto simp: is_upper_diag_def)
  with c show ?thesis by (simp add: dbm_get_def index_of_cell)
qed

lemma dbm_get_cell: "cell i j = cell i' j' \<Longrightarrow> dbm_get d i j = dbm_get d i' j'"
  by (auto simp: cell_eq_iff dbm_get_coherent)

text \<open>
  Two ways to reason about \<open>dbm_fill\<close>: a predicate on entries that respects coherence, and, for a
  coherent matrix, its exact contents.
\<close>

definition coherent :: "usize \<Rightarrow> (usize \<Rightarrow> usize \<Rightarrow> 'b) \<Rightarrow> bool" where
  "coherent k m \<longleftrightarrow>
     (\<forall>i < k. \<forall>j < k. i div 2 \<noteq> j div 2 \<longrightarrow> m (complement j) (complement i) = m i j)"

lemma coherentD: "coherent k m \<Longrightarrow> i < k \<Longrightarrow> j < k \<Longrightarrow> cell i j = cell i' j' \<Longrightarrow> m i' j' = m i j"
  unfolding coherent_def cell_eq_iff by blast

lemma coherent_dbm_get [simp]: "coherent k (dbm_get d)"
  by (simp add: coherent_def dbm_get_coherent)

lemma dbm_fill_keeps: "n_vars (dbm_fill m k d) = n_vars d \<and> (wf_dbm d \<longrightarrow> wf_dbm (dbm_fill m k d))"
proof -
  let ?I = "\<lambda>e. n_vars e = n_vars d \<and> (wf_dbm d \<longrightarrow> wf_dbm e)"
  have "?I (for_range k (\<lambda>j d. dbm_set d i j (m i j)) e)" if e: "?I e" for i e
    by (rule for_range_invariant [where P = ?I]) (use e in auto)
  then show ?thesis
    unfolding dbm_fill_def by (intro for_range_invariant [where P = ?I]) auto
qed

lemma dbm_fill_dim [simp]:
  "n_vars (dbm_fill m k d) = n_vars d" "dim (dbm_fill m k d) = dim d"
  "wf_dbm d \<Longrightarrow> wf_dbm (dbm_fill m k d)"
  using dbm_fill_keeps [of m k d] by (simp_all add: dim_def)

lemma dbm_fill_pred:
  assumes wf: "wf_dbm d" and k: "k \<le> dim d"
    and start: "\<And>i j. i < dim d \<Longrightarrow> j < dim d \<Longrightarrow> P i j (dbm_get d i j)"
    and m: "\<And>i j. i < k \<Longrightarrow> j < k \<Longrightarrow> P i j (m i j)"
    and coh: "\<And>i j v. i div 2 \<noteq> j div 2 \<Longrightarrow> P i j v \<Longrightarrow> P (complement j) (complement i) v"
    and i: "i < dim d" and j: "j < dim d"
  shows "P i j (dbm_get (dbm_fill m k d) i j)"
proof -
  have spread: "P i' j' v" if "P i j v" "cell i j = cell i' j'" for i j i' j' v
    using that(2) unfolding cell_eq_iff using that(1) coh by blast
  let ?I = "\<lambda>e. (wf_dbm e \<and> dim e = dim d) \<and> (\<forall>i < dim d. \<forall>j < dim d. P i j (dbm_get e i j))"
  have cell_write: "?I (dbm_set e i j (m i j))" if ij: "i < k" "j < k" and e: "?I e" for i j e
  proof -
    have "P i' j' (dbm_get (dbm_set e i j (m i j)) i' j')" if i'j': "i' < dim d" "j' < dim d" for i' j'
    proof (cases "cell i j = cell i' j'")
      case True
      with ij i'j' e k have "dbm_get (dbm_set e i j (m i j)) i' j' = m i j"
        by (subst dbm_get_set) auto
      moreover have "P i' j' (m i j)" using m ij True spread by blast
      ultimately show ?thesis by simp
    next
      case False
      with ij i'j' e k have "dbm_get (dbm_set e i j (m i j)) i' j' = dbm_get e i' j'"
        by (subst dbm_get_set) auto
      with e i'j' show ?thesis by simp
    qed
    with e show ?thesis by simp
  qed
  have row: "?I (for_range k (\<lambda>j d. dbm_set d i j (m i j)) e)" if "i < k" and e: "?I e" for i e
    by (rule for_range_invariant [where P = ?I, OF e]) (rule cell_write [OF \<open>i < k\<close>])
  have start': "?I d" using wf start by simp
  have "?I (dbm_fill m k d)"
    unfolding dbm_fill_def by (rule for_range_invariant [where P = ?I, OF start']) (rule row)
  with i j show ?thesis by blast
qed

lemma dbm_fill_coherent:
  assumes wf: "wf_dbm d" and k: "k \<le> dim d" and coh: "coherent k m" and i: "i < k" and j: "j < k"
  shows "dbm_get (dbm_fill m k d) i j = m i j"
proof -
  let ?W = "\<lambda>e. wf_dbm e \<and> dim e = dim d"
  let ?I = "\<lambda>p e. ?W e \<and> (\<forall>i < p. \<forall>j < k. dbm_get e i j = m i j)"
  let ?J = "\<lambda>p q e. ?I p e \<and> (\<forall>j < q. dbm_get e p j = m p j)"
  have keep: "dbm_get (dbm_set e i j (m i j)) i' j' = m i' j'"
    if "?W e" "i < k" "j < k" "i' < k" "j' < k" "dbm_get e i' j' = m i' j' \<or> (i' = i \<and> j' = j)"
    for e i j i' j'
  proof -
    have "dbm_get (dbm_set e i j (m i j)) i' j' =
        (if cell i j = cell i' j' then m i j else dbm_get e i' j')"
      by (rule dbm_get_set) (use that k in auto)
    moreover have "cell i j = cell i' j' \<Longrightarrow> m i j = m i' j'"
      using coherentD [OF coh, of i j i' j'] that by simp
    ultimately show ?thesis using that(6) by auto
  qed
  have "?I k (dbm_fill m k d)"
    unfolding dbm_fill_def
  proof (rule for_range_counted [where P = ?I])
    show "?I 0 d" using wf by simp
    fix p e assume p: "p < k" and I: "?I p e"
    let ?e = "for_range k (\<lambda>j d. dbm_set d p j (m p j)) e"
    have "?J p k ?e"
    proof (rule for_range_counted [where P = "?J p"])
      show "?J p 0 e" using I by simp
      fix q f assume q: "q < k" and J: "?J p q f"
      have "dbm_get (dbm_set f p q (m p q)) i j = m i j" if "i < p" "j < k" for i j
        by (rule keep) (use that p q J in auto)
      moreover have "dbm_get (dbm_set f p q (m p q)) p j = m p j" if "j < Suc q" for j
        by (rule keep) (use that p q J in \<open>auto simp: less_Suc_eq\<close>)
      ultimately show "?J p (Suc q) (dbm_set f p q (m p q))" using J by simp
    qed
    then show "?I (Suc p) ?e" by (auto simp: less_Suc_eq)
  qed
  with i j show ?thesis by blast
qed

section \<open>The initial matrix\<close>

lemma n_vars_dbm_new [simp]: "n_vars (dbm_new B n) = n" "dim (dbm_new B n) = 2 * n"
  by (simp_all add: dbm_new_def dim_def Let_def)

lemma wf_dbm_new [simp]: "wf_dbm (dbm_new B n)"
proof -
  let ?f = "\<lambda>i cs. if lower_index i i < length cs then cs[lower_index i i := b_zero B] else cs"
  have "length (for_range (2 * n) ?f cs) = length cs" for cs
    by (rule for_range_invariant [where P = "\<lambda>c. length c = length cs"]) auto
  then show ?thesis by (simp add: wf_dbm_def dbm_new_def dim_def Let_def)
qed

lemma dbm_get_new:
  assumes "i < 2 * n" and "j < 2 * n"
  shows "dbm_get (dbm_new B n) i j = (if i = j then b_zero B else b_infinity B)"
proof -
  let ?s = "2 * n * (2 * n + 1) div 2"
  let ?f = "\<lambda>i cs. if lower_index i i < length cs then cs[lower_index i i := b_zero B] else cs"
  let ?I = "\<lambda>k cs. length cs = ?s \<and> (\<forall>i < 2 * n. \<forall>j \<le> i.
      cs ! lower_index i j = (if i = j \<and> i < k then b_zero B else b_infinity B))"
  have li: "lower_index i j < ?s" if "i < 2 * n" "j \<le> i" for i j
    using lower_index_less [OF that(2,1)] by simp
  have "?I (2 * n) (for_range (2 * n) ?f (replicate ?s (b_infinity B)))"
  proof (rule for_range_counted [where P = ?I])
    show "?I 0 (replicate ?s (b_infinity B))" using li by simp
    fix k cs assume k: "k < 2 * n" and I: "?I k cs"
    have len: "lower_index k k < length cs" using li [OF k, of k] I by simp
    have "cs[lower_index k k := b_zero B] ! lower_index i j =
        (if i = j \<and> i < Suc k then b_zero B else b_infinity B)" if "i < 2 * n" "j \<le> i" for i j
    proof (cases "i = k \<and> j = k")
      case True
      with len show ?thesis by simp
    next
      case False
      with lower_index_inj [OF that(2), of k k] have "lower_index k k \<noteq> lower_index i j" by auto
      moreover have "cs ! lower_index i j = (if i = j \<and> i < k then b_zero B else b_infinity B)"
        using I that by blast
      ultimately show ?thesis using False by auto
    qed
    with I len show "?I (Suc k) (?f k cs)" by simp
  qed
  then have cells: "dbm_data (dbm_new B n) ! lower_index i j = (if i = j then b_zero B else b_infinity B)"
    if "i < 2 * n" "j \<le> i" for i j
    using that by (simp add: dbm_new_def Let_def)
  show ?thesis
  proof (cases "is_upper_diag i j")
    case True
    with assms show ?thesis by (auto simp: dbm_get_def dbm_new_def Let_def is_upper_diag_def)
  next
    case False
    have "fst (cell i j) < 2 * n" using assms complement_less_even by (auto simp: cell_def)
    with cells [OF _ cell_lower [OF False]] False show ?thesis
      by (auto simp: dbm_get_def index_of_cell cell_def)
  qed
qed

end
