(* ===== verification/Closure.thy ===== *)
theory Closure
  imports Dbm
begin

text \<open>
  \<open>dataflow/octagon/closure.rs\<close>: strong closure (Floyd-Warshall and the strengthening pass),
  incremental closure and tight closure, on the full matrix the code copies the half-matrix to.
  An octagon is read as the set of the integer environments it admits (\<open>oct_models\<close>). For every
  bound type that obeys \<open>sound_bound\<close>, closure keeps that set: no environment in range is lost and
  none is added, and \<open>Empty\<close> is only answered when there is none.
\<close>

section \<open>The code\<close>

datatype closure_result = Closed | Empty

text \<open>\<open>m[i * dim + j]\<close>\<close>

definition mat_get :: "usize \<Rightarrow> 'b list \<Rightarrow> usize \<Rightarrow> usize \<Rightarrow> 'b" where
  "mat_get n m i j = m ! (i * n + j)"

definition mat_set :: "usize \<Rightarrow> 'b list \<Rightarrow> usize \<Rightarrow> usize \<Rightarrow> 'b \<Rightarrow> 'b list" where
  "mat_set n m i j v = m[i * n + j := v]"

text \<open>\<open>let tighter = min(current, v); if tighter != current { m[i, j] = tighter }\<close>\<close>

definition mat_tighten :: "'b bound_ops \<Rightarrow> usize \<Rightarrow> usize \<Rightarrow> usize \<Rightarrow> 'b \<Rightarrow> 'b list \<Rightarrow> 'b list" where
  "mat_tighten B n i j v m =
     (let current = mat_get n m i j; tighter = b_min B current v
      in if \<not> b_eq B tighter current then mat_set n m i j tighter else m)"

definition full_matrix :: "'b bound_ops \<Rightarrow> 'b dbm \<Rightarrow> 'b list" where
  "full_matrix B d =
     for_range (dim d) (\<lambda>i. for_range (dim d) (\<lambda>j m. mat_set (dim d) m i j (dbm_get d i j)))
       (replicate (dim d * dim d) (b_infinity B))"

definition floyd_warshall :: "'b bound_ops \<Rightarrow> usize \<Rightarrow> 'b list \<Rightarrow> 'b list" where
  "floyd_warshall B n =
     for_range n (\<lambda>k. for_range n (\<lambda>i m.
       (let m_ik = mat_get n m i k
        in for_range n (\<lambda>j m. mat_tighten B n i j (b_closure_add B m_ik (mat_get n m k j)) m) m)))"

definition strengthen :: "'b bound_ops \<Rightarrow> usize \<Rightarrow> 'b list \<Rightarrow> 'b list" where
  "strengthen B n =
     for_range n (\<lambda>i m.
       (let m_i_ibar = mat_get n m i (complement i)
        in for_range n (\<lambda>j m.
             mat_tighten B n i j
               (b_half B (b_closure_add B m_i_ibar (mat_get n m (complement j) j))) m) m))"

definition negative_diagonal :: "'b bound_ops \<Rightarrow> usize \<Rightarrow> 'b list \<Rightarrow> bool" where
  "negative_diagonal B n m \<longleftrightarrow> list_ex (\<lambda>i. b_lt B (mat_get n m i i) (b_zero B)) [0..<n]"

definition strong_closure :: "'b bound_ops \<Rightarrow> 'b dbm \<Rightarrow> closure_result \<times> 'b dbm" where
  "strong_closure B d =
     (let n = dim d;
          m = strengthen B n (floyd_warshall B n (full_matrix B d))
      in (if negative_diagonal B n m then Empty else Closed, dbm_fill (mat_get n m) n d))"

text \<open>
  \<open>incremental_closure\<close> adds one constraint to a closed matrix. An index outside the matrix panics
  (\<open>None\<close>): either \<open>m[a * dim + b]\<close> or \<open>m[b_bar * dim + a_bar]\<close> is out of range then.
\<close>

definition incremental_paths ::
  "'b bound_ops \<Rightarrow> usize \<Rightarrow> usize \<Rightarrow> usize \<Rightarrow> 'b \<Rightarrow> 'b \<Rightarrow> 'b list \<Rightarrow> 'b list" where
  "incremental_paths B n a b c c_bar m0 =
     (let add = b_closure_add B; a_bar = complement a; b_bar = complement b;
          bridge_ab_bar = add (add c (mat_get n m0 b b_bar)) c_bar;
          bridge_bar_ab = add (add c_bar (mat_get n m0 a_bar a)) c
      in for_range n (\<lambda>i. for_range n (\<lambda>j m.
           (let cur = mat_get n m i j;
                via_ab = add (add (mat_get n m i a) c) (mat_get n m b j);
                via_bar = add (add (mat_get n m i b_bar) c_bar) (mat_get n m a_bar j);
                via_ab_bar = add (add (mat_get n m i a) bridge_ab_bar) (mat_get n m a_bar j);
                via_bar_ab = add (add (mat_get n m i b_bar) bridge_bar_ab) (mat_get n m b j);
                best = b_min B (b_min B cur (b_min B via_ab via_bar)) (b_min B via_ab_bar via_bar_ab)
            in if \<not> b_eq B best cur then mat_set n m i j best else m))) m0)"

definition write_back_lower :: "'b bound_ops \<Rightarrow> usize \<Rightarrow> 'b list \<Rightarrow> 'b dbm \<Rightarrow> 'b dbm" where
  "write_back_lower B n m =
     for_range n (\<lambda>i. for_range (Suc i) (\<lambda>j d.
       dbm_set d i j (b_min B (mat_get n m i j) (mat_get n m (complement j) (complement i)))))"

definition write_back_upper_diag :: "usize \<Rightarrow> 'b list \<Rightarrow> 'b dbm \<Rightarrow> 'b dbm" where
  "write_back_upper_diag n m =
     for_range (n div 2) (\<lambda>var d. dbm_set d (2 * var) (2 * var + 1) (mat_get n m (2 * var) (2 * var + 1)))"

definition incremental_closure ::
  "'b bound_ops \<Rightarrow> 'b dbm \<Rightarrow> usize \<Rightarrow> usize \<Rightarrow> 'b \<Rightarrow> (closure_result \<times> 'b dbm) option" where
  "incremental_closure B d a b val =
     (let n = dim d; a_bar = complement a; b_bar = complement b
      in if n \<le> a \<or> n \<le> b then None
         else
           (let m = full_matrix B d;
                c = b_min B (mat_get n m a b) val;
                m = mat_set n m a b c;
                c_bar = b_min B (mat_get n m b_bar a_bar) c;
                m = mat_set n m b_bar a_bar c_bar;
                m = strengthen B n (incremental_paths B n a b c c_bar m)
            in if negative_diagonal B n m then Some (Empty, d)
               else Some (Closed, write_back_upper_diag n m (write_back_lower B n m d))))"

definition tight_closure :: "'b bound_ops \<Rightarrow> 'b dbm \<Rightarrow> closure_result \<times> 'b dbm" where
  "tight_closure B d =
     (Closed,
      for_range (n_vars d) (\<lambda>var d.
        (let pos = 2 * var; neg = 2 * var + 1;
             d = dbm_set d neg pos (b_tighten B (dbm_get d neg pos))
         in dbm_set d pos neg (b_tighten B (dbm_get d pos neg)))) d)"

definition has_negative_cycle :: "'b bound_ops \<Rightarrow> 'b dbm \<Rightarrow> bool" where
  "has_negative_cycle B d \<longleftrightarrow> list_ex (\<lambda>i. b_lt B (dbm_get d i i) (b_zero B)) [0..<dim d]"

section \<open>The meaning of an octagon\<close>

text \<open>
  The literal \<open>2 v\<close> is the variable \<open>v\<close>, the literal \<open>2 v + 1\<close> its negation; the entry \<open>(i, j)\<close>
  bounds \<open>x_j - x_i\<close>.
\<close>

definition lit :: "(usize \<Rightarrow> int) \<Rightarrow> usize \<Rightarrow> int" where
  "lit x k = (if even k then x (k div 2) else - x (k div 2))"

definition oct_models :: "('b \<Rightarrow> int \<Rightarrow> bool) \<Rightarrow> 'b dbm \<Rightarrow> (usize \<Rightarrow> int) \<Rightarrow> bool" where
  "oct_models admits d x \<longleftrightarrow>
     (\<forall>i < dim d. \<forall>j < dim d. admits (dbm_get d i j) (lit x j - lit x i))"

text \<open>The environments whose differences the representation can hold.\<close>

definition small_env :: "(int \<Rightarrow> bool) \<Rightarrow> usize \<Rightarrow> (usize \<Rightarrow> int) \<Rightarrow> bool" where
  "small_env ok n x \<longleftrightarrow> (\<forall>i < 2 * n. \<forall>j < 2 * n. ok (lit x j - lit x i))"

lemma lit_simps [simp]:
  "lit x (2 * v) = x v" "lit x (Suc (2 * v)) = - x v" "lit x (complement k) = - lit x k"
  by (auto simp: lit_def complement_def elim!: evenE oddE)

lemma oct_modelsD:
  "oct_models admits d x \<Longrightarrow> i < dim d \<Longrightarrow> j < dim d \<Longrightarrow> admits (dbm_get d i j) (lit x j - lit x i)"
  by (simp add: oct_models_def)

section \<open>Loops over the full matrix\<close>

lemma mat_index_less: "i < n \<Longrightarrow> j < n \<Longrightarrow> i * n + j < n * (n::nat)"
proof -
  assume "i < n" and "j < n"
  then have "i * n + j < Suc i * n" by simp
  also have "\<dots> \<le> n * n" using \<open>i < n\<close> by (intro mult_le_mono1) simp
  finally show ?thesis .
qed

lemma mat_index_inj:
  assumes "j < n" and "j' < n" and "i * n + j = i' * n + (j'::nat)"
  shows "i = i' \<and> j = j'"
proof -
  have "(i * n + j) div n = i" "(i' * n + j') div n = i'" using assms(1,2) by auto
  with assms(3) have "i = i'" by metis
  with assms(3) show ?thesis by simp
qed

lemma mat_get_set:
  assumes "length m = n * n" and "i < n" "j < n" "i' < n" "j' < n"
  shows "mat_get n (mat_set n m i j v) i' j' = (if i' = i \<and> j' = j then v else mat_get n m i' j')"
proof -
  have "i * n + j < length m" using assms mat_index_less by simp
  moreover have "i * n + j = i' * n + j' \<longleftrightarrow> i' = i \<and> j' = j"
    using mat_index_inj [OF assms(3,5), of i i'] by auto
  ultimately show ?thesis by (auto simp: mat_get_def mat_set_def nth_list_update)
qed

definition mat_all :: "usize \<Rightarrow> (usize \<Rightarrow> usize \<Rightarrow> 'b \<Rightarrow> bool) \<Rightarrow> 'b list \<Rightarrow> bool" where
  "mat_all n P m \<longleftrightarrow> length m = n * n \<and> (\<forall>i < n. \<forall>j < n. P i j (mat_get n m i j))"

lemma mat_allD: "mat_all n P m \<Longrightarrow> i < n \<Longrightarrow> j < n \<Longrightarrow> P i j (mat_get n m i j)"
  by (simp add: mat_all_def)

lemma mat_all_set:
  "mat_all n P m \<Longrightarrow> i < n \<Longrightarrow> j < n \<Longrightarrow> P i j v \<Longrightarrow> mat_all n P (mat_set n m i j v)"
  by (auto simp: mat_all_def mat_get_set) (simp add: mat_set_def)

lemma full_matrix_get:
  assumes "i < dim d" and "j < dim d"
  shows "length (full_matrix B d) = dim d * dim d \<and> mat_get (dim d) (full_matrix B d) i j = dbm_get d i j"
proof -
  let ?n = "dim d"
  let ?I = "\<lambda>p m. length m = ?n * ?n \<and> (\<forall>i < p. \<forall>j < ?n. mat_get ?n m i j = dbm_get d i j)"
  let ?J = "\<lambda>p q m. ?I p m \<and> (\<forall>j < q. mat_get ?n m p j = dbm_get d p j)"
  have "?I ?n (full_matrix B d)"
    unfolding full_matrix_def
  proof (rule for_range_counted [where P = ?I])
    show "?I 0 (replicate (?n * ?n) (b_infinity B))" by simp
    fix p m assume p: "p < ?n" and I: "?I p m"
    let ?r = "for_range ?n (\<lambda>j m. mat_set ?n m p j (dbm_get d p j)) m"
    have "?J p ?n ?r"
    proof (rule for_range_counted [where P = "?J p"])
      show "?J p 0 m" using I by simp
      fix q f assume q: "q < ?n" and J: "?J p q f"
      have "mat_get ?n (mat_set ?n f p q (dbm_get d p q)) i j = dbm_get d i j"
        if "i < Suc p" "j < ?n" "i < p \<or> j < Suc q" for i j
        using that p q J by (subst mat_get_set) (auto simp: less_Suc_eq)
      then show "?J p (Suc q) (mat_set ?n f p q (dbm_get d p q))"
        using J q by (simp add: mat_set_def)
    qed
    then show "?I (Suc p) ?r" by (auto simp: less_Suc_eq)
  qed
  with assms show ?thesis by blast
qed

lemma mat_all_full_matrix:
  assumes "\<And>i j. i < dim d \<Longrightarrow> j < dim d \<Longrightarrow> P i j (dbm_get d i j)"
  shows "mat_all (dim d) P (full_matrix B d)"
proof (cases "dim d = 0")
  case True
  then show ?thesis by (simp add: mat_all_def full_matrix_def)
next
  case False
  then have "length (full_matrix B d) = dim d * dim d" using full_matrix_get [of 0 d 0 B] by simp
  then show ?thesis using assms full_matrix_get [of _ d _ B] by (simp add: mat_all_def)
qed

lemma complement_less: "i < dim d \<Longrightarrow> complement i < dim d"
  by simp

text \<open>
  One rule for the three passes: an entry-wise predicate that survives taking the minimum with
  the candidates the pass computes survives the pass.
\<close>

lemma mat_all_tighten:
  assumes "mat_all n P m" and "i < n" "j < n" and "P i j (b_min B (mat_get n m i j) v)"
  shows "mat_all n P (mat_tighten B n i j v m)"
  using assms by (auto simp: mat_tighten_def Let_def intro: mat_all_set)

lemma floyd_warshall_all:
  assumes start: "mat_all n P m"
    and step: "\<And>i j k u v w. i < n \<Longrightarrow> j < n \<Longrightarrow> k < n \<Longrightarrow> P i k u \<Longrightarrow> P k j v \<Longrightarrow> P i j w \<Longrightarrow>
      P i j (b_min B w (b_closure_add B u v))"
  shows "mat_all n P (floyd_warshall B n m)"
  unfolding floyd_warshall_def
proof (rule for_range_invariant [where P = "mat_all n P", OF start])
  fix k m assume k: "k < n" and m: "mat_all n P m"
  show "mat_all n P (for_range n (\<lambda>i m. let m_ik = mat_get n m i k
      in for_range n (\<lambda>j m. mat_tighten B n i j (b_closure_add B m_ik (mat_get n m k j)) m) m) m)"
  proof (rule for_range_invariant [where P = "mat_all n P", OF m])
    fix i m assume i: "i < n" and m: "mat_all n P m"
    note u = mat_allD [OF m i k]
    have "mat_all n P (for_range n
        (\<lambda>j m'. mat_tighten B n i j (b_closure_add B (mat_get n m i k) (mat_get n m' k j)) m') m)"
      by (rule for_range_invariant [where P = "mat_all n P", OF m])
        (intro mat_all_tighten step [OF i _ k u]; simp add: i k mat_allD)
    then show "mat_all n P (let m_ik = mat_get n m i k
        in for_range n (\<lambda>j m. mat_tighten B n i j (b_closure_add B m_ik (mat_get n m k j)) m) m)"
      by (simp add: Let_def)
  qed
qed

lemma strengthen_all:
  assumes start: "mat_all n P m" and n: "even n"
    and step: "\<And>i j u v w. i < n \<Longrightarrow> j < n \<Longrightarrow> P i (complement i) u \<Longrightarrow> P (complement j) j v \<Longrightarrow> P i j w \<Longrightarrow>
      P i j (b_min B w (b_half B (b_closure_add B u v)))"
  shows "mat_all n P (strengthen B n m)"
proof -
  have c: "complement i < n" if "i < n" for i
    using that n by (auto simp: complement_def elim!: evenE oddE)
  show ?thesis
    unfolding strengthen_def
  proof (rule for_range_invariant [where P = "mat_all n P", OF start])
    fix i m assume i: "i < n" and m: "mat_all n P m"
    note u = mat_allD [OF m i c [OF i]]
    have "mat_all n P (for_range n (\<lambda>j m'. mat_tighten B n i j
        (b_half B (b_closure_add B (mat_get n m i (complement i)) (mat_get n m' (complement j) j))) m') m)"
      by (rule for_range_invariant [where P = "mat_all n P", OF m])
        (intro mat_all_tighten step [OF i _ u]; simp add: i c mat_allD)
    then show "mat_all n P (let m_i_ibar = mat_get n m i (complement i) in for_range n (\<lambda>j m.
        mat_tighten B n i j (b_half B (b_closure_add B m_i_ibar (mat_get n m (complement j) j))) m) m)"
      by (simp add: Let_def)
  qed
qed

lemma incremental_paths_all:
  assumes start: "mat_all n P m0" and ab: "a < n" "b < n" and n: "even n"
    and c: "P a b c" and c': "P (complement b) (complement a) c_bar"
    and trans: "\<And>i j k u v. i < n \<Longrightarrow> j < n \<Longrightarrow> k < n \<Longrightarrow> P i k u \<Longrightarrow> P k j v \<Longrightarrow>
      P i j (b_closure_add B u v)"
    and mins: "\<And>i j v w. i < n \<Longrightarrow> j < n \<Longrightarrow> P i j v \<Longrightarrow> P i j w \<Longrightarrow> P i j (b_min B v w)"
  shows "mat_all n P (incremental_paths B n a b c c_bar m0)"
proof -
  let ?add = "b_closure_add B" and ?a' = "complement a" and ?b' = "complement b"
  have lt: "?a' < n" "?b' < n" using ab n by (auto simp: complement_def elim!: evenE oddE)
  have br1: "P a ?a' (?add (?add c (mat_get n m0 b ?b')) c_bar)"
    by (rule trans [OF ab(1) lt(1) lt(2) trans [OF ab(1) lt(2) ab(2) c mat_allD [OF start ab(2) lt(2)]] c'])
  have br2: "P ?b' b (?add (?add c_bar (mat_get n m0 ?a' a)) c)"
    by (rule trans [OF lt(2) ab(2) ab(1) trans [OF lt(2) ab(1) lt(1) c' mat_allD [OF start lt(1) ab(1)]] c])
  let ?body = "\<lambda>i j m.
      (let cur = mat_get n m i j;
           via_ab = ?add (?add (mat_get n m i a) c) (mat_get n m b j);
           via_bar = ?add (?add (mat_get n m i ?b') c_bar) (mat_get n m ?a' j);
           via_ab_bar = ?add (?add (mat_get n m i a) (?add (?add c (mat_get n m0 b ?b')) c_bar)) (mat_get n m ?a' j);
           via_bar_ab = ?add (?add (mat_get n m i ?b') (?add (?add c_bar (mat_get n m0 ?a' a)) c)) (mat_get n m b j);
           best = b_min B (b_min B cur (b_min B via_ab via_bar)) (b_min B via_ab_bar via_bar_ab)
       in if \<not> b_eq B best cur then mat_set n m i j best else m)"
  have entry: "mat_all n P (?body i j m)" if i: "i < n" and j: "j < n" and m: "mat_all n P m" for i j m
  proof -
    note g = mat_allD [OF m]
    have "P i j (?add (?add (mat_get n m i a) c) (mat_get n m b j))"
      by (rule trans [OF i j ab(2) trans [OF i ab(2) ab(1) g [OF i ab(1)] c] g [OF ab(2) j]])
    moreover have "P i j (?add (?add (mat_get n m i ?b') c_bar) (mat_get n m ?a' j))"
      by (rule trans [OF i j lt(1) trans [OF i lt(1) lt(2) g [OF i lt(2)] c'] g [OF lt(1) j]])
    moreover have "P i j (?add (?add (mat_get n m i a) (?add (?add c (mat_get n m0 b ?b')) c_bar)) (mat_get n m ?a' j))"
      by (rule trans [OF i j lt(1) trans [OF i lt(1) ab(1) g [OF i ab(1)] br1] g [OF lt(1) j]])
    moreover have "P i j (?add (?add (mat_get n m i ?b') (?add (?add c_bar (mat_get n m0 ?a' a)) c)) (mat_get n m b j))"
      by (rule trans [OF i j ab(2) trans [OF i ab(2) lt(2) g [OF i lt(2)] br2] g [OF ab(2) j]])
    ultimately have "P i j (b_min B
        (b_min B (mat_get n m i j) (b_min B (?add (?add (mat_get n m i a) c) (mat_get n m b j))
          (?add (?add (mat_get n m i ?b') c_bar) (mat_get n m ?a' j))))
        (b_min B (?add (?add (mat_get n m i a) (?add (?add c (mat_get n m0 b ?b')) c_bar)) (mat_get n m ?a' j))
          (?add (?add (mat_get n m i ?b') (?add (?add c_bar (mat_get n m0 ?a' a)) c)) (mat_get n m b j))))"
      by (intro mins i j g)
    with m i j show ?thesis by (simp add: Let_def mat_all_set)
  qed
  have row: "mat_all n P (for_range n (?body i) m)" if "i < n" "mat_all n P m" for i m
    by (rule for_range_invariant [where P = "mat_all n P", OF that(2)]) (rule entry [OF that(1)])
  have "mat_all n P (for_range n (\<lambda>i. for_range n (?body i)) m0)"
    by (rule for_range_invariant [where P = "mat_all n P", OF start]) (rule row)
  then show ?thesis by (simp add: incremental_paths_def Let_def)
qed

lemma incremental_paths_tightens:
  assumes start: "mat_all n P m0"
    and step: "\<And>i j u v w. P i j w \<Longrightarrow> P i j (b_min B (b_min B w u) v)"
  shows "mat_all n P (incremental_paths B n a b c c_bar m0)"
proof -
  have entry: "mat_all n P (if \<not> eq then mat_set n m i j (b_min B (b_min B (mat_get n m i j) u) v) else m)"
    if "i < n" "j < n" "mat_all n P m" for i j m u v eq
    using that step [OF mat_allD [OF that(3,1,2)]] by (simp add: mat_all_set)
  show ?thesis
    unfolding incremental_paths_def Let_def
    by (rule for_range_invariant [where P = "mat_all n P", OF start],
        rule for_range_invariant [where P = "mat_all n P"], assumption, rule entry)
qed

section \<open>The write-back of incremental closure\<close>

lemma write_back_lower_get:
  assumes wf: "wf_dbm d"
  shows "wf_dbm (write_back_lower B (dim d) m d) \<and> dim (write_back_lower B (dim d) m d) = dim d \<and>
    (\<forall>i < dim d. \<forall>j \<le> i. dbm_get (write_back_lower B (dim d) m d) i j =
      b_min B (mat_get (dim d) m i j) (mat_get (dim d) m (complement j) (complement i)))"
proof -
  let ?n = "dim d"
  let ?w = "\<lambda>i j. b_min B (mat_get ?n m i j) (mat_get ?n m (complement j) (complement i))"
  let ?W = "\<lambda>e. wf_dbm e \<and> dim e = ?n"
  let ?I = "\<lambda>p e. ?W e \<and> (\<forall>i < p. \<forall>j \<le> i. dbm_get e i j = ?w i j)"
  let ?J = "\<lambda>p q e. ?I p e \<and> (\<forall>j < q. dbm_get e p j = ?w p j)"
  have keep: "dbm_get (dbm_set e p q (?w p q)) i j = (if i = p \<and> j = q then ?w p q else dbm_get e i j)"
    if "?W e" "p < ?n" "q \<le> p" "i < ?n" "j \<le> i" for e p q i j
    using that by (subst dbm_get_set) (auto simp: cell_def)
  have "?I ?n (write_back_lower B ?n m d)"
    unfolding write_back_lower_def
  proof (rule for_range_counted [where P = ?I])
    show "?I 0 d" using wf by simp
    fix p e assume p: "p < ?n" and I: "?I p e"
    let ?r = "for_range (Suc p) (\<lambda>j d. dbm_set d p j (?w p j)) e"
    have "?J p (Suc p) ?r"
    proof (rule for_range_counted [where P = "?J p"])
      show "?J p 0 e" using I by simp
      fix q f assume q: "q < Suc p" and J: "?J p q f"
      then have W: "?W f" by blast
      have "dbm_get (dbm_set f p q (?w p q)) i j = ?w i j" if "i < p" "j \<le> i" for i j
        using keep [OF W p, of q i j] that p q J by auto
      moreover have "dbm_get (dbm_set f p q (?w p q)) p j = ?w p j" if "j < Suc q" for j
        using keep [OF W p, of q p j] that p q J by (auto simp: less_Suc_eq)
      ultimately show "?J p (Suc q) (dbm_set f p q (?w p q))" using W by simp
    qed
    then show "?I (Suc p) ?r" by (auto elim!: less_SucE simp: le_imp_less_Suc)
  qed
  then show ?thesis by blast
qed

lemma write_back_upper_get:
  assumes wf: "wf_dbm d"
  shows "(wf_dbm (write_back_upper_diag (dim d) m d) \<and> dim (write_back_upper_diag (dim d) m d) = dim d) \<and>
    (\<forall>i < dim d. \<forall>j \<le> i. dbm_get (write_back_upper_diag (dim d) m d) i j = dbm_get d i j) \<and>
    (\<forall>v < n_vars d. dbm_get (write_back_upper_diag (dim d) m d) (2 * v) (2 * v + 1) =
      mat_get (dim d) m (2 * v) (2 * v + 1))"
proof -
  let ?n = "dim d"
  let ?f = "\<lambda>v e. dbm_set e (2 * v) (2 * v + 1) (mat_get ?n m (2 * v) (2 * v + 1))"
  let ?W = "\<lambda>e. wf_dbm e \<and> dim e = ?n"
  let ?I = "\<lambda>p e. ?W e \<and> (\<forall>i < ?n. \<forall>j \<le> i. dbm_get e i j = dbm_get d i j) \<and>
    (\<forall>v < p. dbm_get e (2 * v) (2 * v + 1) = mat_get ?n m (2 * v) (2 * v + 1))"
  have "?I (?n div 2) (write_back_upper_diag ?n m d)"
    unfolding write_back_upper_diag_def
  proof (rule for_range_counted [where P = ?I])
    show "?I 0 d" using wf by simp
    fix p e assume p: "p < ?n div 2" and I: "?I p e"
    then have W: "?W e" and lt: "2 * p + 1 < ?n" by auto
    have low: "dbm_get (?f p e) i j = dbm_get d i j" if "i < ?n" "j \<le> i" for i j
      using that W lt I by (subst dbm_get_set) (auto simp: cell_eq_iff)
    have up: "dbm_get (?f p e) (2 * v) (2 * v + 1) = mat_get ?n m (2 * v) (2 * v + 1)"
      if "v < Suc p" for v
      using that W lt I by (subst dbm_get_set) (auto simp: cell_eq_iff less_Suc_eq)
    show "?I (Suc p) (?f p e)" using W low up by simp
  qed
  then show ?thesis by (simp add: dim_def)
qed

lemma write_back_wf:
  assumes "wf_dbm d"
  shows "wf_dbm (write_back_upper_diag (dim d) m (write_back_lower B (dim d) m d))"
    and "dim (write_back_upper_diag (dim d) m (write_back_lower B (dim d) m d)) = dim d"
  using write_back_lower_get [OF assms, of B m]
    write_back_upper_get [of "write_back_lower B (dim d) m d" m] by auto

lemma write_back_get:
  fixes B :: "'b bound_ops" and m :: "'b list"
  assumes wf: "wf_dbm d" and i: "i < dim d" and j: "j < dim d"
  defines "e \<equiv> write_back_upper_diag (dim d) m (write_back_lower B (dim d) m d)"
  shows "is_upper_diag i j \<Longrightarrow> dbm_get e i j = mat_get (dim d) m i j"
    and "\<not> is_upper_diag i j \<Longrightarrow> \<exists>p q. cell p q = cell i j \<and> dbm_get e i j =
      b_min B (mat_get (dim d) m p q) (mat_get (dim d) m (complement q) (complement p))"
proof -
  let ?l = "write_back_lower B (dim d) m d"
  note L = write_back_lower_get [OF wf, of B m]
  then have wl: "wf_dbm ?l" and dl: "dim ?l = dim d" by auto
  note U = write_back_upper_get [OF wl, of m, unfolded dl]
  show "dbm_get e i j = mat_get (dim d) m i j" if "is_upper_diag i j"
  proof -
    from that obtain v where v: "i = 2 * v" "j = 2 * v + 1" by (auto simp: is_upper_diag_iff elim: evenE)
    with i dl have "v < n_vars ?l" by (simp add: dim_def)
    with U v show ?thesis by (simp add: e_def)
  qed
  show "\<exists>p q. cell p q = cell i j \<and> dbm_get e i j =
      b_min B (mat_get (dim d) m p q) (mat_get (dim d) m (complement q) (complement p))"
    if "\<not> is_upper_diag i j"
  proof -
    obtain p q where pq: "cell i j = (p, q)" by fastforce
    with cell_lower [OF that] have qp: "q \<le> p" by simp
    with pq have c: "cell p q = cell i j" by (simp add: cell_def)
    have "p < dim d" using pq i j by (auto simp: cell_def split: if_splits)
    with qp L U have "dbm_get e p q = b_min B (mat_get (dim d) m p q) (mat_get (dim d) m (complement q) (complement p))"
      by (simp add: e_def)
    with c show ?thesis using dbm_get_cell [OF c, of e] by metis
  qed
qed

section \<open>Soundness, for every bound type that obeys the laws\<close>

context sound_bound
begin

text \<open>\<open>v\<close> bounds the difference of the literals \<open>i\<close> and \<open>j\<close> in the environment \<open>x\<close>.\<close>

definition holds_at :: "(usize \<Rightarrow> int) \<Rightarrow> usize \<Rightarrow> usize \<Rightarrow> 'b \<Rightarrow> bool" where
  "holds_at x i j v \<longleftrightarrow> admits v (lit x j - lit x i)"

definition refines :: "'b \<Rightarrow> 'b \<Rightarrow> bool" where
  "refines v w \<longleftrightarrow> (\<forall>e. admits v e \<longrightarrow> admits w e)"

lemma holds_min: "holds_at x i j v \<Longrightarrow> holds_at x i j w \<Longrightarrow> holds_at x i j (b_min B v w)"
  by (simp add: holds_at_def admits_min)

lemma holds_trans:
  assumes "small_env ok n x" and "i < 2 * n" "j < 2 * n" "k < 2 * n"
    and "holds_at x i k u" and "holds_at x k j v"
  shows "holds_at x i j (b_closure_add B u v)"
proof -
  have "admits (b_closure_add B u v) ((lit x k - lit x i) + (lit x j - lit x k))"
    using assms by (intro admits_closure_add) (auto simp: holds_at_def small_env_def)
  then show ?thesis by (simp add: holds_at_def)
qed

lemma holds_strengthen:
  assumes "small_env ok n x" and "i < 2 * n" "j < 2 * n"
    and u: "holds_at x i (complement i) u" and v: "holds_at x (complement j) j v"
  shows "holds_at x i j (b_half B (b_closure_add B u v))"
proof -
  have "ok (lit x (complement i) - lit x i)" "ok (lit x j - lit x (complement j))"
    using assms(1-3) complement_less_even unfolding small_env_def by blast+
  with u v have "admits (b_closure_add B u v)
      ((lit x (complement i) - lit x i) + (lit x j - lit x (complement j)))"
    by (intro admits_closure_add) (auto simp: holds_at_def)
  moreover have "(lit x (complement i) - lit x i) + (lit x j - lit x (complement j)) =
      (lit x j - lit x i) + (lit x j - lit x i)"
    by simp
  moreover have "ok (lit x j - lit x i)" using assms(1-3) by (simp add: small_env_def)
  ultimately show ?thesis unfolding holds_at_def by (metis admits_half)
qed

lemma holds_complement: "holds_at x i j v \<Longrightarrow> holds_at x (complement j) (complement i) v"
  by (simp add: holds_at_def)

lemma refines_min: "refines v w \<Longrightarrow> refines (b_min B v u) w"
  by (simp add: refines_def admits_min)

lemma refines_min2: "refines v w \<Longrightarrow> refines (b_min B u v) w"
  by (simp add: refines_def admits_min)

lemma closed_matrix_models:
  assumes wf: "wf_dbm d" and small: "small_env ok (n_vars d) x" and x: "oct_models admits d x"
  shows "mat_all (dim d) (holds_at x)
    (strengthen B (dim d) (floyd_warshall B (dim d) (full_matrix B d)))"
proof (rule strengthen_all)
  have "mat_all (dim d) (holds_at x) (full_matrix B d)"
    using oct_modelsD [OF x] by (intro mat_all_full_matrix) (simp add: holds_at_def)
  then show "mat_all (dim d) (holds_at x) (floyd_warshall B (dim d) (full_matrix B d))"
  proof (rule floyd_warshall_all)
    fix i j k u v w
    assume "i < dim d" "j < dim d" "k < dim d" and u: "holds_at x i k u" and v: "holds_at x k j v"
      and w: "holds_at x i j w"
    then have ij: "i < 2 * n_vars d" "j < 2 * n_vars d" "k < 2 * n_vars d" by (simp_all add: dim_def)
    show "holds_at x i j (b_min B w (b_closure_add B u v))"
      by (rule holds_min [OF w holds_trans [OF small ij u v]])
  qed
  show "even (dim d)" by (simp add: dim_def)
  show "holds_at x i j (b_min B w (b_half B (b_closure_add B u v)))"
    if "i < dim d" "j < dim d" "holds_at x i (complement i) u" "holds_at x (complement j) j v"
      "holds_at x i j w" for i j u v w
    using that by (intro holds_min holds_strengthen [OF small]) (simp_all add: dim_def)
qed

lemma closed_matrix_refines:
  assumes wf: "wf_dbm d"
  shows "mat_all (dim d) (\<lambda>i j v. refines v (dbm_get d i j))
    (strengthen B (dim d) (floyd_warshall B (dim d) (full_matrix B d)))"
proof (rule strengthen_all)
  have "mat_all (dim d) (\<lambda>i j v. refines v (dbm_get d i j)) (full_matrix B d)"
    by (intro mat_all_full_matrix) (simp add: refines_def)
  then show "mat_all (dim d) (\<lambda>i j v. refines v (dbm_get d i j)) (floyd_warshall B (dim d) (full_matrix B d))"
    by (rule floyd_warshall_all) (rule refines_min)
  show "even (dim d)" by (simp add: dim_def)
  show "refines (b_min B w (b_half B (b_closure_add B u v))) (dbm_get d i j)"
    if "refines w (dbm_get d i j)" for i j u v w
    using that by (rule refines_min)
qed

lemma not_negative:
  assumes "mat_all (dim d) (holds_at x) m"
  shows "\<not> negative_diagonal B (dim d) m"
proof -
  have "\<not> b_lt B (mat_get (dim d) m i i) (b_zero B)" if "i < dim d" for i
    using mat_allD [OF assms that that] by (intro zero_not_negative) (simp add: holds_at_def)
  then show ?thesis by (simp add: negative_diagonal_def list_ex_iff)
qed

lemma fill_models:
  assumes "wf_dbm d" and "mat_all (dim d) (holds_at x) m" and "oct_models admits d x"
  shows "oct_models admits (dbm_fill (mat_get (dim d) m) (dim d) d) x"
proof -
  have "holds_at x i j (dbm_get (dbm_fill (mat_get (dim d) m) (dim d) d) i j)"
    if "i < dim d" "j < dim d" for i j
    by (rule dbm_fill_pred [where P = "holds_at x", OF assms(1) order_refl _ mat_allD [OF assms(2)]
          holds_complement that])
      (use oct_modelsD [OF assms(3)] in \<open>simp_all add: holds_at_def\<close>)
  then show ?thesis by (simp add: oct_models_def holds_at_def)
qed

lemma fill_refines:
  assumes wf: "wf_dbm d" and m: "mat_all (dim d) (\<lambda>i j v. refines v (dbm_get d i j)) m"
    and x: "oct_models admits (dbm_fill (mat_get (dim d) m) (dim d) d) x"
  shows "oct_models admits d x"
proof -
  have "refines (dbm_get (dbm_fill (mat_get (dim d) m) (dim d) d) i j) (dbm_get d i j)"
    if "i < dim d" "j < dim d" for i j
    by (rule dbm_fill_pred [where P = "\<lambda>i j v. refines v (dbm_get d i j)", OF wf])
      (use that m in \<open>auto simp: refines_def dbm_get_coherent mat_all_def\<close>)
  with x show ?thesis by (simp add: oct_models_def refines_def)
qed

lemma strong_closure_keeps_models:
  assumes "wf_dbm d" and "small_env ok (n_vars d) x"
  shows "oct_models admits (snd (strong_closure B d)) x \<longleftrightarrow> oct_models admits d x"
    and "fst (strong_closure B d) = Empty \<Longrightarrow> \<not> oct_models admits d x"
proof -
  let ?m = "strengthen B (dim d) (floyd_warshall B (dim d) (full_matrix B d))"
  show "oct_models admits (snd (strong_closure B d)) x \<longleftrightarrow> oct_models admits d x"
    using fill_refines [OF assms(1) closed_matrix_refines [OF assms(1)]]
      fill_models [OF assms(1) closed_matrix_models [OF assms]]
    by (auto simp: strong_closure_def Let_def)
  show "\<not> oct_models admits d x" if "fst (strong_closure B d) = Empty"
  proof
    assume "oct_models admits d x"
    then have "\<not> negative_diagonal B (dim d) ?m"
      using closed_matrix_models [OF assms] not_negative by blast
    with that show False by (simp add: strong_closure_def Let_def)
  qed
qed

lemma strong_closure_wf:
  "wf_dbm d \<Longrightarrow> wf_dbm (snd (strong_closure B d))" "n_vars (snd (strong_closure B d)) = n_vars d"
  by (simp_all add: strong_closure_def Let_def)

text \<open>The matrix after the new constraint, the paths and the strengthening pass.\<close>

definition incremental_matrix :: "'b dbm \<Rightarrow> usize \<Rightarrow> usize \<Rightarrow> 'b \<Rightarrow> 'b list" where
  "incremental_matrix d a b val =
     (let n = dim d; m = full_matrix B d;
          c = b_min B (mat_get n m a b) val;
          m = mat_set n m a b c;
          c_bar = b_min B (mat_get n m (complement b) (complement a)) c;
          m = mat_set n m (complement b) (complement a) c_bar
      in strengthen B n (incremental_paths B n a b c c_bar m))"

lemma incremental_closure_eq:
  "incremental_closure B d a b val =
     (if dim d \<le> a \<or> dim d \<le> b then None
      else if negative_diagonal B (dim d) (incremental_matrix d a b val) then Some (Empty, d)
      else Some (Closed, write_back_upper_diag (dim d) (incremental_matrix d a b val)
        (write_back_lower B (dim d) (incremental_matrix d a b val) d)))"
  by (auto simp: incremental_closure_def incremental_matrix_def Let_def)

lemma incremental_matrix_models:
  assumes wf: "wf_dbm d" and small: "small_env ok (n_vars d) x" and x: "oct_models admits d x"
    and a: "a < dim d" and b: "b < dim d" and val: "holds_at x a b val"
  shows "mat_all (dim d) (holds_at x) (incremental_matrix d a b val)"
proof -
  let ?n = "dim d" and ?m = "full_matrix B d"
  let ?c = "b_min B (mat_get ?n ?m a b) val"
  let ?m1 = "mat_set ?n ?m a b ?c"
  let ?c' = "b_min B (mat_get ?n ?m1 (complement b) (complement a)) ?c"
  have m: "mat_all ?n (holds_at x) ?m"
    using oct_modelsD [OF x] by (intro mat_all_full_matrix) (simp add: holds_at_def)
  have a': "complement a < ?n" and b': "complement b < ?n" using a b by simp_all
  have c: "holds_at x a b ?c" by (rule holds_min [OF mat_allD [OF m a b] val])
  have m1: "mat_all ?n (holds_at x) ?m1" by (rule mat_all_set [where P = "holds_at x", OF m a b c])
  have c': "holds_at x (complement b) (complement a) ?c'"
    by (rule holds_min [OF mat_allD [OF m1 b' a'] holds_complement [OF c]])
  have m2: "mat_all ?n (holds_at x) (mat_set ?n ?m1 (complement b) (complement a) ?c')"
    by (rule mat_all_set [where P = "holds_at x", OF m1 b' a' c'])
  have "mat_all ?n (holds_at x) (incremental_paths B ?n a b ?c ?c'
      (mat_set ?n ?m1 (complement b) (complement a) ?c'))"
  proof (rule incremental_paths_all [where P = "holds_at x", OF m2 a b _ c c' _ holds_min])
    show "even ?n" by (simp add: dim_def)
    show "holds_at x i j (b_closure_add B u v)"
      if "i < ?n" "j < ?n" "k < ?n" "holds_at x i k u" "holds_at x k j v" for i j k u v
      by (rule holds_trans [OF small _ _ _ that(4,5)]) (use that(1-3) in \<open>simp_all add: dim_def\<close>)
  qed
  then have "mat_all ?n (holds_at x) (strengthen B ?n (incremental_paths B ?n a b ?c ?c'
      (mat_set ?n ?m1 (complement b) (complement a) ?c')))"
  proof (rule strengthen_all)
    show "even ?n" by (simp add: dim_def)
    show "holds_at x i j (b_min B w (b_half B (b_closure_add B u v)))"
      if "i < ?n" "j < ?n" "holds_at x i (complement i) u" "holds_at x (complement j) j v"
        "holds_at x i j w" for i j u v w
      by (rule holds_min [OF that(5) holds_strengthen [OF small _ _ that(3,4)]])
        (use that(1,2) in \<open>simp_all add: dim_def\<close>)
  qed
  then show ?thesis by (simp add: incremental_matrix_def Let_def)
qed

lemma write_back_models:
  assumes wf: "wf_dbm d" and m: "mat_all (dim d) (holds_at x) m"
  shows "oct_models admits (write_back_upper_diag (dim d) m (write_back_lower B (dim d) m d)) x"
    (is "oct_models admits ?e x")
proof -
  have "holds_at x i j (dbm_get ?e i j)" if i: "i < dim d" and j: "j < dim d" for i j
  proof (cases "is_upper_diag i j")
    case True
    with write_back_get(1) [OF wf i j] mat_allD [OF m i j] show ?thesis by simp
  next
    case False
    then obtain p q where c: "cell p q = cell i j" and e: "dbm_get ?e i j =
        b_min B (mat_get (dim d) m p q) (mat_get (dim d) m (complement q) (complement p))"
      using write_back_get(2) [OF wf i j] by blast
    from c i j have pq: "p < dim d" "q < dim d" by (auto simp: cell_eq_iff)
    have "holds_at x p q (b_min B (mat_get (dim d) m p q) (mat_get (dim d) m (complement q) (complement p)))"
      using mat_allD [OF m, of p q] mat_allD [OF m, of "complement q" "complement p"] pq
        holds_complement [of x "complement q" "complement p"]
      by (intro holds_min) simp_all
    then show ?thesis using c e holds_complement by (auto simp: cell_eq_iff)
  qed
  then show ?thesis by (simp add: oct_models_def holds_at_def write_back_wf(2) [OF wf])
qed

lemma incremental_closure_models:
  assumes wf: "wf_dbm d" and small: "small_env ok (n_vars d) x" and x: "oct_models admits d x"
    and val: "admits val (lit x b - lit x a)" and r: "incremental_closure B d a b val = Some (r, e)"
  shows "r = Closed \<and> oct_models admits e x"
proof -
  from r have ab: "a < dim d" "b < dim d" by (auto simp: incremental_closure_eq split: if_splits)
  with val have m: "mat_all (dim d) (holds_at x) (incremental_matrix d a b val)"
    by (intro incremental_matrix_models [OF wf small x]) (simp_all add: holds_at_def)
  show ?thesis
    using r ab not_negative [OF m] write_back_models [OF wf m] by (auto simp: incremental_closure_eq)
qed

text \<open>Conversely the result is at least as tight as the old matrix and the new constraint.\<close>

definition tightened :: "'b dbm \<Rightarrow> usize \<Rightarrow> usize \<Rightarrow> 'b \<Rightarrow> usize \<Rightarrow> usize \<Rightarrow> 'b \<Rightarrow> bool" where
  "tightened d a b val i j v \<longleftrightarrow>
     refines v (dbm_get d i j) \<and>
     ((i = a \<and> j = b) \<or> (i = complement b \<and> j = complement a) \<longrightarrow> refines v val)"

lemma tightened_min: "tightened d a b val i j w \<Longrightarrow> tightened d a b val i j (b_min B w v)"
  by (auto simp: tightened_def intro: refines_min)

lemma incremental_matrix_tightened:
  assumes a: "a < dim d" and b: "b < dim d"
  shows "mat_all (dim d) (tightened d a b val) (incremental_matrix d a b val)"
proof -
  let ?n = "dim d" and ?m = "full_matrix B d" and ?a' = "complement a" and ?b' = "complement b"
  let ?Q = "\<lambda>i j v. refines v (dbm_get d i j)"
  let ?c = "b_min B (mat_get ?n ?m a b) val"
  let ?m1 = "mat_set ?n ?m a b ?c"
  let ?c' = "b_min B (mat_get ?n ?m1 ?b' ?a') ?c"
  let ?m2 = "mat_set ?n ?m1 ?b' ?a' ?c'"
  have a': "?a' < ?n" and b': "?b' < ?n" using a b by simp_all
  have m: "mat_all ?n ?Q ?m" by (intro mat_all_full_matrix) (simp add: refines_def)
  have m1: "mat_all ?n ?Q ?m1"
    by (rule mat_all_set [where P = ?Q, OF m a b]) (rule refines_min [OF mat_allD [OF m a b]])
  have m2: "mat_all ?n ?Q ?m2"
    by (rule mat_all_set [where P = ?Q, OF m1 b' a']) (rule refines_min [OF mat_allD [OF m1 b' a']])
  have len: "length ?m1 = ?n * ?n" "length ?m = ?n * ?n" using m m1 by (auto simp: mat_all_def)
  have c: "refines ?c val" "refines ?c' val"
    by (intro refines_min2, simp add: refines_def)+
  have "refines (mat_get ?n ?m2 i j) val"
    if "(i = a \<and> j = b) \<or> (i = ?b' \<and> j = ?a')" for i j
    using that c a b a' b' len by (auto simp: mat_get_set)
  with m2 have P2: "mat_all ?n (tightened d a b val) ?m2"
    by (auto simp: mat_all_def tightened_def)
  have "mat_all ?n (tightened d a b val) (strengthen B ?n (incremental_paths B ?n a b ?c ?c' ?m2))"
  proof (rule strengthen_all)
    show "mat_all ?n (tightened d a b val) (incremental_paths B ?n a b ?c ?c' ?m2)"
      by (rule incremental_paths_tightens [OF P2]) (intro tightened_min)
    show "even ?n" by (simp add: dim_def)
    show "tightened d a b val i j (b_min B w (b_half B (b_closure_add B u v)))"
      if "tightened d a b val i j w" for i j u v w
      using that by (rule tightened_min)
  qed
  then show ?thesis by (simp add: incremental_matrix_def Let_def)
qed

lemma write_back_tightened:
  assumes wf: "wf_dbm d" and m: "mat_all (dim d) (tightened d a b val) m"
    and i: "i < dim d" and j: "j < dim d"
  shows "tightened d a b val i j
    (dbm_get (write_back_upper_diag (dim d) m (write_back_lower B (dim d) m d)) i j)"
    (is "tightened d a b val i j (dbm_get ?e i j)")
proof (cases "is_upper_diag i j")
  case True
  with write_back_get(1) [OF wf i j] mat_allD [OF m i j] show ?thesis by simp
next
  case False
  then obtain p q where c: "cell p q = cell i j" and e: "dbm_get ?e i j =
      b_min B (mat_get (dim d) m p q) (mat_get (dim d) m (complement q) (complement p))"
    using write_back_get(2) [OF wf i j] by blast
  from c i j have pq: "p < dim d" "q < dim d" by (auto simp: cell_eq_iff)
  have "i = p \<and> j = q \<or> i = complement q \<and> j = complement p" using c by (auto simp: cell_eq_iff)
  moreover have "tightened d a b val p q (mat_get (dim d) m p q)"
    "tightened d a b val (complement q) (complement p) (mat_get (dim d) m (complement q) (complement p))"
    using mat_allD [OF m] pq by simp_all
  ultimately have "tightened d a b val i j (mat_get (dim d) m p q) \<or>
      tightened d a b val i j (mat_get (dim d) m (complement q) (complement p))"
    by blast
  then show ?thesis unfolding e
    by (auto simp: tightened_def intro: refines_min refines_min2)
qed

lemma incremental_closure_tightens:
  assumes wf: "wf_dbm d" and r: "incremental_closure B d a b val = Some (Closed, e)"
    and x: "oct_models admits e x"
  shows "oct_models admits d x \<and> admits val (lit x b - lit x a)"
proof -
  let ?m = "incremental_matrix d a b val"
  from r have ab: "a < dim d" "b < dim d"
    and e: "e = write_back_upper_diag (dim d) ?m (write_back_lower B (dim d) ?m d)"
    by (auto simp: incremental_closure_eq split: if_splits)
  have dim: "dim e = dim d" using write_back_wf(2) [OF wf] by (simp add: e)
  have t: "tightened d a b val i j (dbm_get e i j)" if "i < dim d" "j < dim d" for i j
    unfolding e by (rule write_back_tightened [OF wf incremental_matrix_tightened [OF ab] that])
  have ij: "admits (dbm_get e i j) (lit x j - lit x i)" if "i < dim d" "j < dim d" for i j
    using oct_modelsD [OF x] that dim by simp
  have "oct_models admits d x"
    using t ij by (auto simp: oct_models_def tightened_def refines_def)
  moreover have "admits val (lit x b - lit x a)"
    using t [OF ab] ij [OF ab] by (auto simp: tightened_def refines_def)
  ultimately show ?thesis by blast
qed

lemma tight_closure_models:
  assumes "wf_dbm d" and "oct_models admits d x"
  shows "oct_models admits (snd (tight_closure B d)) x"
proof -
  let ?W = "\<lambda>e. wf_dbm e \<and> dim e = dim d"
  have put: "oct_models admits (dbm_set e i j (b_tighten B (dbm_get e i j))) x"
    if e: "?W e" "oct_models admits e x" and ij: "i < dim d" "j < dim d" "i div 2 = j div 2" "i \<noteq> j"
    for e i j
  proof -
    have "j = complement i" using ij by (auto simp: same_block)
    then have two: "lit x j - lit x i = lit x j + lit x j" by simp
    have "admits (dbm_get e i j) (lit x j - lit x i)" using oct_modelsD [OF e(2)] e(1) ij by simp
    then have t: "admits (b_tighten B (dbm_get e i j)) (lit x j - lit x i)"
      unfolding two by (rule admits_tighten)
    have "admits (dbm_get (dbm_set e i j (b_tighten B (dbm_get e i j))) k l) (lit x l - lit x k)"
      if "k < dim d" "l < dim d" for k l
      using t that e ij oct_modelsD [OF e(2), of k l] by (auto simp: dbm_get_set cell_eq_iff)
    with e(1) show ?thesis by (simp add: oct_models_def)
  qed
  let ?I = "\<lambda>e. ?W e \<and> oct_models admits e x"
  have "?I (snd (tight_closure B d))"
    unfolding tight_closure_def Let_def snd_conv
  proof (rule for_range_invariant [where P = ?I])
    show "?I d" using assms by simp
    fix v e assume v: "v < n_vars d" and I: "?I e"
    then have lt: "2 * v < dim d" "2 * v + 1 < dim d" by (simp_all add: dim_def)
    let ?e = "dbm_set e (2 * v + 1) (2 * v) (b_tighten B (dbm_get e (2 * v + 1) (2 * v)))"
    have I': "?I ?e" using I put [of e "2 * v + 1" "2 * v"] lt by simp
    then show "?I (dbm_set ?e (2 * v) (2 * v + 1) (b_tighten B (dbm_get ?e (2 * v) (2 * v + 1))))"
      using put [of ?e "2 * v" "2 * v + 1"] lt by simp
  qed
  then show ?thesis by blast
qed

end

end
