(* ===== verification/Octagon_Ops.thy ===== *)
theory Octagon_Ops
  imports Closure
begin

text \<open>
  \<open>dataflow/octagon/operations.rs\<close> and \<open>query.rs\<close>: join, meet, the two widenings, inclusion, the
  bottom and top tests and the projection of a variable to an interval. A panic (the two matrices
  of \<open>query::is_included\<close> or \<open>widen\<close> disagree in size, a variable index is out of range) is \<open>None\<close>.
\<close>

section \<open>Lattice operations\<close>

definition join :: "'b bound_ops \<Rightarrow> 'b dbm \<Rightarrow> 'b dbm \<Rightarrow> 'b dbm option" where
  "join B a b =
     (if n_vars a \<noteq> n_vars b then None
      else Some (dbm_fill (\<lambda>i j. b_max B (dbm_get a i j) (dbm_get b i j)) (dim a)
        (dbm_new B (n_vars a))))"

definition meet :: "'b bound_ops \<Rightarrow> 'b dbm \<Rightarrow> 'b dbm \<Rightarrow> 'b dbm option" where
  "meet B a b =
     (if n_vars a \<noteq> n_vars b then None
      else
        (let result = dbm_fill (\<lambda>i j. b_min B (dbm_get a i j) (dbm_get b i j)) (dim a)
               (dbm_new B (n_vars a));
             (closure_res, result) = strong_closure B result
         in if closure_res = Empty then None else Some result))"

definition widen :: "'b bound_ops \<Rightarrow> 'b dbm \<Rightarrow> 'b dbm \<Rightarrow> 'b dbm option" where
  "widen B old new =
     (if n_vars new < n_vars old then None
      else Some (dbm_fill
        (\<lambda>i j. if b_lt B (dbm_get old i j) (dbm_get new i j) then b_infinity B else dbm_get new i j)
        (dim old) (dbm_new B (n_vars old))))"

definition default_thresholds :: "i64 list" where
  "default_thresholds =
     [-128, -64, -32, -16, -8, -4, -2, -1, 0, 1, 2, 4, 8, 16, 32, 64, 128, 255, 256, 1024]"

text \<open>\<open>threshold_bound >= new_val\<close> on the ordered bounds is \<open>not (threshold_bound < new_val)\<close>.\<close>

fun next_threshold :: "'b bound_ops \<Rightarrow> i64 list \<Rightarrow> 'b \<Rightarrow> 'b" where
  "next_threshold B [] new_val = b_infinity B"
| "next_threshold B (t # ts) new_val =
     (if \<not> b_lt B (b_from_i64 B t) new_val then b_from_i64 B t else next_threshold B ts new_val)"

definition widen_with_thresholds ::
  "'b bound_ops \<Rightarrow> 'b dbm \<Rightarrow> 'b dbm \<Rightarrow> i64 list \<Rightarrow> 'b dbm option" where
  "widen_with_thresholds B old new thresholds =
     (if n_vars new < n_vars old then None
      else Some (dbm_fill
        (\<lambda>i j. if b_lt B (dbm_get old i j) (dbm_get new i j)
               then next_threshold B thresholds (dbm_get new i j) else dbm_get new i j)
        (dim old) (dbm_new B (n_vars old))))"

definition entrywise_included :: "'b bound_ops \<Rightarrow> 'b dbm \<Rightarrow> 'b dbm \<Rightarrow> bool" where
  "entrywise_included B a b \<longleftrightarrow>
     list_all (\<lambda>i. list_all (\<lambda>j. \<not> b_lt B (dbm_get b i j) (dbm_get a i j)) [0..<dim a]) [0..<dim a]"

definition is_included :: "'b bound_ops \<Rightarrow> 'b dbm \<Rightarrow> 'b dbm \<Rightarrow> bool" where
  "is_included B a b \<longleftrightarrow> n_vars a = n_vars b \<and> entrywise_included B a b"

section \<open>Queries\<close>

text \<open>\<open>query::is_included\<close> asserts that the dimensions agree.\<close>

definition query_is_included :: "'b bound_ops \<Rightarrow> 'b dbm \<Rightarrow> 'b dbm \<Rightarrow> bool option" where
  "query_is_included B a b = (if dim a \<noteq> dim b then None else Some (entrywise_included B a b))"

definition is_equal :: "'b bound_ops \<Rightarrow> 'b dbm \<Rightarrow> 'b dbm \<Rightarrow> bool option" where
  "is_equal B a b =
     (case query_is_included B a b of
        None \<Rightarrow> None
      | Some False \<Rightarrow> Some False
      | Some True \<Rightarrow> query_is_included B b a)"

definition is_bottom :: "'b bound_ops \<Rightarrow> 'b dbm \<Rightarrow> bool" where
  "is_bottom B d \<longleftrightarrow> list_ex (\<lambda>i. b_lt B (dbm_get d i i) (b_zero B)) [0..<dim d]"

definition is_top :: "'b bound_ops \<Rightarrow> 'b dbm \<Rightarrow> bool" where
  "is_top B d \<longleftrightarrow>
     list_all (\<lambda>i. list_all
       (\<lambda>j. if i = j then b_eq B (dbm_get d i j) (b_zero B) else b_is_pos_infinity B (dbm_get d i j))
       [0..<dim d]) [0..<dim d]"

text \<open>
  \<open>to_f64\<close> stands for \<open>bound_to_f64\<close>, the conversion of a bound to a 64-bit float.
\<close>

definition project_interval ::
  "'b bound_ops \<Rightarrow> ('b \<Rightarrow> 'f) \<Rightarrow> 'b dbm \<Rightarrow> usize \<Rightarrow> ('f option \<times> 'f option) option" where
  "project_interval B to_f64 d var_idx =
     (let pos = 2 * var_idx; neg = 2 * var_idx + 1
      in if n_vars d \<le> var_idx then None
         else
           (let upper_raw = dbm_get d neg pos;
                hi = (if b_is_pos_infinity B upper_raw then None else Some (to_f64 (b_half B upper_raw)));
                lower_raw = dbm_get d pos neg;
                lo = (if b_is_pos_infinity B lower_raw then None
                      else Some (to_f64 (b_half B (b_neg B lower_raw))))
            in Some (lo, hi)))"

record 'f oct_constraint =
  var_i :: usize
  neg_i :: bool
  var_j :: usize
  neg_j :: bool
  oct_bound :: 'f

definition extract_constraints :: "'b bound_ops \<Rightarrow> ('b \<Rightarrow> 'f) \<Rightarrow> 'b dbm \<Rightarrow> 'f oct_constraint list" where
  "extract_constraints B to_f64 d =
     concat (map (\<lambda>i. concat (map (\<lambda>j.
       (if i = j then []
        else if b_is_pos_infinity B (dbm_get d i j) then []
        else [\<lparr>var_i = i div 2, neg_i = (i mod 2 = 1), var_j = j div 2, neg_j = (j mod 2 = 1),
               oct_bound = to_f64 (dbm_get d i j)\<rparr>]))
       [0..<dim d])) [0..<dim d])"

section \<open>Contents of the results\<close>

lemma coherent_pointwise:
  "coherent k (\<lambda>i j. f (dbm_get a i j) (dbm_get b i j))"
  by (simp add: coherent_def dbm_get_coherent)

lemma fill_pointwise_get:
  assumes "dim a = k" and "i < k" and "j < k"
  shows "dbm_get (dbm_fill (\<lambda>i j. f (dbm_get a i j) (dbm_get b i j)) k (dbm_new B (n_vars a))) i j =
    f (dbm_get a i j) (dbm_get b i j)"
  using assms by (intro dbm_fill_coherent coherent_pointwise) (simp_all add: dim_def)

lemma join_get:
  assumes "join B a b = Some r"
  shows "wf_dbm r" "n_vars r = n_vars a" "n_vars b = n_vars a"
    and "i < dim a \<Longrightarrow> j < dim a \<Longrightarrow> dbm_get r i j = b_max B (dbm_get a i j) (dbm_get b i j)"
  using assms fill_pointwise_get [OF refl, of i a j "b_max B" b B]
  by (auto simp: join_def split: if_splits)

lemma widen_get:
  assumes "widen B old new = Some r"
  shows "wf_dbm r" "n_vars r = n_vars old"
    and "i < dim old \<Longrightarrow> j < dim old \<Longrightarrow> dbm_get r i j =
      (if b_lt B (dbm_get old i j) (dbm_get new i j) then b_infinity B else dbm_get new i j)"
  using assms fill_pointwise_get [OF refl, of i old j "\<lambda>u v. if b_lt B u v then b_infinity B else v" new B]
  by (auto simp: widen_def split: if_splits)

lemma widen_with_thresholds_get:
  assumes "widen_with_thresholds B old new ts = Some r"
  shows "wf_dbm r" "n_vars r = n_vars old"
    and "i < dim old \<Longrightarrow> j < dim old \<Longrightarrow> dbm_get r i j =
      (if b_lt B (dbm_get old i j) (dbm_get new i j) then next_threshold B ts (dbm_get new i j)
       else dbm_get new i j)"
  using assms
    fill_pointwise_get [OF refl, of i old j "\<lambda>u v. if b_lt B u v then next_threshold B ts v else v" new B]
  by (auto simp: widen_with_thresholds_def split: if_splits)

lemma entrywise_included_iff:
  "entrywise_included B a b \<longleftrightarrow>
     (\<forall>i < dim a. \<forall>j < dim a. \<not> b_lt B (dbm_get b i j) (dbm_get a i j))"
  by (auto simp: entrywise_included_def list_all_iff)

lemma dim_cong: "n_vars a = n_vars b \<Longrightarrow> dim a = dim b"
  by (simp add: dim_def)

section \<open>Soundness\<close>

context sound_bound
begin

lemma join_models:
  assumes "join B a b = Some r" and "oct_models admits a x \<or> oct_models admits b x"
  shows "oct_models admits r x"
  using assms(2) join_get [OF assms(1)] admits_max
  by (auto simp: oct_models_def dim_def)

lemma widen_models:
  assumes "widen B old new = Some r" and "n_vars new = n_vars old" and "oct_models admits new x"
  shows "oct_models admits r x"
  using assms(2,3) widen_get [OF assms(1)] admits_infinity
  by (auto simp: oct_models_def dim_def)

lemma next_threshold_above: "admits v d \<Longrightarrow> admits (next_threshold B ts v) d"
  by (induction ts) (auto simp: admits_infinity intro: admits_lt)

lemma widen_with_thresholds_models:
  assumes "widen_with_thresholds B old new ts = Some r" and "n_vars new = n_vars old"
    and "oct_models admits new x"
  shows "oct_models admits r x"
  using assms(2,3) widen_with_thresholds_get [OF assms(1)] next_threshold_above
  by (auto simp: oct_models_def dim_def)

lemma is_included_models:
  assumes "is_included B a b" and "oct_models admits a x"
  shows "oct_models admits b x"
proof -
  have d: "dim a = dim b" using assms(1) by (simp add: is_included_def dim_def)
  have "admits (dbm_get b i j) (lit x j - lit x i)" if "i < dim a" "j < dim a" for i j
    using assms(1) oct_modelsD [OF assms(2) that] that
    by (intro admits_lt [of "dbm_get b i j" "dbm_get a i j"])
      (simp_all add: is_included_def entrywise_included_iff)
  with d show ?thesis by (simp add: oct_models_def)
qed

lemma bottom_no_models: "is_bottom B d \<Longrightarrow> \<not> oct_models admits d x"
  using negative_excludes_zero
  by (fastforce simp: is_bottom_def list_ex_iff oct_models_def)

lemma top_all_models: "is_top B d \<Longrightarrow> oct_models admits d x"
proof -
  assume top: "is_top B d"
  have "admits (dbm_get d i j) (lit x j - lit x i)" if ij: "i < dim d" "j < dim d" for i j
  proof (cases "i = j")
    case True
    with top ij have "b_eq B (dbm_get d i j) (b_zero B)" by (simp add: is_top_def list_all_iff)
    with True show ?thesis using eq_admits admits_zero by simp
  next
    case False
    with top ij show ?thesis by (auto simp: is_top_def list_all_iff intro: admits_pos_infinity)
  qed
  then show ?thesis by (simp add: oct_models_def)
qed

lemma meet_entries_models:
  assumes "n_vars a = n_vars b"
  shows "oct_models admits (dbm_fill (\<lambda>i j. b_min B (dbm_get a i j) (dbm_get b i j)) (dim a)
      (dbm_new B (n_vars a))) x \<longleftrightarrow> oct_models admits a x \<and> oct_models admits b x"
proof -
  have "dim (dbm_fill m (dim a) (dbm_new B (n_vars a))) = dim a" for m by (simp add: dim_def)
  with fill_pointwise_get [OF refl, of _ a _ "b_min B" b B] dim_cong [OF assms]
  show ?thesis by (auto simp: oct_models_def admits_min)
qed

lemma meet_models:
  assumes n: "n_vars a = n_vars b" and small: "small_env ok (n_vars a) x"
  shows "(case meet B a b of Some r \<Rightarrow> oct_models admits r x | None \<Rightarrow> False) \<longleftrightarrow>
    oct_models admits a x \<and> oct_models admits b x"
proof -
  let ?m = "dbm_fill (\<lambda>i j. b_min B (dbm_get a i j) (dbm_get b i j)) (dim a) (dbm_new B (n_vars a))"
  have wf: "wf_dbm ?m" and sm: "small_env ok (n_vars ?m) x" using small by simp_all
  obtain c r where c: "strong_closure B ?m = (c, r)" by fastforce
  with strong_closure_keeps_models [OF wf sm] meet_entries_models [OF n]
  show ?thesis using n by (cases c) (auto simp: meet_def Let_def)
qed

end

end
