(* ===== verification/Octagon_Transfer.thy ===== *)
theory Octagon_Transfer
  imports Octagon_Ops
begin

text \<open>
  \<open>dataflow/octagon/transfer.rs\<close>: assignment, guard and forget. The variable indices come from the
  caller; an index outside the matrix panics (\<open>None\<close>). The products \<open>2 * c\<close> wrap, as in a release
  build.
\<close>

section \<open>The code\<close>

datatype oct_expr =
  Constant i64
| Variable usize
| VarPlusConst usize i64
| VarMinusConst usize i64
| NegVariable usize
| Unknown

datatype oct_guard =
  GtEq usize i64
| LtEq usize i64
| Gt usize i64
| Lt usize i64
| DiffLtEq usize usize i64
| SumLtEq usize usize i64

definition forget_entries :: "'b bound_ops \<Rightarrow> usize \<Rightarrow> 'b dbm \<Rightarrow> 'b dbm" where
  "forget_entries B var_idx d =
     (let pos = 2 * var_idx; neg = 2 * var_idx + 1; inf = b_infinity B
      in for_range (dim d) (\<lambda>k d.
           (let d = (if k \<noteq> pos then dbm_set (dbm_set d pos k inf) k pos inf else d)
            in if k \<noteq> neg then dbm_set (dbm_set d neg k inf) k neg inf else d)) d)"

definition forget :: "'b bound_ops \<Rightarrow> 'b dbm \<Rightarrow> usize \<Rightarrow> 'b dbm option" where
  "forget B d var_idx =
     (if dim d = 0 then Some d
      else if n_vars d \<le> var_idx then None
      else Some (forget_entries B var_idx d))"

definition put_difference :: "'b dbm \<Rightarrow> usize \<Rightarrow> usize \<Rightarrow> 'b \<Rightarrow> 'b \<Rightarrow> 'b dbm" where
  "put_difference d x y c neg_c =
     (let pos = 2 * x; neg = pos + 1; y_pos = 2 * y; y_neg = y_pos + 1;
          d = dbm_set d y_pos pos c;
          d = dbm_set d pos y_pos neg_c;
          d = dbm_set d y_neg neg neg_c
      in dbm_set d neg y_neg c)"

fun assign_expr :: "'b bound_ops \<Rightarrow> usize \<Rightarrow> oct_expr \<Rightarrow> 'b dbm \<Rightarrow> 'b dbm" where
  "assign_expr B x (Constant c) d =
     (let pos = 2 * x; neg = pos + 1; two_c = b_from_i64 B (wrap_i64 (2 * c));
          d = dbm_set d neg pos two_c
      in dbm_set d pos neg (b_neg B two_c))"
| "assign_expr B x (Variable y) d =
     (let pos = 2 * x; neg = pos + 1; y_pos = 2 * y; y_neg = y_pos + 1;
          d = dbm_set d neg pos (dbm_get d y_neg y_pos);
          d = dbm_set d pos neg (dbm_get d y_pos y_neg)
      in put_difference d x y (b_zero B) (b_zero B))"
| "assign_expr B x (VarPlusConst y c) d =
     (let pos = 2 * x; neg = pos + 1; y_pos = 2 * y; y_neg = y_pos + 1;
          two_c = b_from_i64 B (wrap_i64 (2 * c));
          y_upper = dbm_get d y_neg y_pos;
          d = (if \<not> b_is_pos_infinity B y_upper then dbm_set d neg pos (b_closure_add B y_upper two_c) else d);
          y_lower = dbm_get d y_pos y_neg;
          d = (if \<not> b_is_pos_infinity B y_lower then dbm_set d pos neg (b_closure_add B y_lower (b_neg B two_c)) else d);
          bc = b_from_i64 B c
      in put_difference d x y bc (b_neg B bc))"
| "assign_expr B x (VarMinusConst y c) d =
     (let pos = 2 * x; neg = pos + 1; y_pos = 2 * y; y_neg = y_pos + 1;
          two_c = b_from_i64 B (wrap_i64 (2 * c));
          y_upper = dbm_get d y_neg y_pos;
          d = (if \<not> b_is_pos_infinity B y_upper then dbm_set d neg pos (b_closure_add B y_upper (b_neg B two_c)) else d);
          y_lower = dbm_get d y_pos y_neg;
          d = (if \<not> b_is_pos_infinity B y_lower then dbm_set d pos neg (b_closure_add B y_lower two_c) else d);
          bc = b_from_i64 B c
      in put_difference d x y (b_neg B bc) bc)"
| "assign_expr B x (NegVariable y) d =
     (let pos = 2 * x; neg = pos + 1; y_pos = 2 * y; y_neg = y_pos + 1; z = b_zero B;
          d = dbm_set d neg pos (dbm_get d y_pos y_neg);
          d = dbm_set d pos neg (dbm_get d y_neg y_pos);
          d = dbm_set d y_neg pos z;
          d = dbm_set d pos y_neg z;
          d = dbm_set d y_pos neg z
      in dbm_set d neg y_pos z)"
| "assign_expr B x Unknown d = d"

text \<open>The source variables of the right-hand side.\<close>

fun expr_vars :: "oct_expr \<Rightarrow> usize list" where
  "expr_vars (Variable y) = [y]"
| "expr_vars (VarPlusConst y c) = [y]"
| "expr_vars (VarMinusConst y c) = [y]"
| "expr_vars (NegVariable y) = [y]"
| "expr_vars _ = []"

definition assign ::
  "'b bound_ops \<Rightarrow> 'b dbm \<Rightarrow> usize \<Rightarrow> oct_expr \<Rightarrow> (closure_result \<times> 'b dbm) option" where
  "assign B d var_idx e =
     (case forget B d var_idx of
        None \<Rightarrow> None
      | Some d \<Rightarrow>
          if e \<noteq> Unknown \<and> (n_vars d \<le> var_idx \<or> list_ex (\<lambda>y. n_vars d \<le> y) (expr_vars e)) then None
          else Some (Closed, assign_expr B var_idx e d))"

text \<open>The entry a guard tightens and its new bound.\<close>

fun guard_entry :: "oct_guard \<Rightarrow> usize \<times> usize \<times> i64" where
  "guard_entry (GtEq x c) = (2 * x, 2 * x + 1, wrap_i64 (-2 * c))"
| "guard_entry (LtEq x c) = (2 * x + 1, 2 * x, wrap_i64 (2 * c))"
| "guard_entry (Gt x c) = (2 * x, 2 * x + 1, wrap_i64 (-2 * wrap_i64 (c + 1)))"
| "guard_entry (Lt x c) = (2 * x + 1, 2 * x, wrap_i64 (2 * wrap_i64 (c - 1)))"
| "guard_entry (DiffLtEq x y c) = (2 * y, 2 * x, c)"
| "guard_entry (SumLtEq x y c) = (2 * y + 1, 2 * x, c)"

definition guard :: "'b bound_ops \<Rightarrow> 'b dbm \<Rightarrow> oct_guard \<Rightarrow> (closure_result \<times> 'b dbm) option" where
  "guard B d cond =
     (let (i, j, c) = guard_entry cond
      in if dim d \<le> i \<or> dim d \<le> j then None
         else
           (let d = dbm_set d i j (b_min B (dbm_get d i j) (b_from_i64 B c))
            in if list_ex (\<lambda>i. b_lt B (dbm_get d i i) (b_zero B)) [0..<dim d] then Some (Empty, d)
               else Some (Closed, d)))"

section \<open>The meaning of expressions and guards\<close>

fun expr_value :: "oct_expr \<Rightarrow> (usize \<Rightarrow> int) \<Rightarrow> int \<Rightarrow> bool" where
  "expr_value (Constant c) x v \<longleftrightarrow> v = c"
| "expr_value (Variable y) x v \<longleftrightarrow> v = x y"
| "expr_value (VarPlusConst y c) x v \<longleftrightarrow> v = x y + c"
| "expr_value (VarMinusConst y c) x v \<longleftrightarrow> v = x y - c"
| "expr_value (NegVariable y) x v \<longleftrightarrow> v = - x y"
| "expr_value Unknown x v \<longleftrightarrow> True"

fun expr_const :: "oct_expr \<Rightarrow> int" where
  "expr_const (Constant c) = c"
| "expr_const (VarPlusConst y c) = c"
| "expr_const (VarMinusConst y c) = c"
| "expr_const _ = 0"

fun guard_holds :: "oct_guard \<Rightarrow> (usize \<Rightarrow> int) \<Rightarrow> bool" where
  "guard_holds (GtEq v c) x \<longleftrightarrow> c \<le> x v"
| "guard_holds (LtEq v c) x \<longleftrightarrow> x v \<le> c"
| "guard_holds (Gt v c) x \<longleftrightarrow> c < x v"
| "guard_holds (Lt v c) x \<longleftrightarrow> x v < c"
| "guard_holds (DiffLtEq v w c) x \<longleftrightarrow> x v - x w \<le> c"
| "guard_holds (SumLtEq v w c) x \<longleftrightarrow> x v + x w \<le> c"

fun guard_const :: "oct_guard \<Rightarrow> int" where
  "guard_const (GtEq x c) = c"
| "guard_const (LtEq x c) = c"
| "guard_const (Gt x c) = c"
| "guard_const (Lt x c) = c"
| "guard_const (DiffLtEq x y c) = c"
| "guard_const (SumLtEq x y c) = c"

fun guard_limit :: "oct_guard \<Rightarrow> int" where
  "guard_limit (GtEq x c) = - 2 * c"
| "guard_limit (LtEq x c) = 2 * c"
| "guard_limit (Gt x c) = - 2 * (c + 1)"
| "guard_limit (Lt x c) = 2 * (c - 1)"
| "guard_limit (DiffLtEq x y c) = c"
| "guard_limit (SumLtEq x y c) = c"

section \<open>What forgetting a variable does to the entries\<close>

lemma expr_vars_index: "2 * v < dim d \<longleftrightarrow> v < n_vars d" "2 * v + 1 < dim d \<longleftrightarrow> v < n_vars d"
  by (auto simp: dim_def)

lemma forget_entries_get:
  assumes wf: "wf_dbm d" and v: "v < n_vars d"
  shows "wf_dbm (forget_entries B v d)" and "dim (forget_entries B v d) = dim d"
    and "i < dim d \<Longrightarrow> j < dim d \<Longrightarrow> dbm_get (forget_entries B v d) i j =
      (if i \<noteq> j \<and> (i div 2 = v \<or> j div 2 = v) then b_infinity B else dbm_get d i j)"
proof -
  let ?n = "dim d" and ?inf = "b_infinity B" and ?pos = "2 * v" and ?neg = "2 * v + 1"
  define T where "T i j \<longleftrightarrow> i \<noteq> j \<and> (i div 2 = v \<or> j div 2 = v)" for i j :: nat
  define K where "K X e \<longleftrightarrow> (wf_dbm e \<and> dim e = ?n) \<and>
    (\<forall>i < ?n. \<forall>j < ?n. \<not> T i j \<longrightarrow> dbm_get e i j = dbm_get d i j) \<and>
    (\<forall>(i, j) \<in> X. i < ?n \<longrightarrow> j < ?n \<longrightarrow> dbm_get e i j = ?inf)" for X and e :: "'a dbm"
  have put: "K (insert (p, q) X) (dbm_set e p q ?inf)"
    if e: "K X e" and pq: "p < ?n" "q < ?n" "T p q" for X e p q
  proof -
    have get: "dbm_get (dbm_set e p q ?inf) i j = (if cell p q = cell i j then ?inf else dbm_get e i j)"
      if "i < ?n" "j < ?n" for i j
      using e pq that by (intro dbm_get_set) (auto simp: K_def)
    have "T i j" if "cell p q = cell i j" for i j
      using that pq(3) by (auto simp: cell_eq_iff T_def)
    then have "dbm_get (dbm_set e p q ?inf) i j = dbm_get d i j" if "i < ?n" "j < ?n" "\<not> T i j" for i j
      using get [OF that(1,2)] that e by (auto simp: K_def)
    moreover have "dbm_get (dbm_set e p q ?inf) i j = ?inf"
      if "(i, j) \<in> insert (p, q) X" "i < ?n" "j < ?n" for i j
      using get [OF that(2,3)] that e by (auto simp: K_def)
    ultimately show ?thesis using e by (auto simp: K_def)
  qed
  define put2 where "put2 p k e = (if k \<noteq> p then dbm_set (dbm_set e p k ?inf) k p ?inf else e)"
    for p k and e :: "'a dbm"
  have put2: "K (X \<union> {(p, k), (k, p)} - Id) (put2 p k e)"
    if "K X e" "p < ?n" "k < ?n" "p div 2 = v" for X p k e
  proof (cases "k = p")
    case False
    with that(4) have "T p k" "T k p" by (auto simp: T_def)
    then have "K (insert (k, p) (insert (p, k) X)) (put2 p k e)"
      using put [OF put [OF that(1-3)] that(3,2)] False by (simp add: put2_def)
    then show ?thesis by (auto simp: K_def)
  qed (use that in \<open>auto simp: put2_def K_def\<close>)
  let ?X = "\<lambda>k. {(i, j). T i j \<and> ((i div 2 = v \<and> j < k) \<or> (j div 2 = v \<and> i < k))}"
  have lt: "?pos < ?n" "?neg < ?n" using v by (auto simp: dim_def)
  have mono: "K X e" if "K Y e" "X \<subseteq> Y" for X Y e
    using that unfolding K_def by blast
  have half: "?pos div 2 = v" "?neg div 2 = v" by simp_all
  have T_irrefl: "\<not> T i i" for i by (simp add: T_def)
  have w: "w = ?pos \<or> w = ?neg" if "w div 2 = v" for w using that by presburger
  have sub: "?X (Suc k) \<subseteq> (?X k \<union> {(?pos, k), (k, ?pos)} - Id) \<union> {(?neg, k), (k, ?neg)} - Id" for k
  proof
    fix p assume "p \<in> ?X (Suc k)"
    then obtain i j where p: "p = (i, j)" "T i j" "(i div 2 = v \<and> j < Suc k) \<or> (j div 2 = v \<and> i < Suc k)"
      by blast
    then consider "p \<in> ?X k" | "i div 2 = v" "j = k" | "j div 2 = v" "i = k"
      by (auto elim!: less_SucE)
    then show "p \<in> (?X k \<union> {(?pos, k), (k, ?pos)} - Id) \<union> {(?neg, k), (k, ?neg)} - Id"
      by cases (use p T_irrefl w [of i] w [of j] in blast)+
  qed
  have "K (?X ?n) (for_range ?n (\<lambda>k e. put2 ?neg k (put2 ?pos k e)) d)"
  proof (rule for_range_counted [where P = "\<lambda>k. K (?X k)"])
    show "K (?X 0) d" using wf by (simp add: K_def)
    fix k e assume k: "k < ?n" and e: "K (?X k) e"
    show "K (?X (Suc k)) (put2 ?neg k (put2 ?pos k e))"
      by (rule mono [OF put2 [OF put2 [OF e lt(1) k half(1)] lt(2) k half(2)] sub])
  qed
  moreover have "forget_entries B v d = for_range ?n (\<lambda>k e. put2 ?neg k (put2 ?pos k e)) d"
    by (simp add: forget_entries_def put2_def Let_def)
  ultimately have K: "K (?X ?n) (forget_entries B v d)" by simp
  then show "wf_dbm (forget_entries B v d)" "dim (forget_entries B v d) = dim d"
    unfolding K_def by blast+
  show "dbm_get (forget_entries B v d) i j =
      (if i \<noteq> j \<and> (i div 2 = v \<or> j div 2 = v) then ?inf else dbm_get d i j)"
    if "i < dim d" "j < dim d"
  proof (cases "T i j")
    case True
    then have "(i, j) \<in> ?X ?n" using that unfolding T_def by blast
    with K that True show ?thesis unfolding K_def T_def by auto
  next
    case False
    with K that show ?thesis unfolding K_def T_def [symmetric] by auto
  qed
qed

section \<open>Soundness\<close>

text \<open>Constants whose doubles do not leave the range of the bound type.\<close>

definition small_const :: "(int \<Rightarrow> bool) \<Rightarrow> int \<Rightarrow> bool" where
  "small_const ok c \<longleftrightarrow> ok c \<and> ok (2 * c) \<and> ok (- (2 * c)) \<and> in_i64 (2 * c)"

definition small_guard :: "(int \<Rightarrow> bool) \<Rightarrow> int \<Rightarrow> bool" where
  "small_guard ok c \<longleftrightarrow>
     ok c \<and> in_i64 (c - 1) \<and> in_i64 (c + 1) \<and>
     (\<forall>k \<in> {2 * c, - 2 * c, 2 * (c - 1), - 2 * (c + 1)}. ok k \<and> in_i64 k)"

lemma lit_var [simp]: "lit (x(v := w)) (2 * v) = w" "lit (x(v := w)) (Suc (2 * v)) = - w"
  "y \<noteq> v \<Longrightarrow> lit (x(v := w)) (2 * y) = x y" "y \<noteq> v \<Longrightarrow> lit (x(v := w)) (Suc (2 * y)) = - x y"
  by simp_all

lemma lit_other: "i div 2 \<noteq> v \<Longrightarrow> lit (x(v := w)) i = lit x i"
  by (simp add: lit_def)

context sound_bound
begin

lemma set_models:
  assumes "wf_dbm d" and "i < dim d" and "j < dim d"
    and x: "oct_models admits d x" and v: "admits v (lit x j - lit x i)"
  shows "oct_models admits (dbm_set d i j v) x"
proof -
  have "holds_at x i' j' v" if "cell i j = cell i' j'" for i' j'
    using that v holds_complement [of x i j v] unfolding cell_eq_iff holds_at_def by metis
  then have "admits (dbm_get (dbm_set d i j v) i' j') (lit x j' - lit x i')"
    if "i' < dim d" "j' < dim d" for i' j'
    using that assms(1-3) oct_modelsD [OF x] by (simp add: dbm_get_set holds_at_def)
  then show ?thesis by (simp add: oct_models_def)
qed

lemma set_min_models:
  assumes wf: "wf_dbm d" and i: "i < dim d" and j: "j < dim d"
  shows "oct_models admits (dbm_set d i j (b_min B (dbm_get d i j) v)) x \<longleftrightarrow>
    oct_models admits d x \<and> admits v (lit x j - lit x i)"
    (is "oct_models admits ?e x \<longleftrightarrow> _")
proof
  assume e: "oct_models admits ?e x"
  have "admits (b_min B (dbm_get d i j) v) (lit x j - lit x i)"
    using oct_modelsD [OF e, of i j] assms by simp
  then have ij: "admits v (lit x j - lit x i)" by (simp add: admits_min)
  have "refines (dbm_get ?e i' j') (dbm_get d i' j')" if "i' < dim d" "j' < dim d" for i' j'
    using assms that dbm_get_cell [of i j i' j' d]
    by (auto simp: dbm_get_set refines_def admits_min)
  with oct_modelsD [OF e] ij show "oct_models admits d x \<and> admits v (lit x j - lit x i)"
    by (simp add: oct_models_def refines_def)
next
  assume "oct_models admits d x \<and> admits v (lit x j - lit x i)"
  then show "oct_models admits ?e x"
    using assms oct_modelsD [of admits d x i j] by (intro set_models) (auto simp: admits_min)
qed

lemma forget_entries_models:
  assumes wf: "wf_dbm d" and v: "v < n_vars d" and x: "oct_models admits d x"
  shows "oct_models admits (forget_entries B v d) (x(v := w))"
proof -
  have "admits (dbm_get (forget_entries B v d) i j) (lit (x(v := w)) j - lit (x(v := w)) i)"
    if ij: "i < dim d" "j < dim d" for i j
  proof (cases "i div 2 = v \<or> j div 2 = v")
    case True
    show ?thesis
    proof (cases "i = j")
      case eq: True
      then show ?thesis using forget_entries_get(3) [OF wf v ij] oct_modelsD [OF x ij] by simp
    next
      case False
      then show ?thesis using forget_entries_get(3) [OF wf v ij] True admits_infinity by simp
    qed
  next
    case False
    then show ?thesis
      using forget_entries_get(3) [OF wf v ij] oct_modelsD [OF x ij] by (simp add: lit_other)
  qed
  then show ?thesis by (simp add: oct_models_def forget_entries_get(2) [OF wf v])
qed

lemmas sets_model = set_models wf_dbm_set dim_simps expr_vars_index

lemma var_entry_less: "v < n_vars d \<Longrightarrow> 2 * v < dim d" "v < n_vars d \<Longrightarrow> Suc (2 * v) < dim d"
  by (simp_all add: dim_def)

lemma put_difference_models:
  assumes "wf_dbm d" and "v < n_vars d" and "y < n_vars d" and "oct_models admits d x"
    and "admits c (x v - x y)" and "admits c' (x y - x v)"
  shows "oct_models admits (put_difference d v y c c') x"
  unfolding put_difference_def Let_def
  using assms by (intro set_models) (simp_all add: var_entry_less)

lemma wf_put_difference [simp]:
  "wf_dbm d \<Longrightarrow> wf_dbm (put_difference d v y c c')" "n_vars (put_difference d v y c c') = n_vars d"
  by (simp_all add: put_difference_def Let_def)

lemma dim_put_difference [simp]: "dim (put_difference d v y c c') = dim d"
  by (simp add: put_difference_def Let_def)

lemma set_unary_models:
  assumes "wf_dbm d" and "v < n_vars d" and "oct_models admits d x"
  shows "admits u (2 * x v) \<Longrightarrow> oct_models admits (dbm_set d (2 * v + 1) (2 * v) u) x"
    and "admits u (- (2 * x v)) \<Longrightarrow> oct_models admits (dbm_set d (2 * v) (2 * v + 1) u) x"
  using assms by (auto intro!: set_models simp: var_entry_less)

lemma unary_entry:
  assumes "oct_models admits d x" and "y < n_vars d"
  shows "admits (dbm_get d (Suc (2 * y)) (2 * y)) (2 * x y)"
    and "admits (dbm_get d (2 * y) (Suc (2 * y))) (- (2 * x y))"
  using oct_modelsD [OF assms(1), of "2 * y + 1" "2 * y"]
    oct_modelsD [OF assms(1), of "2 * y" "2 * y + 1"] var_entry_less [OF assms(2)] by simp_all

lemma var_plus_models:
  assumes wf: "wf_dbm d" and v: "v < n_vars d" and y: "y < n_vars d" and x: "oct_models admits d x"
    and yv: "x v = x y + c" and oks: "ok (2 * x y)" "ok (- (2 * x y))" "ok (2 * c)" "ok (- (2 * c))"
    and up: "admits u (2 * c)" and low: "admits l (- (2 * c))"
    and c: "admits k c" and c': "admits k' (- c)" and ne: "y \<noteq> v"
  shows "oct_models admits
    (put_difference
      (let d1 = (if P then dbm_set d (2 * v + 1) (2 * v) (b_closure_add B (dbm_get d (2 * y + 1) (2 * y)) u)
                 else d)
       in if Q then dbm_set d1 (2 * v) (2 * v + 1) (b_closure_add B (dbm_get d (2 * y) (2 * y + 1)) l)
          else d1) v y k k') x"
proof -
  have up': "admits (b_closure_add B (dbm_get d (2 * y + 1) (2 * y)) u) (2 * x v)"
    using admits_closure_add [OF unary_entry(1) [OF x y] up oks(1,3)] yv by (simp add: algebra_simps)
  have low': "admits (b_closure_add B (dbm_get d (2 * y) (2 * y + 1)) l) (- (2 * x v))"
    using admits_closure_add [OF unary_entry(2) [OF x y] low oks(2,4)] yv by (simp add: algebra_simps)
  let ?d1 = "if P then dbm_set d (2 * v + 1) (2 * v) (b_closure_add B (dbm_get d (2 * y + 1) (2 * y)) u) else d"
  have d1: "oct_models admits ?d1 x" "wf_dbm ?d1" "n_vars ?d1 = n_vars d"
    using wf set_unary_models(1) [OF wf v x up'] x by simp_all
  have "oct_models admits (if Q then dbm_set ?d1 (2 * v) (2 * v + 1)
      (b_closure_add B (dbm_get d (2 * y) (2 * y + 1)) l) else ?d1) x"
    using set_unary_models(2) [OF d1(2) _ d1(1) low'] d1 v by simp
  then show ?thesis unfolding Let_def
    using d1 v y c c' yv by (intro put_difference_models) simp_all
qed

lemma unary_unchanged:
  assumes "wf_dbm d" and "v < n_vars d" and "y < n_vars d" and "y \<noteq> v"
  shows "dbm_get (dbm_set d (2 * v + 1) (2 * v) u) (2 * y) (2 * y + 1) = dbm_get d (2 * y) (2 * y + 1)"
    and "dbm_get (dbm_set d (2 * v + 1) (2 * v) u) (2 * y + 1) (2 * y) = dbm_get d (2 * y + 1) (2 * y)"
  using assms by (auto simp: dbm_get_set var_entry_less cell_eq_iff)

lemma unary_unchanged_if:
  assumes "wf_dbm d" and "v < n_vars d" and "y < n_vars d" and "y \<noteq> v"
  shows "dbm_get (if P then dbm_set d (2 * v + 1) (2 * v) u else d) (2 * y) (2 * y + 1) =
    dbm_get d (2 * y) (2 * y + 1)"
  using unary_unchanged [OF assms] by simp

lemma small_constD:
  assumes "small_const ok c"
  shows "ok c" "ok (2 * c)" "ok (- (2 * c))" "wrap_i64 (2 * c) = 2 * c"
  using assms by (simp_all add: small_const_def)

lemma small_env_double:
  assumes "small_env ok n x" and "y < n"
  shows "ok (2 * x y)" "ok (- (2 * x y))"
proof -
  have lt: "2 * y < 2 * n" "2 * y + 1 < 2 * n" using assms(2) by simp_all
  have "ok (lit x (2 * y) - lit x (2 * y + 1))" "ok (lit x (2 * y + 1) - lit x (2 * y))"
    using assms(1) lt unfolding small_env_def by blast+
  then show "ok (2 * x y)" "ok (- (2 * x y))" by simp_all
qed

lemma from_i64_self:
  assumes "ok c"
  shows "admits (b_from_i64 B c) c" "admits (b_neg B (b_from_i64 B c)) (- c)"
  using assms by (auto intro: admits_from_i64 admits_neg_from_i64)

lemma assign_expr_models:
  assumes wf: "wf_dbm d" and v: "v < n_vars d" and ys: "\<forall>y \<in> set (expr_vars e). y < n_vars d"
    and x: "oct_models admits d x" and e: "expr_value e x (x v)" and fresh: "v \<notin> set (expr_vars e)"
    and c: "small_const ok (expr_const e)" and small: "small_env ok (n_vars d) x"
  shows "oct_models admits (assign_expr B v e d) x"
proof (cases e)
  case (Constant c)
  with assms(5,7) have "x v = c" "small_const ok c" by simp_all
  then show ?thesis
    using Constant wf v x small_constD [of c] from_i64_self [of "2 * c"]
    by (auto simp: Let_def intro!: set_unary_models [simplified])
next
  case (Variable y)
  with e have "x v = x y" by simp
  with Variable ys fresh show ?thesis
    using wf v x unary_entry [OF x, of y] unary_unchanged [OF wf v, of y]
    by (auto simp: Let_def admits_zero intro!: put_difference_models set_unary_models [simplified])
next
  case (VarPlusConst y c)
  with assms(5,7) have xc: "x v = x y + c" and sc: "small_const ok c" by simp_all
  from VarPlusConst ys fresh have y: "y < n_vars d" "y \<noteq> v" by auto
  show ?thesis
    unfolding VarPlusConst assign_expr.simps Let_def unary_unchanged_if [OF wf v y] small_constD(4) [OF sc]
    by (rule var_plus_models [unfolded Let_def, OF wf v y(1) x xc small_env_double [OF small y(1)]
          small_constD(2,3) [OF sc] from_i64_self [OF small_constD(2) [OF sc]]
          from_i64_self [OF small_constD(1) [OF sc]] y(2)])
next
  case (VarMinusConst y c)
  with assms(5,7) have xc: "x v = x y + (- c)" and sc: "small_const ok c" by simp_all
  from VarMinusConst ys fresh have y: "y < n_vars d" "y \<noteq> v" by auto
  have oks: "ok (2 * - c)" "ok (- (2 * - c))" using small_constD [OF sc] by simp_all
  have b: "admits (b_neg B (b_from_i64 B (2 * c))) (2 * - c)" "admits (b_from_i64 B (2 * c)) (- (2 * - c))"
    "admits (b_neg B (b_from_i64 B c)) (- c)" "admits (b_from_i64 B c) (- (- c))"
    using from_i64_self [OF small_constD(2) [OF sc]] from_i64_self [OF small_constD(1) [OF sc]] by simp_all
  show ?thesis
    unfolding VarMinusConst assign_expr.simps Let_def unary_unchanged_if [OF wf v y] small_constD(4) [OF sc]
    by (rule var_plus_models [unfolded Let_def, OF wf v y(1) x xc small_env_double [OF small y(1)]
          oks b y(2)])
next
  case (NegVariable y)
  with e have xy: "x v = - x y" by simp
  from NegVariable ys fresh have y: "y < n_vars d" "y \<noteq> v" by auto
  let ?d1 = "dbm_set d (2 * v + 1) (2 * v) (dbm_get d (2 * y) (2 * y + 1))"
  let ?d2 = "dbm_set ?d1 (2 * v) (2 * v + 1) (dbm_get d (2 * y + 1) (2 * y))"
  have "oct_models admits ?d2 x"
    using wf v x unary_entry [OF x y(1)] xy by (auto intro!: set_unary_models [simplified])
  then show ?thesis
    using wf v y xy unary_unchanged [OF wf v y]
    by (auto simp: NegVariable Let_def admits_zero var_entry_less intro!: set_models)
next
  case Unknown
  with x show ?thesis by simp
qed

lemma expr_value_fresh: "v \<notin> set (expr_vars e) \<Longrightarrow> expr_value e (x(v := w)) u \<longleftrightarrow> expr_value e x u"
  by (cases e) auto

lemma assign_cases:
  assumes "assign B d v e = Some (r, d')" and wf: "wf_dbm d" and "v < n_vars d"
  obtains "r = Closed" and "d' = assign_expr B v e (forget_entries B v d)"
    and "\<forall>y \<in> set (expr_vars e). y < n_vars d" and "n_vars (forget_entries B v d) = n_vars d"
    and "wf_dbm (forget_entries B v d)"
proof -
  have n: "n_vars (forget_entries B v d) = n_vars d" "wf_dbm (forget_entries B v d)"
    using forget_entries_get(1,2) [OF wf assms(3), of B] by (simp_all add: dim_def)
  moreover have "dim d \<noteq> 0" using assms(3) by (simp add: dim_def)
  ultimately show ?thesis
    using assms(1,3) that by (cases "e = Unknown") (auto simp: assign_def forget_def list_ex_iff not_le split: if_splits)
qed

lemma assign_models:
  assumes "assign B d v e = Some (r, d')" and "wf_dbm d" and "v < n_vars d"
    and x: "oct_models admits d x" and e: "expr_value e x w" and fresh: "v \<notin> set (expr_vars e)"
    and "small_const ok (expr_const e)" and "small_env ok (n_vars d) (x(v := w))"
  shows "r = Closed \<and> oct_models admits d' (x(v := w))"
proof (rule assign_cases [OF assms(1-3)])
  assume r: "r = Closed" and d': "d' = assign_expr B v e (forget_entries B v d)"
    and ys: "\<forall>y \<in> set (expr_vars e). y < n_vars d" and n: "n_vars (forget_entries B v d) = n_vars d"
    and wf: "wf_dbm (forget_entries B v d)"
  have "expr_value e (x(v := w)) ((x(v := w)) v)" using e fresh by (simp add: expr_value_fresh)
  then have "oct_models admits d' (x(v := w))"
    unfolding d' using assms(3,7,8) ys n forget_entries_models [OF assms(2,3) x] fresh
    by (intro assign_expr_models [OF wf]) simp_all
  with r show ?thesis by simp
qed

lemma put_difference_get:
  assumes "wf_dbm d" and "v < n_vars d" and "y < n_vars d" and "y \<noteq> v"
  shows "dbm_get (put_difference d v y c c') (2 * y) (2 * v) = c"
    and "dbm_get (put_difference d v y c c') (2 * v) (2 * y) = c'"
  using assms by (auto simp: put_difference_def Let_def dbm_get_set var_entry_less cell_eq_iff)

lemma put_difference_value:
  assumes "wf_dbm d" and "v < n_vars d" and "y < n_vars d" and "y \<noteq> v"
    and "oct_models admits (put_difference d v y c c') x"
    and "\<And>t. admits c t \<Longrightarrow> t \<le> k" and "\<And>t. admits c' t \<Longrightarrow> t \<le> - k"
  shows "x v = x y + k"
proof -
  have "x v - x y \<le> k" "x y - x v \<le> - k"
    using assms(6,7) oct_modelsD [OF assms(5)] put_difference_get [OF assms(1-4)] assms(1-3)
    by (metis lit_simps(1) dim_put_difference var_entry_less(1))+
  then show ?thesis by simp
qed

lemma admits_from_i64_iff: "ok c \<Longrightarrow> admits (b_from_i64 B c) t \<longleftrightarrow> t \<le> c"
  using admits_from_i64 from_i64_exact by blast

lemma admits_neg_from_i64_iff: "ok c \<Longrightarrow> admits (b_neg B (b_from_i64 B c)) t \<longleftrightarrow> t \<le> - c"
  using admits_neg_from_i64 neg_from_i64_exact by blast

lemma assign_expr_value:
  assumes wf: "wf_dbm d" and v: "v < n_vars d" and ys: "\<forall>y \<in> set (expr_vars e). y < n_vars d"
    and fresh: "v \<notin> set (expr_vars e)" and sc: "small_const ok (expr_const e)"
    and x: "oct_models admits (assign_expr B v e d) x"
  shows "expr_value e x (x v)"
proof (cases e)
  case (Constant c)
  let ?e = "assign_expr B v (Constant c) d"
  have two: "ok (2 * c)" "wrap_i64 (2 * c) = 2 * c" using sc Constant by (simp_all add: small_const_def)
  have "dbm_get ?e (Suc (2 * v)) (2 * v) = b_from_i64 B (2 * c)"
    "dbm_get ?e (2 * v) (Suc (2 * v)) = b_neg B (b_from_i64 B (2 * c))"
    using wf v two by (auto simp: Let_def dbm_get_set var_entry_less cell_eq_iff)
  moreover have "admits (dbm_get ?e (Suc (2 * v)) (2 * v)) (2 * x v)"
    "admits (dbm_get ?e (2 * v) (Suc (2 * v))) (- (2 * x v))"
    by (rule unary_entry; use x v in \<open>simp add: Constant Let_def\<close>)+
  ultimately show ?thesis
    using two by (simp add: Constant admits_from_i64_iff admits_neg_from_i64_iff)
next
  case (Variable y)
  with ys fresh have y: "y < n_vars d" "y \<noteq> v" by auto
  show ?thesis
    using put_difference_value [OF _ _ _ y(2) x [unfolded Variable assign_expr.simps Let_def], of 0]
      wf v y by (simp add: Variable admits_zero)
next
  case (VarPlusConst y c)
  with ys fresh have y: "y < n_vars d" "y \<noteq> v" by auto
  have "ok c" using sc VarPlusConst by (simp add: small_const_def)
  then show ?thesis
    using put_difference_value [OF _ _ _ y(2) x [unfolded VarPlusConst assign_expr.simps Let_def], of c]
      wf v y by (simp add: VarPlusConst admits_from_i64_iff admits_neg_from_i64_iff)
next
  case (VarMinusConst y c)
  with ys fresh have y: "y < n_vars d" "y \<noteq> v" by auto
  have "ok c" using sc VarMinusConst by (simp add: small_const_def)
  then show ?thesis
    using put_difference_value [OF _ _ _ y(2) x [unfolded VarMinusConst assign_expr.simps Let_def], of "- c"]
      wf v y by (simp add: VarMinusConst admits_from_i64_iff admits_neg_from_i64_iff)
next
  case (NegVariable y)
  with ys fresh have y: "y < n_vars d" "y \<noteq> v" by auto
  let ?e = "assign_expr B v (NegVariable y) d"
  have dim: "dim ?e = dim d" by (simp add: Let_def)
  have "dbm_get ?e (Suc (2 * y)) (2 * v) = b_zero B" "dbm_get ?e (2 * v) (Suc (2 * y)) = b_zero B"
    using wf v y by (auto simp: Let_def dbm_get_set var_entry_less cell_eq_iff)
  then have "x v + x y \<le> 0" "- x y - x v \<le> 0"
    using oct_modelsD [OF x [unfolded NegVariable], unfolded dim, of "2 * v" "Suc (2 * y)"]
      oct_modelsD [OF x [unfolded NegVariable], unfolded dim, of "Suc (2 * y)" "2 * v"] v y
    by (simp_all add: admits_zero var_entry_less)
  then show ?thesis by (simp add: NegVariable)
qed simp

lemma assign_value:
  assumes "assign B d v e = Some (r, d')" and "wf_dbm d" and "v < n_vars d"
    and "v \<notin> set (expr_vars e)" and "small_const ok (expr_const e)" and x: "oct_models admits d' x"
  shows "expr_value e x (x v)"
proof (rule assign_cases [OF assms(1-3)])
  assume d': "d' = assign_expr B v e (forget_entries B v d)"
    and "\<forall>y \<in> set (expr_vars e). y < n_vars d" "n_vars (forget_entries B v d) = n_vars d"
    and wf: "wf_dbm (forget_entries B v d)"
  then show ?thesis
    using assms(3-5) x by (intro assign_expr_value [OF wf]) simp_all
qed

lemma guard_entry_limit:
  assumes "small_guard ok (guard_const g)" and "guard_entry g = (i, j, c)"
  shows "c = guard_limit g" "ok (guard_limit g)"
proof -
  have "ok c \<and> c = guard_limit g"
  proof (cases g)
    case (Gt v k)
    with assms(1) have "wrap_i64 (k + 1) = k + 1" "wrap_i64 (- 2 * (k + 1)) = - 2 * (k + 1)"
      "ok (- 2 * (k + 1))"
      unfolding small_guard_def by (auto intro: wrap_i64_id)
    with assms(2) Gt show ?thesis by (metis guard_entry.simps(3) guard_limit.simps(3) prod.inject)
  next
    case (Lt v k)
    with assms(1) have "wrap_i64 (k - 1) = k - 1" "wrap_i64 (2 * (k - 1)) = 2 * (k - 1)"
      "ok (2 * (k - 1))"
      unfolding small_guard_def by (auto intro: wrap_i64_id)
    with assms(2) Lt show ?thesis by (metis guard_entry.simps(4) guard_limit.simps(4) prod.inject)
  qed (use assms in \<open>auto simp: small_guard_def\<close>)
  then show "c = guard_limit g" "ok (guard_limit g)" by blast+
qed

lemma guard_limit_holds:
  "guard_entry g = (i, j, c) \<Longrightarrow> lit x j - lit x i \<le> guard_limit g \<longleftrightarrow> guard_holds g x"
  by (cases g) auto

lemma guard_entry_exact:
  assumes "small_guard ok (guard_const g)" and "guard_entry g = (i, j, c)"
  shows "admits (b_from_i64 B c) (lit x j - lit x i) \<longleftrightarrow> guard_holds g x"
  using guard_entry_limit [OF assms] guard_limit_holds [OF assms(2)] by (simp add: admits_from_i64_iff)

lemma guard_exact:
  assumes wf: "wf_dbm d" and g: "small_guard ok (guard_const g)" and r: "guard B d g = Some (r, d')"
  shows "oct_models admits d' x \<longleftrightarrow> oct_models admits d x \<and> guard_holds g x"
    and "r = Empty \<Longrightarrow> \<not> (oct_models admits d x \<and> guard_holds g x)"
    and "wf_dbm d'" "n_vars d' = n_vars d"
proof -
  obtain i j c where e: "guard_entry g = (i, j, c)" by (cases "guard_entry g")
  let ?d = "dbm_set d i j (b_min B (dbm_get d i j) (b_from_i64 B c))"
  from r e have ij: "i < dim d" "j < dim d" and d': "d' = ?d"
    and empty: "r = Empty \<Longrightarrow> list_ex (\<lambda>i. b_lt B (dbm_get ?d i i) (b_zero B)) [0..<dim d]"
    by (auto simp: guard_def Let_def split: if_splits)
  show models: "oct_models admits d' x \<longleftrightarrow> oct_models admits d x \<and> guard_holds g x"
    unfolding d' set_min_models [OF wf ij] guard_entry_exact [OF g e] ..
  show "\<not> (oct_models admits d x \<and> guard_holds g x)" if "r = Empty"
    using bottom_no_models [of ?d] empty [OF that] models d' by (simp add: is_bottom_def)
  show "wf_dbm d'" "n_vars d' = n_vars d" using wf d' by simp_all
qed

end

end
