(* ===== verification/Octagon_Pack.thy ===== *)
theory Octagon_Pack
  imports Octagon_Transfer
begin

text \<open>
  \<open>dataflow/octagon/pack.rs\<close>: the variable pack (a matrix together with the two maps between
  variable names and indices), the overflow map of variables that did not fit, and the interval of a
  variable; and the interval join and widening of \<open>dataflow/octagon/mod.rs\<close>.
\<close>

section \<open>The pack\<close>

record 'b pack =
  pack_dbm :: "'b dbm"
  var_to_idx :: "string \<rightharpoonup> usize"
  idx_to_var :: "string list"
  pack_limit :: usize

definition default_pack_limit :: usize where
  "default_pack_limit = 64"

definition pack_new :: "'b bound_ops \<Rightarrow> usize \<Rightarrow> 'b pack" where
  "pack_new B limit = \<lparr>pack_dbm = dbm_new B 0, var_to_idx = Map.empty, idx_to_var = [], pack_limit = limit\<rparr>"

definition with_default_limit :: "'b bound_ops \<Rightarrow> 'b pack" where
  "with_default_limit B = pack_new B default_pack_limit"

definition add_var :: "'b bound_ops \<Rightarrow> string \<Rightarrow> 'b pack \<Rightarrow> usize option \<times> 'b pack" where
  "add_var B name p =
     (case var_to_idx p name of
        Some idx \<Rightarrow> (Some idx, p)
      | None \<Rightarrow>
          if pack_limit p \<le> length (idx_to_var p) then (None, p)
          else
            (let idx = length (idx_to_var p);
                 names = idx_to_var p @ [name];
                 old_dbm = pack_dbm p;
                 new_dbm = dbm_fill (dbm_get old_dbm) (dim old_dbm) (dbm_new B (length names))
             in (Some idx, p\<lparr>var_to_idx := (var_to_idx p)(name \<mapsto> idx), idx_to_var := names,
                   pack_dbm := new_dbm\<rparr>)))"

definition var_index :: "'b pack \<Rightarrow> string \<Rightarrow> usize option" where
  "var_index p name = var_to_idx p name"

definition var_name :: "'b pack \<Rightarrow> usize \<Rightarrow> string option" where
  "var_name p idx = (if idx < length (idx_to_var p) then Some (idx_to_var p ! idx) else None)"

definition pack_len :: "'b pack \<Rightarrow> usize" where
  "pack_len p = length (idx_to_var p)"

definition pack_is_empty :: "'b pack \<Rightarrow> bool" where
  "pack_is_empty p \<longleftrightarrow> idx_to_var p = []"

definition is_full :: "'b pack \<Rightarrow> bool" where
  "is_full p \<longleftrightarrow> pack_limit p \<le> length (idx_to_var p)"

text \<open>The two maps are inverse to each other, the matrix has a row pair per name, the limit holds.\<close>

definition wf_pack :: "'b pack \<Rightarrow> bool" where
  "wf_pack p \<longleftrightarrow> wf_dbm (pack_dbm p) \<and> n_vars (pack_dbm p) = length (idx_to_var p) \<and>
     length (idx_to_var p) \<le> pack_limit p \<and>
     (\<forall>s i. var_to_idx p s = Some i \<longleftrightarrow> i < length (idx_to_var p) \<and> idx_to_var p ! i = s)"

section \<open>Intervals and the hybrid state\<close>

record interval_value =
  iv_low :: "i64 option"
  iv_high :: "i64 option"

definition iv_top :: interval_value where
  "iv_top = \<lparr>iv_low = None, iv_high = None\<rparr>"

definition iv_exact :: "i64 \<Rightarrow> interval_value" where
  "iv_exact v = \<lparr>iv_low = Some v, iv_high = Some v\<rparr>"

record 'b hybrid_state =
  hs_pack :: "'b pack"
  hs_overflow :: "string \<rightharpoonup> interval_value"

definition hybrid_with_limit :: "'b bound_ops \<Rightarrow> usize \<Rightarrow> 'b hybrid_state" where
  "hybrid_with_limit B limit = \<lparr>hs_pack = pack_new B limit, hs_overflow = Map.empty\<rparr>"

definition hybrid_new :: "'b bound_ops \<Rightarrow> 'b hybrid_state" where
  "hybrid_new B = \<lparr>hs_pack = with_default_limit B, hs_overflow = Map.empty\<rparr>"

text \<open>
  \<open>to_f64\<close> is the conversion of a bound to a float, \<open>as_i64\<close> the cast back. The projection of a
  well-formed pack never panics, so its result is read with \<open>the\<close>.
\<close>

definition get_interval ::
  "'b bound_ops \<Rightarrow> ('b \<Rightarrow> 'f) \<Rightarrow> ('f \<Rightarrow> i64) \<Rightarrow> 'b hybrid_state \<Rightarrow> string \<Rightarrow> interval_value option" where
  "get_interval B to_f64 as_i64 s name =
     (case var_index (hs_pack s) name of
        Some idx \<Rightarrow>
          (case project_interval B to_f64 (pack_dbm (hs_pack s)) idx of
             None \<Rightarrow> None
           | Some (lo, hi) \<Rightarrow> Some \<lparr>iv_low = map_option as_i64 lo, iv_high = map_option as_i64 hi\<rparr>)
      | None \<Rightarrow> Some (case hs_overflow s name of Some iv \<Rightarrow> iv | None \<Rightarrow> iv_top))"

definition join_intervals :: "interval_value \<Rightarrow> interval_value \<Rightarrow> interval_value" where
  "join_intervals a b =
     \<lparr>iv_low = (case (iv_low a, iv_low b) of (Some la, Some lb) \<Rightarrow> Some (min la lb) | _ \<Rightarrow> None),
      iv_high = (case (iv_high a, iv_high b) of (Some ha, Some hb) \<Rightarrow> Some (max ha hb) | _ \<Rightarrow> None)\<rparr>"

definition widen_intervals :: "interval_value \<Rightarrow> interval_value \<Rightarrow> interval_value" where
  "widen_intervals old new =
     \<lparr>iv_low = (case (iv_low old, iv_low new) of
         (Some lo, Some ln) \<Rightarrow> if ln < lo then None else Some ln
       | (Some _, None) \<Rightarrow> None
       | (None, new_lo) \<Rightarrow> new_lo),
      iv_high = (case (iv_high old, iv_high new) of
         (Some ho, Some hn) \<Rightarrow> if ho < hn then None else Some hn
       | (Some _, None) \<Rightarrow> None
       | (None, new_hi) \<Rightarrow> new_hi)\<rparr>"

text \<open>The integers an interval admits.\<close>

definition in_interval :: "interval_value \<Rightarrow> int \<Rightarrow> bool" where
  "in_interval iv v \<longleftrightarrow>
     (case iv_low iv of None \<Rightarrow> True | Some l \<Rightarrow> l \<le> v) \<and>
     (case iv_high iv of None \<Rightarrow> True | Some h \<Rightarrow> v \<le> h)"

section \<open>Adding a variable\<close>

lemma grow_get:
  assumes wf: "wf_dbm d" and n: "n_vars d \<le> n" and i: "i < 2 * n" and j: "j < 2 * n"
  shows "dbm_get (dbm_fill (dbm_get d) (dim d) (dbm_new B n)) i j =
    (if i < dim d \<and> j < dim d then dbm_get d i j
     else if i = j then b_zero B else b_infinity B)"
proof (cases "i < dim d \<and> j < dim d")
  case True
  then show ?thesis using n by (simp add: dbm_fill_coherent dim_def)
next
  case False
  have "i < dim d \<and> j < dim d \<or>
      dbm_get (dbm_fill (dbm_get d) (dim d) (dbm_new B n)) i j = (if i = j then b_zero B else b_infinity B)"
  proof (rule dbm_fill_pred [where P = "\<lambda>i j v. i < dim d \<and> j < dim d \<or>
        v = (if i = j then b_zero B else b_infinity B)"])
    show "wf_dbm (dbm_new B n)" "dim d \<le> dim (dbm_new B n)" "i < dim (dbm_new B n)" "j < dim (dbm_new B n)"
      using n i j by (simp_all add: dim_def)
  qed (auto simp: dbm_get_new)
  with False show ?thesis by auto
qed

lemma add_var_cases:
  obtains (known) idx where "var_to_idx p s = Some idx" "add_var B s p = (Some idx, p)"
  | (full) "var_to_idx p s = None" "pack_limit p \<le> length (idx_to_var p)" "add_var B s p = (None, p)"
  | (added) "var_to_idx p s = None" "length (idx_to_var p) < pack_limit p"
      "add_var B s p = (Some (length (idx_to_var p)),
         p\<lparr>var_to_idx := (var_to_idx p)(s \<mapsto> length (idx_to_var p)), idx_to_var := idx_to_var p @ [s],
           pack_dbm := dbm_fill (dbm_get (pack_dbm p)) (dim (pack_dbm p))
             (dbm_new B (Suc (length (idx_to_var p))))\<rparr>)"
  by (cases "var_to_idx p s"; cases "pack_limit p \<le> length (idx_to_var p)")
    (auto simp: add_var_def Let_def)

lemma wf_pack_new [simp]: "wf_pack (pack_new B limit)"
  by (simp add: wf_pack_def pack_new_def)

lemma add_var_wf: "wf_pack p \<Longrightarrow> wf_pack (snd (add_var B s p))"
proof -
  assume wf: "wf_pack p"
  show ?thesis
  proof (cases rule: add_var_cases [of p s B])
    case added
    let ?n = "length (idx_to_var p)"
    have names: "var_to_idx p t = Some i \<longleftrightarrow> i < ?n \<and> idx_to_var p ! i = t" for t i
      using wf by (auto simp: wf_pack_def)
    have "((var_to_idx p)(s \<mapsto> ?n)) t = Some i \<longleftrightarrow> i < Suc ?n \<and> (idx_to_var p @ [s]) ! i = t" for t i
      using names [of t i] names [of s i] added(1) by (auto simp: nth_append less_Suc_eq)
    with wf added show ?thesis by (simp add: wf_pack_def)
  qed (use wf in simp_all)
qed

lemma add_var_index:
  assumes wf: "wf_pack p"
  shows "fst (add_var B s p) = var_index (snd (add_var B s p)) s"
    and "fst (add_var B s p) = None \<longleftrightarrow> var_index p s = None \<and> is_full p"
    and "var_index p t = Some i \<Longrightarrow> var_index (snd (add_var B s p)) t = Some i"
  by (cases rule: add_var_cases [of p s B]; auto simp: var_index_def is_full_def)+

lemma var_name_index: "wf_pack p \<Longrightarrow> var_index p s = Some i \<longleftrightarrow> var_name p i = Some s"
  by (auto simp: wf_pack_def var_index_def var_name_def)

context sound_bound
begin

lemma add_var_models:
  assumes wf: "wf_pack p"
  shows "oct_models admits (pack_dbm (snd (add_var B s p))) x \<longleftrightarrow> oct_models admits (pack_dbm p) x"
proof (cases rule: add_var_cases [of p s B])
  case added
  let ?d = "pack_dbm p" and ?n = "Suc (length (idx_to_var p))"
  have n: "n_vars ?d \<le> ?n" "wf_dbm ?d" using wf by (simp_all add: wf_pack_def)
  then have "dim ?d \<le> 2 * ?n" unfolding dim_def by simp
  let ?e = "dbm_fill (dbm_get ?d) (dim ?d) (dbm_new B ?n)"
  have dims: "dim ?e = 2 * ?n" "dim ?d \<le> 2 * ?n" using \<open>dim ?d \<le> 2 * ?n\<close> by simp_all
  have new: "admits (dbm_get ?e i j) (lit x j - lit x i)"
    if "i < 2 * ?n" "j < 2 * ?n" "\<not> (i < dim ?d \<and> j < dim ?d)" for i j
    using grow_get [OF n(2,1) that(1,2), where B = B] that(3) admits_zero admits_infinity by simp
  have old: "dbm_get ?e i j = dbm_get ?d i j" if "i < dim ?d" "j < dim ?d" for i j
    using grow_get [OF n(2,1), of i j B] that dims(2) by simp
  have "oct_models admits ?e x \<longleftrightarrow> oct_models admits ?d x"
  proof
    assume e: "oct_models admits ?e x"
    have "admits (dbm_get ?d i j) (lit x j - lit x i)" if ij: "i < dim ?d" "j < dim ?d" for i j
      using oct_modelsD [OF e, of i j] ij dims old [OF ij] by simp
    then show "oct_models admits ?d x" by (simp add: oct_models_def)
  next
    assume d: "oct_models admits ?d x"
    have "admits (dbm_get ?e i j) (lit x j - lit x i)" if ij: "i < 2 * ?n" "j < 2 * ?n" for i j
    proof (cases "i < dim ?d \<and> j < dim ?d")
      case True
      with oct_modelsD [OF d, of i j] old [of i j] show ?thesis by simp
    qed (rule new [OF ij])
    then show "oct_models admits ?e x" unfolding oct_models_def dims(1) by blast
  qed
  then show ?thesis by (simp add: added(3))
qed simp_all

end

section \<open>Intervals\<close>

lemma join_intervals_upper:
  "in_interval a v \<or> in_interval b v \<Longrightarrow> in_interval (join_intervals a b) v"
  by (auto simp: in_interval_def join_intervals_def split: option.splits)

lemma widen_intervals_upper: "in_interval new v \<Longrightarrow> in_interval (widen_intervals old new) v"
  by (auto simp: in_interval_def widen_intervals_def split: option.splits if_splits)

lemma project_interval_sound:
  assumes wf: "wf_dbm d" and v: "v < n_vars d" and x: "oct_models i64_admits d x"
    and range: "\<forall>i < dim d. \<forall>j < dim d. dbm_get d i j = i64_max \<or> \<bar>dbm_get d i j\<bar> \<le> 9007199254740992"
    and conv: "\<forall>c. \<bar>c\<bar> \<le> 9007199254740992 \<longrightarrow> as_i64 (to_f64 c) = c"
    and r: "project_interval i64_bound to_f64 d v = Some (lo, hi)"
  shows "in_interval \<lparr>iv_low = map_option as_i64 lo, iv_high = map_option as_i64 hi\<rparr> (x v)"
proof -
  let ?u = "dbm_get d (2 * v + 1) (2 * v)" and ?l = "dbm_get d (2 * v) (2 * v + 1)"
  have dims: "2 * v < dim d" "2 * v + 1 < dim d" using v by (simp_all add: dim_def)
  have small: "?u = i64_max \<or> \<bar>?u\<bar> \<le> 9007199254740992" "?l = i64_max \<or> \<bar>?l\<bar> \<le> 9007199254740992"
    using range dims by blast+
  have adm: "i64_admits ?u (2 * x v)" "i64_admits ?l (- (2 * x v))"
    using i64.unary_entry [OF x v] by simp_all
  have half: "as_i64 (to_f64 (i64_half c)) = c div 2" if "\<bar>c\<bar> \<le> 9007199254740992" for c
  proof -
    have "i64_half c = c div 2" using that by (intro i64_half_floor) (auto simp: i64_simps)
    moreover have "\<bar>c div 2\<bar> \<le> 9007199254740992" using that by linarith
    ultimately show ?thesis using conv by simp
  qed
  have hi: "case map_option as_i64 hi of None \<Rightarrow> True | Some h \<Rightarrow> x v \<le> h"
  proof (cases "?u = i64_max")
    case False
    with small adm half [of ?u] have "hi = Some (to_f64 (i64_half ?u))" "x v \<le> as_i64 (to_f64 (i64_half ?u))"
      using r by (auto simp: project_interval_def Let_def i64_admits_def i64_max_def split: if_splits)
    then show ?thesis by simp
  qed (use r in \<open>auto simp: project_interval_def Let_def split: if_splits\<close>)
  have lo: "case map_option as_i64 lo of None \<Rightarrow> True | Some h \<Rightarrow> h \<le> x v"
  proof (cases "?l = i64_max")
    case False
    with small have "\<bar>?l\<bar> \<le> 9007199254740992" by simp
    moreover from this have "i64_neg ?l = - ?l" by (auto simp: i64_neg_def i64_simps)
    moreover have "- ?l div 2 \<le> x v" using adm(2) False small(2) by (auto simp: i64_admits_def i64_max_def)
    ultimately have "lo = Some (to_f64 (i64_half (- ?l)))" "as_i64 (to_f64 (i64_half (- ?l))) \<le> x v"
      using r half [of "- ?l"] False by (auto simp: project_interval_def Let_def split: if_splits)
    then show ?thesis by simp
  qed (use r in \<open>auto simp: project_interval_def Let_def split: if_splits\<close>)
  from lo hi show ?thesis by (simp add: in_interval_def)
qed

end
