(* ===== verification/Octagon_Properties.thy ===== *)
theory Octagon_Properties
  imports Octagon_Pack
begin

text \<open>
  The properties of the octagon domain over the 64-bit bounds. A matrix \<open>d\<close> stands for the integer
  environments \<open>x\<close> with \<open>oct_models i64_admits d x\<close>; \<open>small_env\<close> restricts a claim to the
  environments whose differences stay below 2 to the 61, where the saturating arithmetic is exact.
\<close>

section \<open>Sample environments for the witnesses\<close>

lemma small_env_const: "\<bar>c\<bar> \<le> 1000 \<Longrightarrow> small_env i64_ok n (\<lambda>_. c)"
  by (auto simp: small_env_def i64_ok_def lit_def)

lemma models_new: "oct_models i64_admits (dbm_new i64_bound n) x"
proof (unfold oct_models_def, intro allI impI)
  fix i j assume "i < dim (dbm_new i64_bound n)" "j < dim (dbm_new i64_bound n)"
  then show "i64_admits (dbm_get (dbm_new i64_bound n) i j) (lit x j - lit x i)"
    by (simp add: dbm_get_new i64_admits_def)
qed

lemma some_pair:
  assumes "\<not> Option.is_none z"
  obtains a b where "z = Some (a, b)"
  using assms by (cases z) auto

section \<open>The matrix\<close>

text \<open>
  writing the entry (i, j) of a matrix changes exactly the entries that share its storage cell:
  itself and, outside the two-by-two blocks, its coherent partner (j bar, i bar).
\<close>

theorem dbm_read_after_write:
  assumes "wf_dbm d" and "i < dim d" "j < dim d" "i' < dim d" "j' < dim d"
  shows "dbm_get (dbm_set d i j v) i' j' =
    (if (i', j') = (i, j) \<or> (i div 2 \<noteq> j div 2 \<and> (i', j') = (complement j, complement i))
     then v else dbm_get d i' j')"
  using assms by (auto simp: dbm_get_set cell_eq_iff)

lemma dbm_read_after_write_witness:
  "dbm_get (dbm_set (dbm_new i64_bound 2) 0 2 (7::i64)) 3 1 = 7"
  using dbm_read_after_write [of "dbm_new i64_bound 2" 0 2 3 1 7] by (simp add: complement_def)

section \<open>Closure\<close>

text \<open>
  C1: strong closure keeps the set of environments a matrix stands for, and answers \<open>Empty\<close> only
  when there is none.
\<close>

theorem strong_closure_exact:
  assumes "wf_dbm d" and "small_env i64_ok (n_vars d) x"
  shows "(oct_models i64_admits (snd (strong_closure i64_bound d)) x \<longleftrightarrow> oct_models i64_admits d x) \<and>
    (fst (strong_closure i64_bound d) = Empty \<longrightarrow> \<not> oct_models i64_admits d x)"
  using i64.strong_closure_keeps_models [OF assms] by blast

lemma strong_closure_exact_witness:
  "oct_models i64_admits (snd (strong_closure i64_bound (dbm_new i64_bound 2))) (\<lambda>_. 3)"
  using strong_closure_exact [of "dbm_new i64_bound 2" "\<lambda>_. 3"] models_new small_env_const by simp

text \<open>
  C4: the incremental closure adds exactly one constraint: on success the result stands for the
  environments of the matrix that satisfy the new constraint, and \<open>Empty\<close> means there is none.
\<close>

theorem incremental_closure_exact:
  assumes wf: "wf_dbm d" and small: "small_env i64_ok (n_vars d) x"
    and r: "incremental_closure i64_bound d a b c = Some (r, e)"
  shows "oct_models i64_admits d x \<and> i64_admits c (lit x b - lit x a) \<longleftrightarrow>
    r = Closed \<and> oct_models i64_admits e x"
proof
  assume "oct_models i64_admits d x \<and> i64_admits c (lit x b - lit x a)"
  then show "r = Closed \<and> oct_models i64_admits e x"
    using i64.incremental_closure_models [OF wf small _ _ r] by blast
next
  assume "r = Closed \<and> oct_models i64_admits e x"
  then show "oct_models i64_admits d x \<and> i64_admits c (lit x b - lit x a)"
    using i64.incremental_closure_tightens [OF wf] r by blast
qed

lemma incremental_closure_exact_witness:
  "\<exists>r e. incremental_closure i64_bound (dbm_new i64_bound 1) 1 0 8 = Some (r, e) \<and>
     r = Closed \<and> oct_models i64_admits e (\<lambda>_. 3)"
proof -
  have "\<not> Option.is_none (incremental_closure i64_bound (dbm_new i64_bound 1) 1 0 8)" by code_simp
  then obtain r e where r: "incremental_closure i64_bound (dbm_new i64_bound 1) 1 0 8 = Some (r, e)"
    by (rule some_pair)
  with incremental_closure_exact [OF wf_dbm_new _ r, of "\<lambda>_. 3"] models_new small_env_const show ?thesis
    by (auto simp: lit_def i64_admits_def)
qed

text \<open>
  tight closure keeps every integer environment of the matrix.\<close>

theorem tight_closure_sound:
  assumes "wf_dbm d" and "oct_models i64_admits d x"
  shows "oct_models i64_admits (snd (tight_closure i64_bound d)) x"
  by (rule i64.tight_closure_models [OF assms])

lemma tight_closure_sound_witness:
  "oct_models i64_admits (snd (tight_closure i64_bound (dbm_new i64_bound 2))) (\<lambda>_. 3)"
  using tight_closure_sound [OF wf_dbm_new models_new] .


section \<open>Lattice operations\<close>

text \<open>
  the join stands for at least the environments of both arguments.\<close>

theorem join_upper_bound:
  assumes "join i64_bound a b = Some r" and "oct_models i64_admits a x \<or> oct_models i64_admits b x"
  shows "oct_models i64_admits r x"
  by (rule i64.join_models [OF assms])

lemma join_upper_bound_witness:
  "oct_models i64_admits (the (join i64_bound (dbm_new i64_bound 1) (dbm_new i64_bound 1))) (\<lambda>_. 3)"
  using join_upper_bound [of "dbm_new i64_bound 1" "dbm_new i64_bound 1" _ "\<lambda>_. 3"] models_new
  by (simp add: join_def)

text \<open>
  the meet stands for exactly the environments of both arguments, and is \<open>None\<close> only when there
  is none.
\<close>

theorem meet_exact:
  assumes "n_vars a = n_vars b" and "small_env i64_ok (n_vars a) x"
  shows "(case meet i64_bound a b of Some r \<Rightarrow> oct_models i64_admits r x | None \<Rightarrow> False) \<longleftrightarrow>
    oct_models i64_admits a x \<and> oct_models i64_admits b x"
  by (rule i64.meet_models [OF assms])

lemma meet_exact_witness:
  "case meet i64_bound (dbm_new i64_bound 1) (dbm_new i64_bound 1) of
     Some r \<Rightarrow> oct_models i64_admits r (\<lambda>_. 3) | None \<Rightarrow> False"
  using meet_exact [of "dbm_new i64_bound 1" "dbm_new i64_bound 1" "\<lambda>_. 3"] models_new small_env_const
  by simp

text \<open>
  both widenings stand for at least the environments of the new element, whatever the
  thresholds.
\<close>

theorem widening_upper_bound:
  assumes "n_vars new = n_vars old" and "oct_models i64_admits new x"
  shows "(\<exists>r. widen i64_bound old new = Some r \<and> oct_models i64_admits r x) \<and>
    (\<exists>r. widen_with_thresholds i64_bound old new ts = Some r \<and> oct_models i64_admits r x)"
proof
  obtain r where r: "widen i64_bound old new = Some r" using assms(1) by (auto simp: widen_def)
  with i64.widen_models [OF r assms] show "\<exists>r. widen i64_bound old new = Some r \<and> oct_models i64_admits r x"
    by blast
  obtain r' where r': "widen_with_thresholds i64_bound old new ts = Some r'"
    using assms(1) by (auto simp: widen_with_thresholds_def)
  with i64.widen_with_thresholds_models [OF r' assms]
  show "\<exists>r. widen_with_thresholds i64_bound old new ts = Some r \<and> oct_models i64_admits r x" by blast
qed

lemma widening_upper_bound_witness:
  "\<exists>r. widen i64_bound (dbm_new i64_bound 1) (dbm_new i64_bound 1) = Some r \<and>
     oct_models i64_admits r (\<lambda>_. 3)"
  using widening_upper_bound [of "dbm_new i64_bound 1" "dbm_new i64_bound 1" "\<lambda>_. 3" "[]"] models_new by simp

text \<open>the entrywise inclusion test is sound for inclusion of the environments.\<close>

theorem is_included_sound:
  assumes "is_included i64_bound a b" and "oct_models i64_admits a x"
  shows "oct_models i64_admits b x"
  by (rule i64.is_included_models [OF assms])

lemma is_included_sound_witness: "oct_models i64_admits (dbm_new i64_bound 1) (\<lambda>_. 3)"
  by (rule is_included_sound [of "dbm_new i64_bound 1", OF _ models_new]) code_simp

section \<open>Transfer functions\<close>

text \<open>
  C11: a guard keeps exactly the environments that satisfy it, and answers \<open>Empty\<close> only when there
  is none.
\<close>

theorem guard_filters:
  assumes "wf_dbm d" and "small_guard i64_ok (guard_const g)" and "guard i64_bound d g = Some (r, e)"
  shows "(oct_models i64_admits e x \<longleftrightarrow> oct_models i64_admits d x \<and> guard_holds g x) \<and>
    (r = Empty \<longrightarrow> \<not> (oct_models i64_admits d x \<and> guard_holds g x)) \<and> wf_dbm e \<and> n_vars e = n_vars d"
  using i64.guard_exact [OF assms] by blast

lemma guard_filters_witness:
  "\<exists>r e. guard i64_bound (dbm_new i64_bound 2) (DiffLtEq 0 1 5) = Some (r, e) \<and> wf_dbm e \<and>
     oct_models i64_admits e (\<lambda>_. 3)"
proof -
  have "\<not> Option.is_none (guard i64_bound (dbm_new i64_bound 2) (DiffLtEq 0 1 5))" by code_simp
  then obtain r e where r: "guard i64_bound (dbm_new i64_bound 2) (DiffLtEq 0 1 5) = Some (r, e)"
    by (rule some_pair)
  have "small_guard i64_ok (guard_const (DiffLtEq 0 1 5))"
    by (simp add: small_guard_def i64_ok_def in_i64_def i64_min_def i64_max_def)
  from guard_filters [OF wf_dbm_new this r, of "\<lambda>_. 3"] r models_new show ?thesis by auto
qed

text \<open>
  C12: an assignment of an expression that does not read the assigned variable keeps every
  environment, updated at the variable with a value of the expression, and in every environment of
  the result the variable has a value of the expression.
\<close>

theorem assign_exact:
  assumes "assign i64_bound d v e = Some (r, d')" and "wf_dbm d" and "v < n_vars d"
    and "v \<notin> set (expr_vars e)" and "small_const i64_ok (expr_const e)"
  shows "(oct_models i64_admits d x \<and> expr_value e x w \<and> small_env i64_ok (n_vars d) (x(v := w)) \<longrightarrow>
      r = Closed \<and> oct_models i64_admits d' (x(v := w))) \<and>
    (oct_models i64_admits d' x \<longrightarrow> expr_value e x (x v))"
  using i64.assign_models [OF assms(1,2,3) _ _ assms(4,5)] i64.assign_value [OF assms] by blast

lemma assign_exact_witness:
  "\<exists>r d'. assign i64_bound (dbm_new i64_bound 2) 0 (VarPlusConst 1 4) = Some (r, d') \<and>
     oct_models i64_admits d' ((\<lambda>_. 3)(0 := 7))"
proof -
  have "\<not> Option.is_none (assign i64_bound (dbm_new i64_bound 2) 0 (VarPlusConst 1 4))" by code_simp
  then obtain r d' where r: "assign i64_bound (dbm_new i64_bound 2) 0 (VarPlusConst 1 4) = Some (r, d')"
    by (rule some_pair)
  have "small_const i64_ok (expr_const (VarPlusConst 1 4))"
    by (simp add: small_const_def i64_ok_def in_i64_def i64_min_def i64_max_def)
  moreover have "small_env i64_ok 2 ((\<lambda>_. 3)(0 := 7))"
    by (auto simp: small_env_def i64_ok_def lit_def)
  ultimately show ?thesis
    using assign_exact [OF r wf_dbm_new, where x = "\<lambda>_. 3" and w = 7] r models_new by auto
qed


section \<open>Queries and packs\<close>

text \<open>
  the interval projected for a variable contains its value in every environment, when the
  entries are infinite or exactly representable as a float (below 2 to the 53).
\<close>

theorem project_interval_contains:
  assumes "wf_dbm d" and "v < n_vars d" and "oct_models i64_admits d x"
    and "\<forall>i < dim d. \<forall>j < dim d. dbm_get d i j = i64_max \<or> \<bar>dbm_get d i j\<bar> \<le> 9007199254740992"
    and "\<forall>c. \<bar>c\<bar> \<le> 9007199254740992 \<longrightarrow> to_int (to_float c) = c"
    and "project_interval i64_bound to_float d v = Some (lo, hi)"
  shows "in_interval \<lparr>iv_low = map_option to_int lo, iv_high = map_option to_int hi\<rparr> (x v)"
  by (rule project_interval_sound [OF assms])

lemma project_interval_contains_witness: "in_interval \<lparr>iv_low = None, iv_high = None\<rparr> 3"
  using project_interval_contains [where d = "dbm_new i64_bound 1" and v = 0 and x = "\<lambda>_. 3"
      and to_int = "\<lambda>v. v" and to_float = "\<lambda>v. v" and lo = None and hi = None] models_new
  by (simp add: dbm_get_new project_interval_def Let_def)

text \<open>
  adding a variable keeps the pack well formed and its constraints unchanged, gives the variable
  the index it is found under afterwards, moves no other variable, and fails exactly when the
  variable is new and the pack full.
\<close>

theorem add_var_correct:
  assumes "wf_pack p"
  shows "wf_pack (snd (add_var i64_bound s p)) \<and>
    (oct_models i64_admits (pack_dbm (snd (add_var i64_bound s p))) x \<longleftrightarrow>
       oct_models i64_admits (pack_dbm p) x) \<and>
    fst (add_var i64_bound s p) = var_index (snd (add_var i64_bound s p)) s \<and>
    (fst (add_var i64_bound s p) = None \<longleftrightarrow> var_index p s = None \<and> is_full p) \<and>
    (var_index p t = Some i \<longrightarrow> var_index (snd (add_var i64_bound s p)) t = Some i)"
  using add_var_wf [OF assms] i64.add_var_models [OF assms] add_var_index [OF assms] by blast

lemma add_var_correct_witness:
  "wf_pack (snd (add_var i64_bound ''x'' (pack_new i64_bound 4)))"
  using add_var_correct [of "pack_new i64_bound 4"] by simp

end
