(* ===== verification/Cfg.thy ===== *)
theory Cfg
  imports Prelude
begin

text \<open>
  The control flow graph of \<open>types.rs\<close> and the graph helpers of \<open>dataflow/types.rs\<close>: adjacency maps,
  validation, breadth-first reachability and the reverse postorder of an iterative depth-first search
  whose stack holds a finishing marker under the successors of each open block.
\<close>

section \<open>Data\<close>

datatype block_type = Entry | Branch | LoopHeader | LoopBody | Return | Exit | Body

datatype edge_type = EdgeTrue | EdgeFalse | Unconditional | BackEdge | Break | Continue

record cfg_block =
  blk_id :: block_id
  blk_type :: block_type
  blk_lines :: "nat \<times> nat"
  blk_calls :: "string list"

record cfg_edge =
  edge_from :: block_id
  edge_to :: block_id
  edge_kind :: edge_type
  edge_condition :: "string option"

text \<open>\<open>CfgInfo\<close> without \<open>nested_functions\<close>, which no modelled function reads.\<close>

record cfg_info =
  cfg_function :: string
  cfg_blocks :: "cfg_block list"
  cfg_edges :: "cfg_edge list"
  entry_block :: block_id
  exit_blocks :: "block_id list"
  cyclomatic_complexity :: nat

datatype dataflow_error =
  NoCfg
| NoDfg
| TooManyBlocks nat
| IterationLimit nat
| UnsupportedCfgPattern string

definition max_blocks :: nat where
  "max_blocks = 10000"

section \<open>Operations\<close>

definition build_predecessors :: "cfg_info \<Rightarrow> block_id \<rightharpoonup> block_id list" where
  "build_predecessors cfg =
     (let predecessors = fold (\<lambda>b. entry_or_default (blk_id b)) (cfg_blocks cfg) Map.empty
      in fold (\<lambda>e. entry_push (edge_to e) (edge_from e)) (cfg_edges cfg) predecessors)"

definition build_successors :: "cfg_info \<Rightarrow> block_id \<rightharpoonup> block_id list" where
  "build_successors cfg =
     (let successors = fold (\<lambda>b. entry_or_default (blk_id b)) (cfg_blocks cfg) Map.empty
      in fold (\<lambda>e. entry_push (edge_from e) (edge_to e)) (cfg_edges cfg) successors)"

definition validate_cfg :: "cfg_info \<Rightarrow> dataflow_error + unit" where
  "validate_cfg cfg =
     (if cfg_blocks cfg = [] then Inl NoCfg
      else if max_blocks < length (cfg_blocks cfg) then Inl (TooManyBlocks (length (cfg_blocks cfg)))
      else Inr ())"

definition succs_of :: "cfg_info \<Rightarrow> block_id \<Rightarrow> block_id list" where
  "succs_of cfg b = get_list (build_successors cfg) b"

lemma fold_entry_or_default [simp]:
  "get_list (fold (\<lambda>b. entry_or_default (f b)) bs m) k = get_list m k"
  "dom (fold (\<lambda>b. entry_or_default (f b)) bs m) = f ` set bs \<union> dom m"
  by (induction bs arbitrary: m) auto

lemma fold_entry_push [simp]:
  "get_list (fold (\<lambda>e. entry_push (f e) (g e)) es m) k =
     get_list m k @ map g (filter (\<lambda>e. f e = k) es)"
  "dom (fold (\<lambda>e. entry_push (f e) (g e)) es m) = f ` set es \<union> dom m"
  by (induction es arbitrary: m) auto

lemma succs_of_eq: "succs_of cfg b = map edge_to (filter (\<lambda>e. edge_from e = b) (cfg_edges cfg))"
  by (simp add: succs_of_def build_successors_def Let_def)

lemma build_predecessors_eq:
  "get_list (build_predecessors cfg) b = map edge_from (filter (\<lambda>e. edge_to e = b) (cfg_edges cfg))"
  "dom (build_predecessors cfg) = blk_id ` set (cfg_blocks cfg) \<union> edge_to ` set (cfg_edges cfg)"
  by (simp_all add: build_predecessors_def Let_def Un_commute)

text \<open>The graph the edge list denotes, and the blocks a search can ever meet.\<close>

definition flow :: "cfg_info \<Rightarrow> (block_id \<times> block_id) set" where
  "flow cfg = (\<lambda>e. (edge_from e, edge_to e)) ` set (cfg_edges cfg)"

definition targets :: "cfg_info \<Rightarrow> block_id set" where
  "targets cfg = set (map edge_to (cfg_edges cfg))"

lemma set_succs_of [simp]: "set (succs_of cfg b) = {c. (b, c) \<in> flow cfg}"
  by (auto simp: succs_of_eq flow_def)

lemma finite_targets [simp]: "finite (targets cfg)"
  by (simp add: targets_def)

lemma flow_target: "(b, c) \<in> flow cfg \<Longrightarrow> c \<in> targets cfg"
  by (auto simp: flow_def targets_def)

text \<open>
  \<open>reachable_blocks\<close>: the queue loop. The blocks still to visit are among the queue and the edge
  targets, so each turn either visits one of them or shortens the queue.
\<close>

function reach_loop :: "cfg_info \<Rightarrow> block_id set \<Rightarrow> block_id list \<Rightarrow> block_id set" where
  "reach_loop cfg visited [] = visited"
| "reach_loop cfg visited (block # queue) =
     (if block \<in> visited then reach_loop cfg visited queue
      else
        (let visited' = insert block visited
         in reach_loop cfg visited' (queue @ filter (\<lambda>s. s \<notin> visited') (succs_of cfg block))))"
  by pat_completeness auto

lemma search_measure:
  assumes "b \<in> Q" "b \<notin> V" "Q' \<subseteq> Q \<union> targets cfg" "finite Q"
  shows "card ((Q' \<union> targets cfg) - insert b V) < card ((Q \<union> targets cfg) - V)"
  by (rule psubset_card_mono) (use assms in auto)

lemma search_measure_le:
  assumes "Q' \<subseteq> Q" "finite Q"
  shows "card ((Q' \<union> targets cfg) - V) \<le> card ((Q \<union> targets cfg) - V)"
  by (rule card_mono) (use assms in auto)

termination reach_loop
proof (relation "measures [\<lambda>(cfg, v, q). card ((set q \<union> targets cfg) - v), \<lambda>(cfg, v, q). length q]")
  fix cfg :: cfg_info and V block queue
  show "block \<in> V \<Longrightarrow> ((cfg, V, queue), (cfg, V, block # queue)) \<in>
      measures [\<lambda>(cfg, v, q). card ((set q \<union> targets cfg) - v), \<lambda>(cfg, v, q). length q]"
    using search_measure_le [of "set queue" "set (block # queue)" cfg V]
    by (auto simp: le_less)
  fix V' assume "block \<notin> V" and "V' = insert block V"
  then show "((cfg, V', queue @ filter (\<lambda>s. s \<notin> V') (succs_of cfg block)), (cfg, V, block # queue)) \<in>
      measures [\<lambda>(cfg, v, q). card ((set q \<union> targets cfg) - v), \<lambda>(cfg, v, q). length q]"
    using search_measure [of block "set (block # queue)" V
        "set (queue @ filter (\<lambda>s. s \<notin> V') (succs_of cfg block))" cfg] flow_target
    by auto
qed simp

definition reachable_blocks :: "cfg_info \<Rightarrow> block_id set" where
  "reachable_blocks cfg =
     (if cfg_blocks cfg = [] then {} else reach_loop cfg {} [entry_block cfg])"

text \<open>\<open>reverse_postorder\<close>; the top of the stack is the head of the list.\<close>

function rpo_loop ::
  "cfg_info \<Rightarrow> block_id set \<Rightarrow> (block_id \<times> bool) list \<Rightarrow> block_id list \<Rightarrow> block_id list" where
  "rpo_loop cfg visited [] postorder = postorder"
| "rpo_loop cfg visited ((block, finished) # stack) postorder =
     (if finished then rpo_loop cfg visited stack (postorder @ [block])
      else if block \<in> visited then rpo_loop cfg visited stack postorder
      else
        (let visited' = insert block visited;
             stack' = (block, True) # stack
         in rpo_loop cfg visited'
              (fold (\<lambda>succ st. if succ \<notin> visited' then (succ, False) # st else st)
                (rev (succs_of cfg block)) stack')
              postorder))"
  by pat_completeness auto

lemma push_filter:
  "fold (\<lambda>s st. if s \<notin> V then (s, False) # st else st) (rev ss) st =
     map (\<lambda>s. (s, False)) (filter (\<lambda>s. s \<notin> V) ss) @ st"
  by (induction ss arbitrary: st) simp_all

text \<open>The blocks the stack asks to open.\<close>

definition pending :: "('a \<times> bool) list \<Rightarrow> 'a set" where
  "pending st = {b. (b, False) \<in> set st}"

lemma pending_simps [simp]:
  "pending [] = {}"
  "pending ((b, True) # st) = pending st"
  "pending ((b, False) # st) = insert b (pending st)"
  "pending (map (\<lambda>s. (s, False)) ss @ st) = set ss \<union> pending st"
  by (auto simp: pending_def)

lemma finite_pending [simp]: "finite (pending st)"
proof -
  have "pending st \<subseteq> fst ` set st" by (force simp: pending_def)
  then show ?thesis by (rule finite_subset) simp
qed

termination rpo_loop
proof (relation "measures [\<lambda>(cfg, v, st, p). card ((pending st \<union> targets cfg) - v), \<lambda>(cfg, v, st, p). length st]")
  fix cfg :: cfg_info and V block and fin :: bool and stack and post :: "block_id list"
  let ?M = "measures [\<lambda>(cfg, v, st, p). card ((pending st \<union> targets cfg) - v), \<lambda>(cfg, v, st, p). length st]"
  have le: "card ((pending stack \<union> targets cfg) - V) \<le> card ((pending ((block, fin) # stack) \<union> targets cfg) - V)"
    by (rule search_measure_le [OF _ finite_pending]) (auto simp: pending_def)
  show "fin \<Longrightarrow> ((cfg, V, stack, post @ [block]), (cfg, V, (block, fin) # stack, post)) \<in> ?M"
    using le by (auto simp: le_less)
  show "\<not> fin \<Longrightarrow> block \<in> V \<Longrightarrow> ((cfg, V, stack, post), (cfg, V, (block, fin) # stack, post)) \<in> ?M"
    using le by (auto simp: le_less)
  fix V' st'
  assume fin: "\<not> fin" and new: "block \<notin> V" and V': "V' = insert block V" and st': "st' = (block, True) # stack"
  let ?ss = "filter (\<lambda>s. s \<notin> V') (succs_of cfg block)"
  let ?st = "map (\<lambda>s. (s, False)) ?ss @ st'"
  have p: "pending ?st = set ?ss \<union> pending stack" by (simp only: st' pending_simps)
  have "block \<in> pending ((block, fin) # stack)" using fin by simp
  moreover have "pending ?st \<subseteq> pending ((block, fin) # stack) \<union> targets cfg"
    unfolding p using fin flow_target by auto
  ultimately have "card ((pending ?st \<union> targets cfg) - V') < card ((pending ((block, fin) # stack) \<union> targets cfg) - V)"
    unfolding V' using new by (intro search_measure) simp_all
  then show "((cfg, V', fold (\<lambda>succ st. if succ \<notin> V' then (succ, False) # st else st)
      (rev (succs_of cfg block)) st', post), (cfg, V, (block, fin) # stack, post)) \<in> ?M"
    unfolding push_filter by simp
qed simp

definition reverse_postorder :: "cfg_info \<Rightarrow> block_id list" where
  "reverse_postorder cfg =
     (if cfg_blocks cfg = [] then [] else rev (rpo_loop cfg {} [(entry_block cfg, False)] []))"


section \<open>What the searches compute\<close>

lemma reach_loop_invariant:
  assumes "V \<subseteq> (flow cfg)\<^sup>* `` {r}" and "set queue \<subseteq> (flow cfg)\<^sup>* `` {r}"
    and "\<forall>b \<in> V. \<forall>c. (b, c) \<in> flow cfg \<longrightarrow> c \<in> V \<union> set queue" and "r \<in> V \<union> set queue"
  shows "reach_loop cfg V queue = (flow cfg)\<^sup>* `` {r}"
  using assms
proof (induction cfg V queue rule: reach_loop.induct)
  case (1 cfg V)
  have "b \<in> V" if "(r, b) \<in> (flow cfg)\<^sup>*" for b
    using that by (induction) (use 1 in auto)
  with 1 show ?case by auto
next
  case (2 cfg V b queue)
  show ?case
  proof (cases "b \<in> V")
    case True
    with 2 show ?thesis by auto
  next
    case False
    let ?V = "insert b V"
    let ?q = "queue @ filter (\<lambda>s. s \<notin> ?V) (succs_of cfg b)"
    have b: "(r, b) \<in> (flow cfg)\<^sup>*" using "2.prems"(2) by simp
    then have "set (succs_of cfg b) \<subseteq> (flow cfg)\<^sup>* `` {r}" by (auto intro: rtrancl_into_rtrancl)
    then have q: "set ?q \<subseteq> (flow cfg)\<^sup>* `` {r}" using "2.prems"(2) by auto
    have V: "?V \<subseteq> (flow cfg)\<^sup>* `` {r}" using b "2.prems"(1) by simp
    have "\<forall>b' \<in> ?V. \<forall>c. (b', c) \<in> flow cfg \<longrightarrow> c \<in> ?V \<union> set ?q" using "2.prems"(3) by auto
    moreover have "r \<in> ?V \<union> set ?q" using "2.prems"(4) by auto
    ultimately have "reach_loop cfg ?V ?q = (flow cfg)\<^sup>* `` {r}"
      by (rule "2.IH"(2) [OF False refl V q])
    with False show ?thesis by (simp add: Let_def)
  qed
qed

lemma reachable_blocks_eq:
  "reachable_blocks cfg = (if cfg_blocks cfg = [] then {} else (flow cfg)\<^sup>* `` {entry_block cfg})"
  using reach_loop_invariant [of "{}" cfg "entry_block cfg" "[entry_block cfg]"]
  by (auto simp: reachable_blocks_def)

subsection \<open>Depth-first order\<close>

text \<open>The open blocks of a search: those whose finishing marker is on the stack.\<close>

definition opened :: "('a \<times> bool) list \<Rightarrow> 'a list" where
  "opened st = map fst (filter snd st)"

lemma opened_simps [simp]:
  "opened [] = []" "opened ((b, True) # st) = b # opened st" "opened ((b, False) # st) = opened st"
  "opened (map (\<lambda>s. (s, False)) ss @ st) = opened st"
  by (simp_all add: opened_def filter_map comp_def)

lemma in_opened_split: "b \<in> set (opened st) \<Longrightarrow> \<exists>A C. st = A @ (b, True) # C"
  by (force simp: opened_def in_set_conv_decomp [symmetric])

text \<open>
  Above the marker of an open block there are only blocks it reaches, and each of its successors is
  visited or still above the marker.
\<close>

definition stack_ok :: "cfg_info \<Rightarrow> block_id set \<Rightarrow> (block_id \<times> bool) list \<Rightarrow> bool" where
  "stack_ok cfg V st \<longleftrightarrow>
     (\<forall>A g C. st = A @ (g, True) # C \<longrightarrow>
        (\<forall>x \<in> fst ` set A. (g, x) \<in> (flow cfg)\<^sup>*) \<and>
        (\<forall>v. (g, v) \<in> flow cfg \<longrightarrow> v \<in> V \<or> (v, False) \<in> set A))"

text \<open>A successor of a finished block was visited, and finished earlier unless it closes a cycle.\<close>

definition finished_ok :: "cfg_info \<Rightarrow> block_id set \<Rightarrow> block_id list \<Rightarrow> bool" where
  "finished_ok cfg V P \<longleftrightarrow>
     (\<forall>P1 u P2. P = P1 @ u # P2 \<longrightarrow>
        (\<forall>v. (u, v) \<in> flow cfg \<longrightarrow> v \<in> V \<and> (v \<in> set P1 \<or> (v, u) \<in> (flow cfg)\<^sup>*)))"

definition dfs_inv ::
  "cfg_info \<Rightarrow> block_id \<Rightarrow> block_id set \<Rightarrow> (block_id \<times> bool) list \<Rightarrow> block_id list \<Rightarrow> bool" where
  "dfs_inv cfg r V st P \<longleftrightarrow>
     distinct (P @ opened st) \<and> set (P @ opened st) = V \<and> stack_ok cfg V st \<and> finished_ok cfg V P \<and>
     V \<union> fst ` set st \<subseteq> (flow cfg)\<^sup>* `` {r} \<and>
     (if st = [] then P \<noteq> [] \<and> last P = r
      else last st = (r, True) \<or> (V = {} \<and> st = [(r, False)]))"

lemma stack_okD:
  assumes "stack_ok cfg V (A @ (g, True) # C)"
  shows "x \<in> fst ` set A \<Longrightarrow> (g, x) \<in> (flow cfg)\<^sup>*"
    and "(g, v) \<in> flow cfg \<Longrightarrow> v \<in> V \<or> (v, False) \<in> set A"
  using assms unfolding stack_ok_def by blast+

lemma stack_ok_tail:
  assumes "stack_ok cfg V ((b, fin) # st)" and "fin \<or> b \<in> V"
  shows "stack_ok cfg V st"
  unfolding stack_ok_def
proof (intro allI impI)
  fix A g C assume "st = A @ (g, True) # C"
  then have "stack_ok cfg V (((b, fin) # A) @ (g, True) # C)" using assms(1) by simp
  from stack_okD [OF this] assms(2)
  show "(\<forall>x \<in> fst ` set A. (g, x) \<in> (flow cfg)\<^sup>*) \<and>
      (\<forall>v. (g, v) \<in> flow cfg \<longrightarrow> v \<in> V \<or> (v, False) \<in> set A)"
    by auto
qed

lemma split_pushed:
  "map (\<lambda>s. (s, False)) ss @ (b, True) # st = A @ (g, True) # C \<longleftrightarrow>
     (A = map (\<lambda>s. (s, False)) ss \<and> g = b \<and> C = st) \<or>
     (\<exists>A'. A = map (\<lambda>s. (s, False)) ss @ (b, True) # A' \<and> st = A' @ (g, True) # C)"
proof (induction ss arbitrary: A)
  case Nil
  then show ?case by (cases A) auto
next
  case (Cons s ss)
  then show ?case by (cases A) auto
qed

lemma stack_ok_open:
  assumes ok: "stack_ok cfg V ((b, False) # st)"
  shows "stack_ok cfg (insert b V)
    (map (\<lambda>s. (s, False)) (filter (\<lambda>s. s \<notin> insert b V) (succs_of cfg b)) @ (b, True) # st)"
    (is "stack_ok cfg _ (map ?f ?ss @ _)")
  unfolding stack_ok_def split_pushed
proof (intro allI impI, elim disjE exE conjE)
  fix A g C assume "A = map ?f ?ss" "g = b" "C = st"
  then show "(\<forall>x \<in> fst ` set A. (g, x) \<in> (flow cfg)\<^sup>*) \<and>
      (\<forall>v. (g, v) \<in> flow cfg \<longrightarrow> v \<in> insert b V \<or> (v, False) \<in> set A)"
    by (auto simp: image_iff)
next
  fix A g C A' assume A: "A = map ?f ?ss @ (b, True) # A'" and st: "st = A' @ (g, True) # C"
  have old: "stack_ok cfg V (((b, False) # A') @ (g, True) # C)" using ok st by simp
  have gb: "(g, b) \<in> (flow cfg)\<^sup>*" using stack_okD(1) [OF old, of b] by simp
  have "(g, x) \<in> (flow cfg)\<^sup>*" if "x \<in> fst ` set A" for x
    using that gb stack_okD(1) [OF old, of x] unfolding A by (auto intro: rtrancl_into_rtrancl)
  moreover have "v \<in> insert b V \<or> (v, False) \<in> set A" if "(g, v) \<in> flow cfg" for v
    using stack_okD(2) [OF old that] unfolding A by auto
  ultimately show "(\<forall>x \<in> fst ` set A. (g, x) \<in> (flow cfg)\<^sup>*) \<and>
      (\<forall>v. (g, v) \<in> flow cfg \<longrightarrow> v \<in> insert b V \<or> (v, False) \<in> set A)"
    by blast
qed

lemma finished_ok_finish:
  assumes ok: "finished_ok cfg V P" and st: "stack_ok cfg V ((b, True) # st)"
    and V: "set (P @ opened ((b, True) # st)) = V"
  shows "finished_ok cfg V (P @ [b])"
proof -
  have last: "v \<in> V \<and> (v \<in> set P \<or> (v, b) \<in> (flow cfg)\<^sup>*)" if bv: "(b, v) \<in> flow cfg" for v
  proof -
    have "v \<in> V" using stack_okD(2) [of cfg V "[]" b st v] st bv by simp
    moreover have "(v, b) \<in> (flow cfg)\<^sup>*" if "v \<in> set (opened st)"
    proof -
      from in_opened_split [OF that] obtain A C where "st = A @ (v, True) # C" by blast
      then show ?thesis using stack_okD(1) [of cfg V "(b, True) # A" v C b] st by simp
    qed
    ultimately show ?thesis using V by auto
  qed
  show ?thesis unfolding finished_ok_def
  proof (intro allI impI)
    fix P1 u P2 v assume split: "P @ [b] = P1 @ u # P2" and uv: "(u, v) \<in> flow cfg"
    show "v \<in> V \<and> (v \<in> set P1 \<or> (v, u) \<in> (flow cfg)\<^sup>*)"
    proof (cases P2 rule: rev_cases)
      case Nil
      with split last uv show ?thesis by simp
    next
      case (snoc P3 c)
      with split have "P = P1 @ u # P3" by simp
      with ok uv show ?thesis unfolding finished_ok_def by blast
    qed
  qed
qed

lemma dfs_inv_finish:
  assumes "dfs_inv cfg r V ((b, True) # st) P"
  shows "dfs_inv cfg r V st (P @ [b])"
proof -
  have "stack_ok cfg V st" using assms stack_ok_tail unfolding dfs_inv_def by blast
  moreover have "finished_ok cfg V (P @ [b])"
    using assms finished_ok_finish unfolding dfs_inv_def by blast
  ultimately show ?thesis using assms unfolding dfs_inv_def by (auto split: if_splits)
qed

lemma dfs_inv_skip:
  assumes "dfs_inv cfg r V ((b, False) # st) P" and "b \<in> V"
  shows "dfs_inv cfg r V st P"
proof -
  have "stack_ok cfg V st" using assms stack_ok_tail unfolding dfs_inv_def by blast
  with assms show ?thesis unfolding dfs_inv_def by (auto split: if_splits)
qed

lemma dfs_inv_open:
  assumes "dfs_inv cfg r V ((b, False) # st) P" and "b \<notin> V"
  shows "dfs_inv cfg r (insert b V)
    (map (\<lambda>s. (s, False)) (filter (\<lambda>s. s \<notin> insert b V) (succs_of cfg b)) @ (b, True) # st) P"
    (is "dfs_inv cfg r _ ?st P")
proof -
  have ok: "stack_ok cfg (insert b V) ?st"
    using assms stack_ok_open unfolding dfs_inv_def by blast
  have fin: "finished_ok cfg (insert b V) P" using assms(1) unfolding dfs_inv_def finished_ok_def by blast
  have b: "(r, b) \<in> (flow cfg)\<^sup>*" using assms(1) by (auto simp: dfs_inv_def)
  then have "fst ` set ?st \<subseteq> (flow cfg)\<^sup>* `` {r}"
    using assms(1) by (auto simp: dfs_inv_def intro: rtrancl_into_rtrancl)
  moreover have "last ?st = (r, True)" using assms(1) by (auto simp: dfs_inv_def split: if_splits)
  moreover have "distinct (P @ opened ?st)" "set (P @ opened ?st) = insert b V"
    using assms by (auto simp: dfs_inv_def)
  ultimately show ?thesis using ok fin b assms(1) unfolding dfs_inv_def by simp
qed

lemma rpo_loop_invariant:
  "dfs_inv cfg r V st P \<Longrightarrow> \<exists>V'. dfs_inv cfg r V' [] (rpo_loop cfg V st P)"
proof (induction cfg V st P rule: rpo_loop.induct)
  case (2 cfg V b fin st P)
  show ?case
  proof (cases fin)
    case True
    with 2 dfs_inv_finish [of cfg r V b st P] show ?thesis by simp
  next
    case False
    show ?thesis
    proof (cases "b \<in> V")
      case True
      with False 2 dfs_inv_skip [of cfg r V b st P] show ?thesis by simp
    next
      case new: False
      have "\<exists>V'. dfs_inv cfg r V' [] (rpo_loop cfg (insert b V)
          (fold (\<lambda>succ st. if succ \<notin> insert b V then (succ, False) # st else st)
            (rev (succs_of cfg b)) ((b, True) # st)) P)"
        using "2.IH"(3) [OF False new refl refl] dfs_inv_open [of cfg r V b st P] "2.prems" False new
        unfolding push_filter by simp
      with False new show ?thesis by (simp only: rpo_loop.simps Let_def if_False simp_thms)
    qed
  qed
qed auto

lemma reverse_postorder_props:
  assumes "cfg_blocks cfg \<noteq> []"
  shows "distinct (reverse_postorder cfg)"
    and "set (reverse_postorder cfg) = (flow cfg)\<^sup>* `` {entry_block cfg}"
    and "hd (reverse_postorder cfg) = entry_block cfg"
    and "\<lbrakk>reverse_postorder cfg = P1 @ u # P2; (u, v) \<in> flow cfg; (v, u) \<notin> (flow cfg)\<^sup>*\<rbrakk> \<Longrightarrow> v \<in> set P2"
proof -
  let ?r = "entry_block cfg" and ?P = "rpo_loop cfg {} [(entry_block cfg, False)] []"
  have "dfs_inv cfg ?r {} [(?r, False)] []"
    by (auto simp: dfs_inv_def stack_ok_def finished_ok_def Cons_eq_append_conv)
  then obtain V where V: "dfs_inv cfg ?r V [] ?P" using rpo_loop_invariant by blast
  have eq: "reverse_postorder cfg = rev ?P" using assms by (simp add: reverse_postorder_def)
  have fin: "finished_ok cfg V ?P" and P: "distinct ?P" "set ?P = V" "?P \<noteq> []" "last ?P = ?r"
    and VR: "V \<subseteq> (flow cfg)\<^sup>* `` {?r}"
    using V by (simp_all add: dfs_inv_def)
  show "distinct (reverse_postorder cfg)" using P eq by simp
  show "hd (reverse_postorder cfg) = ?r" using P eq by (simp add: hd_rev)
  have closed: "v \<in> V" if "u \<in> V" "(u, v) \<in> flow cfg" for u v
    using fin P(2) that unfolding finished_ok_def by (metis in_set_conv_decomp)
  have root: "?r \<in> V" using P last_in_set by metis
  have "b \<in> V" if "(?r, b) \<in> (flow cfg)\<^sup>*" for b
    using that by (induction rule: rtrancl_induct) (auto intro: root closed)
  with VR P eq show "set (reverse_postorder cfg) = (flow cfg)\<^sup>* `` {?r}" by auto
  show "v \<in> set P2" if s: "reverse_postorder cfg = P1 @ u # P2" and uv: "(u, v) \<in> flow cfg"
    and nv: "(v, u) \<notin> (flow cfg)\<^sup>*"
  proof -
    have "?P = rev P2 @ u # rev P1" using s eq by (metis rev.simps(2) rev_append rev_rev_ident append_assoc append_Cons append_Nil)
    with fin uv nv show ?thesis unfolding finished_ok_def by (metis set_rev)
  qed
qed

end
