(* ===== verification/Dominators.thy ===== *)
theory Dominators
  imports Cfg
begin

text \<open>
  \<open>ssa/dominators.rs\<close>: the Lengauer-Tarjan construction of the dominator tree, the queries on the
  tree, dominance frontiers and iterated dominance frontiers, and \<open>find_back_edges\<close> of
  \<open>dataflow/types.rs\<close>. Loops that follow pointers of a hash map end only if the pointers are
  acyclic: they are \<open>partial_function (option)\<close>s, \<open>None\<close> being a loop that does not end (or a
  panic), and it is a theorem that the trees the construction builds never give \<open>None\<close>.
\<close>

section \<open>Data\<close>

datatype tldr_error = InvalidArgs string string "string option"

record dominator_node =
  node_block_id :: block_id
  node_idom :: "block_id option"
  node_children :: "block_id list"
  node_depth :: nat

type_synonym dom_nodes = "block_id \<rightharpoonup> dominator_node"

record dominator_tree =
  tree_function :: string
  tree_nodes :: dom_nodes
  tree_entry :: block_id
  tree_preorder :: "block_id list"
  tree_postorder :: "block_id list"

text \<open>\<open>nodes.get(&b).and_then(|n| n.idom)\<close>\<close>

definition idom_of :: "dom_nodes \<Rightarrow> block_id \<Rightarrow> block_id option" where
  "idom_of nodes b = (case nodes b of None \<Rightarrow> None | Some n \<Rightarrow> node_idom n)"

definition children_of :: "dom_nodes \<Rightarrow> block_id \<Rightarrow> block_id list" where
  "children_of nodes b = (case nodes b of None \<Rightarrow> [] | Some n \<Rightarrow> node_children n)"

section \<open>Queries\<close>

partial_function (option) dominates_walk :: "dom_nodes \<Rightarrow> block_id \<Rightarrow> block_id \<Rightarrow> bool option" where
  [code]: "dominates_walk nodes a current =
     (case idom_of nodes current of
        None \<Rightarrow> Some False
      | Some idom \<Rightarrow> if idom = a then Some True else dominates_walk nodes a idom)"

definition dominates :: "dominator_tree \<Rightarrow> block_id \<Rightarrow> block_id \<Rightarrow> bool option" where
  "dominates t a b = (if a = b then Some True else dominates_walk (tree_nodes t) a b)"

definition strictly_dominates :: "dominator_tree \<Rightarrow> block_id \<Rightarrow> block_id \<Rightarrow> bool option" where
  "strictly_dominates t a b = (if a \<noteq> b then dominates t a b else Some False)"

text \<open>The stack is a vector: its last element is popped first.\<close>

partial_function (option) dominated_walk ::
  "dom_nodes \<Rightarrow> block_id list \<Rightarrow> block_id list \<Rightarrow> block_id list option" where
  [code]: "dominated_walk nodes stack result =
     (if stack = [] then Some result
      else dominated_walk nodes (butlast stack @ children_of nodes (last stack)) (result @ [last stack]))"

definition dominated_by :: "dominator_tree \<Rightarrow> block_id \<Rightarrow> block_id list option" where
  "dominated_by t block = dominated_walk (tree_nodes t) [block] []"

section \<open>Lengauer-Tarjan\<close>

record lt_state =
  lt_dfnum :: "block_id \<rightharpoonup> usize"
  lt_vertex :: "block_id list"
  lt_parent :: "block_id \<rightharpoonup> block_id"
  lt_semi :: "block_id \<rightharpoonup> usize"
  lt_ancestor :: "block_id \<rightharpoonup> block_id option"
  lt_label :: "block_id \<rightharpoonup> block_id"
  lt_idom :: "block_id \<rightharpoonup> block_id"
  lt_bucket :: "block_id \<rightharpoonup> block_id list"

definition lt_new :: lt_state where
  "lt_new = \<lparr>lt_dfnum = Map.empty, lt_vertex = [], lt_parent = Map.empty, lt_semi = Map.empty,
     lt_ancestor = Map.empty, lt_label = Map.empty, lt_idom = Map.empty, lt_bucket = Map.empty\<rparr>"

definition lt_number :: "block_id \<Rightarrow> block_id option \<Rightarrow> lt_state \<Rightarrow> lt_state" where
  "lt_number v parent s =
     (let num = length (lt_vertex s);
          s = s\<lparr>lt_dfnum := (lt_dfnum s)(v \<mapsto> num), lt_vertex := lt_vertex s @ [v],
                lt_semi := (lt_semi s)(v \<mapsto> num)\<rparr>
      in case parent of None \<Rightarrow> s | Some p \<Rightarrow> s\<lparr>lt_parent := (lt_parent s)(v \<mapsto> p)\<rparr>)"

text \<open>The successor and predecessor maps are those of \<open>build_successors\<close> and \<open>build_predecessors\<close>.\<close>

function lt_dfs_loop ::
  "cfg_info \<Rightarrow> block_id set \<Rightarrow> (block_id \<times> block_id option \<times> bool) list \<Rightarrow> lt_state \<Rightarrow> lt_state" where
  "lt_dfs_loop cfg visited [] s = s"
| "lt_dfs_loop cfg visited ((v, parent, processed) # stack) s =
     (if processed then lt_dfs_loop cfg visited stack s
      else if v \<in> visited then lt_dfs_loop cfg visited stack s
      else
        (let visited' = insert v visited
         in lt_dfs_loop cfg visited'
              (fold (\<lambda>w st. if w \<notin> visited' then (w, Some v, False) # st else st)
                (rev (succs_of cfg v)) stack)
              (lt_number v parent s)))"
  by pat_completeness auto

lemma push_filter3:
  "fold (\<lambda>w st. if w \<notin> V then (w, p, False) # st else st) (rev ws) st =
     map (\<lambda>w. (w, p, False)) (filter (\<lambda>w. w \<notin> V) ws) @ st"
  by (induction ws arbitrary: st) simp_all

termination lt_dfs_loop
proof (relation "measures [\<lambda>(cfg, v, st, s). card ((fst ` set st \<union> targets cfg) - v), \<lambda>(cfg, v, st, s). length st]")
  fix cfg :: cfg_info and V v and parent :: "block_id option" and processed :: bool and stack and s :: lt_state
  let ?M = "measures [\<lambda>(cfg, v, st, s). card ((fst ` set st \<union> targets cfg) - v), \<lambda>(cfg, v, st, s). length st]"
  have le: "card ((fst ` set stack \<union> targets cfg) - V) \<le>
      card ((fst ` set ((v, parent, processed) # stack) \<union> targets cfg) - V)"
    by (rule search_measure_le) auto
  show "processed \<Longrightarrow> ((cfg, V, stack, s), (cfg, V, (v, parent, processed) # stack, s)) \<in> ?M"
    using le by (auto simp: le_less)
  show "\<not> processed \<Longrightarrow> v \<in> V \<Longrightarrow> ((cfg, V, stack, s), (cfg, V, (v, parent, processed) # stack, s)) \<in> ?M"
    using le by (auto simp: le_less)
  fix V'
  assume new: "v \<notin> V" and V': "V' = insert v V"
  let ?st = "map (\<lambda>w. (w, Some v, False)) (filter (\<lambda>w. w \<notin> V') (succs_of cfg v)) @ stack"
  have "fst ` set ?st \<subseteq> fst ` set ((v, parent, processed) # stack) \<union> targets cfg"
    by (auto simp: image_Un image_image dest: flow_target)
  then have "card ((fst ` set ?st \<union> targets cfg) - V') <
      card ((fst ` set ((v, parent, processed) # stack) \<union> targets cfg) - V)"
    unfolding V' using new by (intro search_measure) simp_all
  then show "((cfg, V', fold (\<lambda>w st. if w \<notin> V' then (w, Some v, False) # st else st)
      (rev (succs_of cfg v)) stack, lt_number v parent s), (cfg, V, (v, parent, processed) # stack, s)) \<in> ?M"
    unfolding push_filter3 by simp
qed simp

definition lt_dfs :: "cfg_info \<Rightarrow> block_id \<Rightarrow> lt_state \<Rightarrow> lt_state" where
  "lt_dfs cfg start s = lt_dfs_loop cfg {} [(start, None, False)] s"

text \<open>\<open>ancestor.get(&v).copied().flatten()\<close>\<close>

definition lt_anc :: "lt_state \<Rightarrow> block_id \<Rightarrow> block_id option" where
  "lt_anc s v = (case lt_ancestor s v of Some a \<Rightarrow> a | None \<Rightarrow> None)"

definition get_or :: "('k \<rightharpoonup> 'v) \<Rightarrow> 'k \<Rightarrow> 'v \<Rightarrow> 'v" where
  "get_or m k d = (case m k of None \<Rightarrow> d | Some v \<Rightarrow> v)"

partial_function (option) compress_path ::
  "(block_id \<Rightarrow> block_id option) \<Rightarrow> block_id \<Rightarrow> block_id list \<Rightarrow> block_id list option" where
  [code]: "compress_path anc current path =
     (case anc current of
        None \<Rightarrow> Some path
      | Some a \<Rightarrow>
          if anc a \<noteq> None then compress_path anc a (path @ [current]) else Some path)"

definition compress_node :: "block_id \<Rightarrow> lt_state \<Rightarrow> lt_state" where
  "compress_node node s =
     (case lt_anc s node of
        None \<Rightarrow> s
      | Some anc \<Rightarrow>
          (let label_anc = get_or (lt_label s) anc anc;
               semi_label_anc = get_or (lt_semi s) label_anc usize_max;
               label_node = get_or (lt_label s) node node;
               semi_label_node = get_or (lt_semi s) label_node usize_max;
               s = (if semi_label_anc < semi_label_node
                    then s\<lparr>lt_label := (lt_label s)(node \<mapsto> label_anc)\<rparr> else s)
           in case lt_anc s anc of
                None \<Rightarrow> s
              | Some anc_anc \<Rightarrow> s\<lparr>lt_ancestor := (lt_ancestor s)(node \<mapsto> Some anc_anc)\<rparr>))"

definition lt_compress :: "block_id \<Rightarrow> lt_state \<Rightarrow> lt_state option" where
  "lt_compress v s =
     (case compress_path (lt_anc s) v [] of
        None \<Rightarrow> None
      | Some path \<Rightarrow> Some (fold compress_node (rev path) s))"

definition lt_eval :: "block_id \<Rightarrow> lt_state \<Rightarrow> (block_id \<times> lt_state) option" where
  "lt_eval v s =
     (if lt_anc s v = None then Some (v, s)
      else case lt_compress v s of
             None \<Rightarrow> None
           | Some s \<Rightarrow> Some (get_or (lt_label s) v v, s))"

definition lt_link :: "block_id \<Rightarrow> block_id \<Rightarrow> lt_state \<Rightarrow> lt_state" where
  "lt_link v w s = s\<lparr>lt_ancestor := (lt_ancestor s)(w \<mapsto> Some v)\<rparr>"

definition lt_pred_step :: "usize \<Rightarrow> block_id \<Rightarrow> block_id \<Rightarrow> lt_state \<Rightarrow> lt_state option" where
  "lt_pred_step n w v s =
     (if lt_dfnum s v = None then Some s
      else case lt_eval v s of
             None \<Rightarrow> None
           | Some (u, s) \<Rightarrow>
               (let semi_u = get_or (lt_semi s) u n; semi_w = get_or (lt_semi s) w n
                in Some (if semi_u < semi_w then s\<lparr>lt_semi := (lt_semi s)(w \<mapsto> semi_u)\<rparr> else s)))"

definition lt_bucket_step :: "usize \<Rightarrow> block_id \<Rightarrow> block_id \<Rightarrow> lt_state \<Rightarrow> lt_state option" where
  "lt_bucket_step n p v s =
     (case lt_eval v s of
        None \<Rightarrow> None
      | Some (u, s) \<Rightarrow>
          (let semi_u = get_or (lt_semi s) u n; semi_v = get_or (lt_semi s) v n
           in Some (s\<lparr>lt_idom := (lt_idom s)(v \<mapsto> (if semi_u < semi_v then u else p))\<rparr>)))"

text \<open>
  \<open>self.semi.get(&w).copied().unwrap_or(self.dfnum[&w])\<close>, then \<open>self.vertex[semi_w]\<close>: the index of
  the map is evaluated in any case and panics on a missing key, so does the vector index.
\<close>

definition semi_vertex :: "lt_state \<Rightarrow> block_id \<Rightarrow> block_id option" where
  "semi_vertex s w =
     (case lt_dfnum s w of
        None \<Rightarrow> None
      | Some num \<Rightarrow>
          (let semi_w = get_or (lt_semi s) w num
           in if semi_w < length (lt_vertex s) then Some (lt_vertex s ! semi_w) else None))"

definition lt_process :: "cfg_info \<Rightarrow> usize \<Rightarrow> usize \<Rightarrow> lt_state \<Rightarrow> lt_state option" where
  "lt_process cfg n i s =
     (let w = lt_vertex s ! i
      in case fold_opt (lt_pred_step n w) (get_list (build_predecessors cfg) w) s of
           None \<Rightarrow> None
         | Some s \<Rightarrow>
             (case semi_vertex s w of
                None \<Rightarrow> None
              | Some sv \<Rightarrow>
                  (let s = s\<lparr>lt_bucket := entry_push sv w (lt_bucket s)\<rparr>
                   in case lt_parent s w of
                        None \<Rightarrow> Some s
                      | Some p \<Rightarrow>
                          (let s = lt_link p w s
                           in case lt_bucket s p of
                                None \<Rightarrow> Some s
                              | Some to_process \<Rightarrow>
                                  fold_opt (lt_bucket_step n p) to_process
                                    (s\<lparr>lt_bucket := (lt_bucket s)(p \<mapsto> [])\<rparr>)))))"

definition lt_finalize :: "usize \<Rightarrow> lt_state \<Rightarrow> lt_state option" where
  "lt_finalize i s =
     (let w = lt_vertex s ! i
      in case semi_vertex s w of
           None \<Rightarrow> None
         | Some sv \<Rightarrow>
             Some (case lt_idom s w of
               None \<Rightarrow> s
             | Some idom_w \<Rightarrow>
                 if idom_w \<noteq> sv
                 then (case lt_idom s idom_w of
                         None \<Rightarrow> s
                       | Some idom_idom_w \<Rightarrow> s\<lparr>lt_idom := (lt_idom s)(w \<mapsto> idom_idom_w)\<rparr>)
                 else s))"

definition lt_init_step :: "block_id \<Rightarrow> lt_state \<Rightarrow> lt_state" where
  "lt_init_step v s =
     s\<lparr>lt_ancestor := (lt_ancestor s)(v \<mapsto> None), lt_label := (lt_label s)(v \<mapsto> v),
       lt_bucket := entry_or_default v (lt_bucket s)\<rparr>"

definition lt_init :: "lt_state \<Rightarrow> lt_state" where
  "lt_init s = fold lt_init_step (lt_vertex s) s"

definition lt_compute :: "cfg_info \<Rightarrow> lt_state option" where
  "lt_compute cfg =
     (let s = lt_dfs cfg (entry_block cfg) lt_new
      in if lt_vertex s = [] then Some s
         else
           (let s = lt_init s; n = length (lt_vertex s)
            in case fold_opt (lt_process cfg n) (rev [1..<n]) s of
                 None \<Rightarrow> None
               | Some s \<Rightarrow> fold_opt lt_finalize [1..<n] s))"

section \<open>Building the tree\<close>

text \<open>\<open>compute_depths\<close>: a queue of blocks with the depth to store.\<close>

partial_function (option) compute_depths :: "(block_id \<times> nat) list \<Rightarrow> dom_nodes \<Rightarrow> dom_nodes option" where
  [code]: "compute_depths queue nodes =
     (if queue = [] then Some nodes
      else
        (let (block, depth) = hd queue
         in case nodes block of
              None \<Rightarrow> compute_depths (tl queue) nodes
            | Some node \<Rightarrow>
                compute_depths (tl queue @ map (\<lambda>child. (child, depth + 1)) (node_children node))
                  (nodes(block \<mapsto> node\<lparr>node_depth := depth\<rparr>))))"

text \<open>\<open>compute_traversals\<close>; the top of the stack is the head of the list.\<close>

partial_function (option) compute_traversals ::
  "dom_nodes \<Rightarrow> (block_id \<times> bool) list \<Rightarrow> block_id list \<Rightarrow> block_id list \<Rightarrow>
     (block_id list \<times> block_id list) option" where
  [code]: "compute_traversals nodes stack preorder postorder =
     (if stack = [] then Some (preorder, postorder)
      else
        (let (block, visited) = hd stack
         in if visited then compute_traversals nodes (tl stack) preorder (postorder @ [block])
            else compute_traversals nodes
                   (map (\<lambda>child. (child, False)) (children_of nodes block) @ (block, True) # tl stack)
                   (preorder @ [block]) postorder))"

text \<open>
  The nodes with their immediate dominators, and then the children: the code iterates a clone of the
  hash map, in any order, and sorts each child list, so the order of the first list does not matter.
\<close>

definition nodes_with_idom :: "block_id \<Rightarrow> lt_state \<Rightarrow> dom_nodes" where
  "nodes_with_idom entry s =
     fold (\<lambda>block nodes. nodes(block \<mapsto>
         \<lparr>node_block_id = block, node_idom = (if block = entry then None else lt_idom s block),
          node_children = [], node_depth = 0\<rparr>)) (lt_vertex s) Map.empty"

definition push_child :: "block_id \<Rightarrow> dom_nodes \<Rightarrow> dom_nodes" where
  "push_child block nodes =
     (case idom_of nodes block of
        None \<Rightarrow> nodes
      | Some idom \<Rightarrow>
          (case nodes idom of
             None \<Rightarrow> nodes
           | Some parent \<Rightarrow> nodes(idom \<mapsto> parent\<lparr>node_children := node_children parent @ [block]\<rparr>)))"

definition nodes_with_children :: "block_id list \<Rightarrow> dom_nodes \<Rightarrow> dom_nodes" where
  "nodes_with_children vertex nodes =
     (\<lambda>b. map_option (\<lambda>n. n\<lparr>node_children := sort (node_children n)\<rparr>) (fold push_child vertex nodes b))"

definition build_dominator_tree :: "cfg_info \<Rightarrow> (tldr_error + dominator_tree) option" where
  "build_dominator_tree cfg =
     (if cfg_blocks cfg = [] then Some (Inl (InvalidArgs ''cfg'' ''Empty CFG has no blocks'' None))
      else
        (let entry = entry_block cfg
         in case lt_compute cfg of
              None \<Rightarrow> None
            | Some s \<Rightarrow>
                (case compute_depths [(entry, 0)]
                    (nodes_with_children (lt_vertex s) (nodes_with_idom entry s)) of
                   None \<Rightarrow> None
                 | Some nodes \<Rightarrow>
                     (case compute_traversals nodes [(entry, False)] [] [] of
                        None \<Rightarrow> None
                      | Some (preorder, postorder) \<Rightarrow>
                          Some (Inr \<lparr>tree_function = cfg_function cfg, tree_nodes = nodes,
                            tree_entry = entry, tree_preorder = preorder,
                            tree_postorder = postorder\<rparr>)))))"

text \<open>\<open>find_back_edges\<close> of \<open>dataflow/types.rs\<close>\<close>

definition find_back_edges :: "cfg_info \<Rightarrow> block_id set option" where
  "find_back_edges cfg =
     (if cfg_blocks cfg = [] then Some {}
      else case build_dominator_tree cfg of
             None \<Rightarrow> None
           | Some (Inl _) \<Rightarrow> Some {}
           | Some (Inr t) \<Rightarrow>
               fold_opt (\<lambda>e headers.
                 (case dominates t (edge_to e) (edge_from e) of
                    None \<Rightarrow> None
                  | Some d \<Rightarrow> Some (if d then insert (edge_to e) headers else headers)))
                 (cfg_edges cfg) {})"

section \<open>Dominance frontiers\<close>

type_synonym frontiers = "block_id \<rightharpoonup> block_id set"

text \<open>\<open>if let Some(df_set) = frontier.get_mut(&runner) { df_set.insert(join_point); }\<close>\<close>

definition frontier_insert :: "block_id \<Rightarrow> block_id \<Rightarrow> frontiers \<Rightarrow> frontiers" where
  "frontier_insert runner y f =
     (case f runner of None \<Rightarrow> f | Some ys \<Rightarrow> f(runner \<mapsto> insert y ys))"

definition df_limit_error :: tldr_error where
  "df_limit_error = InvalidArgs ''dom_tree''
     ''Iteration limit exceeded computing dominance frontier - possible corrupted dominator tree''
     (Some ''Check that the dominator tree was computed correctly'')"

function df_walk ::
  "dom_nodes \<Rightarrow> nat \<Rightarrow> block_id \<Rightarrow> block_id \<Rightarrow> nat \<times> frontiers \<Rightarrow> tldr_error + (nat \<times> frontiers)" where
  "df_walk nodes max_iterations join_point runner (iters, f) =
     (let iters = iters + 1
      in if max_iterations < iters then Inl df_limit_error
         else if idom_of nodes join_point = Some runner then Inr (iters, f)
         else if runner = join_point then Inr (iters, f)
         else
           (let f = frontier_insert runner join_point f
            in case idom_of nodes runner of
                 Some idom \<Rightarrow> df_walk nodes max_iterations join_point idom (iters, f)
               | None \<Rightarrow> Inr (iters, f)))"
  by pat_completeness auto

termination df_walk
  by (relation "measure (\<lambda>(nodes, mx, j, r, t, f). mx - t)") auto

fun df_preds ::
  "dom_nodes \<Rightarrow> nat \<Rightarrow> block_id \<Rightarrow> block_id list \<Rightarrow> nat \<times> frontiers \<Rightarrow> tldr_error + (nat \<times> frontiers)" where
  "df_preds nodes max_iterations join_point [] s = Inr s"
| "df_preds nodes max_iterations join_point (pred # preds) s =
     (if nodes pred = None then df_preds nodes max_iterations join_point preds s
      else case df_walk nodes max_iterations join_point pred s of
             Inl e \<Rightarrow> Inl e
           | Inr s \<Rightarrow> df_preds nodes max_iterations join_point preds s)"

fun df_blocks ::
  "dom_nodes \<Rightarrow> nat \<Rightarrow> (block_id \<rightharpoonup> block_id list) \<Rightarrow> cfg_block list \<Rightarrow> nat \<times> frontiers \<Rightarrow>
     tldr_error + (nat \<times> frontiers)" where
  "df_blocks nodes max_iterations predecessors [] s = Inr s"
| "df_blocks nodes max_iterations predecessors (block # blocks) s =
     (let preds = get_list predecessors (blk_id block)
      in if length preds < 2 then df_blocks nodes max_iterations predecessors blocks s
         else case df_preds nodes max_iterations (blk_id block) preds s of
                Inl e \<Rightarrow> Inl e
              | Inr s \<Rightarrow> df_blocks nodes max_iterations predecessors blocks s)"

definition compute_dominance_frontier :: "cfg_info \<Rightarrow> dominator_tree \<Rightarrow> tldr_error + frontiers" where
  "compute_dominance_frontier cfg t =
     (let nodes = tree_nodes t;
          frontier = (\<lambda>b. if nodes b = None then None else Some {});
          max_iterations = card (dom nodes) * card (dom nodes)
      in case df_blocks nodes max_iterations (build_predecessors cfg) (cfg_blocks cfg) (0, frontier) of
           Inl e \<Rightarrow> Inl e
         | Inr (iters, frontier) \<Rightarrow> Inr frontier)"

text \<open>
  \<open>compute_iterated_df\<close>. The order in which the code iterates the two hash sets is unspecified:
  \<open>enum\<close> lists a set in that order. The work list is a vector popped at its end.
\<close>

definition idf_push :: "block_id set \<Rightarrow> block_id \<Rightarrow> block_id set \<times> block_id list \<Rightarrow> block_id set \<times> block_id list" where
  "idf_push processed y s =
     (let (idf, worklist) = s
      in if y \<in> idf then s
         else (insert y idf, if y \<notin> processed then worklist @ [y] else worklist))"

partial_function (option) idf_loop ::
  "(block_id set \<Rightarrow> block_id list) \<Rightarrow> frontiers \<Rightarrow> block_id set \<Rightarrow> block_id list \<Rightarrow> block_id set \<Rightarrow>
     block_id set option" where
  [code]: "idf_loop enum df idf worklist processed =
     (if worklist = [] then Some idf
      else
        (let block = last worklist; worklist = butlast worklist
         in if block \<in> processed then idf_loop enum df idf worklist processed
            else
              (let processed = insert block processed;
                   (idf, worklist) = fold (idf_push processed) (enum (get_set df block)) (idf, worklist)
               in idf_loop enum df idf worklist processed)))"

definition compute_iterated_df ::
  "(block_id set \<Rightarrow> block_id list) \<Rightarrow> frontiers \<Rightarrow> block_id set \<Rightarrow> block_id set option" where
  "compute_iterated_df enum df blocks = idf_loop enum df {} (enum blocks) {}"

end
