(* ===== verification/Dominators_Dfs.thy ===== *)
theory Dominators_Dfs
  imports Dominators
begin

text \<open>
  The first phase of \<open>LengauerTarjan::compute\<close>: the depth-first numbering visits exactly the blocks
  reachable from the entry, numbers them without gaps in visiting order, and gives each of them but
  the entry a parent with a smaller number and an edge to it.
\<close>

text \<open>What the maps of the numbering say; \<open>lt_dfnum\<close> is the inverse of \<open>lt_vertex\<close>.\<close>

definition numbering :: "lt_state \<Rightarrow> bool" where
  "numbering s \<longleftrightarrow>
     distinct (lt_vertex s) \<and>
     (\<forall>v i. lt_dfnum s v = Some i \<longleftrightarrow> i < length (lt_vertex s) \<and> lt_vertex s ! i = v)"

definition num :: "lt_state \<Rightarrow> block_id \<Rightarrow> nat" where
  "num s v = the (lt_dfnum s v)"

definition parents_ok :: "cfg_info \<Rightarrow> block_id \<Rightarrow> lt_state \<Rightarrow> bool" where
  "parents_ok cfg start s \<longleftrightarrow>
     (\<forall>v \<in> set (lt_vertex s). case lt_parent s v of
        None \<Rightarrow> v = start
      | Some p \<Rightarrow> p \<in> set (lt_vertex s) \<and> num s p < num s v \<and> (p, v) \<in> flow cfg)"

definition dfs_stack_ok ::
  "cfg_info \<Rightarrow> block_id \<Rightarrow> block_id set \<Rightarrow> (block_id \<times> block_id option \<times> bool) list \<Rightarrow> bool" where
  "dfs_stack_ok cfg start V stack \<longleftrightarrow>
     (\<forall>(w, par, processed) \<in> set stack. \<not> processed \<and>
        (case par of None \<Rightarrow> w = start | Some p \<Rightarrow> p \<in> V \<and> (p, w) \<in> flow cfg))"

definition lt_dfs_inv ::
  "cfg_info \<Rightarrow> block_id \<Rightarrow> block_id set \<Rightarrow> (block_id \<times> block_id option \<times> bool) list \<Rightarrow> lt_state \<Rightarrow> bool" where
  "lt_dfs_inv cfg start V stack s \<longleftrightarrow>
     numbering s \<and> set (lt_vertex s) = V \<and> lt_semi s = lt_dfnum s \<and> parents_ok cfg start s \<and>
     dom (lt_parent s) \<subseteq> V \<and>
     dfs_stack_ok cfg start V stack \<and>
     V \<subseteq> (flow cfg)\<^sup>* `` {start} \<and> start \<in> V \<union> fst ` set stack \<and>
     (\<forall>b \<in> V. \<forall>c. (b, c) \<in> flow cfg \<longrightarrow> c \<in> V \<union> fst ` set stack) \<and>
     (if lt_vertex s = [] then stack = [(start, None, False)] else hd (lt_vertex s) = start) \<and>
     lt_ancestor s = Map.empty \<and> lt_label s = Map.empty \<and> lt_idom s = Map.empty \<and> lt_bucket s = Map.empty"

lemma num_Some: "numbering s \<Longrightarrow> lt_dfnum s v = Some i \<longleftrightarrow> i < length (lt_vertex s) \<and> lt_vertex s ! i = v"
  by (simp add: numbering_def)

lemma num_vertex:
  assumes "numbering s" and "v \<in> set (lt_vertex s)"
  shows "lt_dfnum s v = Some (num s v)" "num s v < length (lt_vertex s)" "lt_vertex s ! num s v = v"
proof -
  from assms(2) obtain i where "i < length (lt_vertex s)" "lt_vertex s ! i = v" by (auto simp: in_set_conv_nth)
  with assms(1) have i: "lt_dfnum s v = Some i" by (simp add: numbering_def)
  then show "lt_dfnum s v = Some (num s v)" by (simp add: num_def)
  with assms(1) show "num s v < length (lt_vertex s)" "lt_vertex s ! num s v = v"
    by (simp_all add: numbering_def)
qed

lemma num_nth: "numbering s \<Longrightarrow> i < length (lt_vertex s) \<Longrightarrow> num s (lt_vertex s ! i) = i"
  using num_Some [of s "lt_vertex s ! i" i] by (simp add: num_def)

lemma num_inj:
  "numbering s \<Longrightarrow> v \<in> set (lt_vertex s) \<Longrightarrow> w \<in> set (lt_vertex s) \<Longrightarrow> num s v = num s w \<longleftrightarrow> v = w"
  using num_vertex(3) by metis

lemma dfnum_None: "numbering s \<Longrightarrow> lt_dfnum s v = None \<longleftrightarrow> v \<notin> set (lt_vertex s)"
  by (metis nth_mem num_Some num_vertex(1) option.distinct(1) option.exhaust)

lemma lt_number_simps [simp]:
  "lt_vertex (lt_number v p s) = lt_vertex s @ [v]"
  "lt_dfnum (lt_number v p s) = (lt_dfnum s)(v \<mapsto> length (lt_vertex s))"
  "lt_semi (lt_number v p s) = (lt_semi s)(v \<mapsto> length (lt_vertex s))"
  "lt_parent (lt_number v p s) = (case p of None \<Rightarrow> lt_parent s | Some q \<Rightarrow> (lt_parent s)(v \<mapsto> q))"
  "lt_ancestor (lt_number v p s) = lt_ancestor s" "lt_label (lt_number v p s) = lt_label s"
  "lt_idom (lt_number v p s) = lt_idom s" "lt_bucket (lt_number v p s) = lt_bucket s"
  by (simp_all add: lt_number_def Let_def split: option.splits)

lemma numbering_number:
  assumes "numbering s" and "v \<notin> set (lt_vertex s)"
  shows "numbering (lt_number v p s)"
    and "w \<in> set (lt_vertex s) \<Longrightarrow> num (lt_number v p s) w = num s w"
    and "num (lt_number v p s) v = length (lt_vertex s)"
proof -
  have "lt_dfnum (lt_number v p s) u = Some i \<longleftrightarrow>
      i < length (lt_vertex s @ [v]) \<and> (lt_vertex s @ [v]) ! i = u" for u i
    using assms by (auto simp: numbering_def nth_append less_Suc_eq)
  with assms show "numbering (lt_number v p s)" by (simp add: numbering_def)
  show "num (lt_number v p s) w = num s w" if "w \<in> set (lt_vertex s)"
    using that assms(2) by (auto simp: num_def)
  show "num (lt_number v p s) v = length (lt_vertex s)" by (simp add: num_def)
qed

lemma parents_ok_number:
  assumes "numbering s" and "v \<notin> set (lt_vertex s)" and "parents_ok cfg start s"
    and "case p of None \<Rightarrow> v = start | Some q \<Rightarrow> q \<in> set (lt_vertex s) \<and> (q, v) \<in> flow cfg"
    and new: "lt_parent s v = None"
  shows "parents_ok cfg start (lt_number v p s)"
  unfolding parents_ok_def
proof
  fix w assume "w \<in> set (lt_vertex (lt_number v p s))"
  then consider "w = v" | "w \<noteq> v" "w \<in> set (lt_vertex s)" by auto
  then show "case lt_parent (lt_number v p s) w of
      None \<Rightarrow> w = start
    | Some q \<Rightarrow> q \<in> set (lt_vertex (lt_number v p s)) \<and>
        num (lt_number v p s) q < num (lt_number v p s) w \<and> (q, w) \<in> flow cfg"
  proof cases
    case 1
    then show ?thesis
      using assms(4) new numbering_number(2,3) [OF assms(1,2)] num_vertex(2) [OF assms(1)]
      by (auto split: option.splits)
  next
    case 2
    then have "lt_parent (lt_number v p s) w = lt_parent s w" by (simp split: option.splits)
    with 2 assms(3) show ?thesis
      using numbering_number(2) [OF assms(1,2)]
      by (auto simp: parents_ok_def split: option.splits)
  qed
qed

lemma lt_dfs_inv_skip:
  assumes "lt_dfs_inv cfg start V ((v, p, q) # stack) s" and "v \<in> V"
  shows "lt_dfs_inv cfg start V stack s"
proof -
  have "lt_vertex s \<noteq> []" using assms by (auto simp: lt_dfs_inv_def)
  with assms show ?thesis by (auto simp: lt_dfs_inv_def dfs_stack_ok_def)
qed

lemma lt_dfs_inv_visit:
  assumes inv: "lt_dfs_inv cfg start V ((v, p, False) # stack) s" and new: "v \<notin> V"
  shows "lt_dfs_inv cfg start (insert v V)
    (map (\<lambda>w. (w, Some v, False)) (filter (\<lambda>w. w \<notin> insert v V) (succs_of cfg v)) @ stack)
    (lt_number v p s)"
    (is "lt_dfs_inv cfg start _ ?st ?s")
proof -
  have vs: "v \<notin> set (lt_vertex s)" "numbering s" "set (lt_vertex s) = V" "lt_semi s = lt_dfnum s"
    "parents_ok cfg start s" "dom (lt_parent s) \<subseteq> V" "lt_parent s v = None"
    and stack: "dfs_stack_ok cfg start V ((v, p, False) # stack)"
    and first: "if lt_vertex s = [] then (v, p, False) # stack = [(start, None, False)] else hd (lt_vertex s) = start"
    and rest: "lt_ancestor s = Map.empty \<and> lt_label s = Map.empty \<and> lt_idom s = Map.empty \<and> lt_bucket s = Map.empty"
    using inv new by (auto simp: lt_dfs_inv_def)
  have p: "case p of None \<Rightarrow> v = start | Some q \<Rightarrow> q \<in> set (lt_vertex s) \<and> (q, v) \<in> flow cfg"
    using stack vs(3) by (auto simp: dfs_stack_ok_def split: option.splits)
  have "numbering ?s" by (rule numbering_number(1) [OF vs(2,1)])
  moreover have "parents_ok cfg start ?s" by (rule parents_ok_number [OF vs(2,1,5) p vs(7)])
  moreover have "dom (lt_parent ?s) \<subseteq> insert v V" using vs(6) by (auto split: option.splits)
  moreover have "dfs_stack_ok cfg start (insert v V) ?st"
    using stack by (auto simp: dfs_stack_ok_def split: option.splits)
  moreover have "(start, v) \<in> (flow cfg)\<^sup>*"
  proof (cases p)
    case (Some q)
    with p vs(3) inv have "(start, q) \<in> (flow cfg)\<^sup>*" by (auto simp: lt_dfs_inv_def)
    with p Some show ?thesis by (auto intro: rtrancl_into_rtrancl)
  qed (use p in simp)
  moreover have "\<forall>b \<in> insert v V. \<forall>c. (b, c) \<in> flow cfg \<longrightarrow> c \<in> insert v V \<union> fst ` set ?st"
  proof (intro ballI allI impI)
    fix b c assume b: "b \<in> insert v V" and bc: "(b, c) \<in> flow cfg"
    have fst_st: "fst ` set ?st = {c. (v, c) \<in> flow cfg \<and> c \<notin> insert v V} \<union> fst ` set stack"
      by (simp add: image_Un image_image)
    show "c \<in> insert v V \<union> fst ` set ?st"
    proof (cases "b = v")
      case True
      with bc show ?thesis unfolding fst_st by blast
    next
      case False
      with b have "b \<in> V" by simp
      with bc inv have "c \<in> V \<union> fst ` set ((v, p, False) # stack)"
        unfolding lt_dfs_inv_def by blast
      then show ?thesis unfolding fst_st by auto
    qed
  qed
  moreover have "start \<in> insert v V \<union> fst ` set ?st" using inv by (auto simp: lt_dfs_inv_def)
  moreover have "hd (lt_vertex ?s) = start" using first by (cases "lt_vertex s") auto
  ultimately show ?thesis using inv vs rest by (auto simp: lt_dfs_inv_def)
qed

lemma lt_dfs_loop_inv:
  "lt_dfs_inv cfg start V stack s \<Longrightarrow> \<exists>V'. lt_dfs_inv cfg start V' [] (lt_dfs_loop cfg V stack s)"
proof (induction cfg V stack s rule: lt_dfs_loop.induct)
  case (2 cfg V v p q stack s)
  have q: "\<not> q" using "2.prems" by (simp add: lt_dfs_inv_def dfs_stack_ok_def)
  show ?case
  proof (cases "v \<in> V")
    case True
    with q 2 lt_dfs_inv_skip [of cfg start V v p q stack s] show ?thesis by simp
  next
    case False
    have "\<exists>V'. lt_dfs_inv cfg start V' [] (lt_dfs_loop cfg (insert v V)
        (fold (\<lambda>w st. if w \<notin> insert v V then (w, Some v, False) # st else st) (rev (succs_of cfg v)) stack)
        (lt_number v p s))"
      using "2.IH"(3) [OF q False refl] lt_dfs_inv_visit [of cfg start V v p stack s] "2.prems" q False
      unfolding push_filter3 by simp
    with q False show ?thesis by (simp only: lt_dfs_loop.simps Let_def if_False)
  qed
qed auto

text \<open>The result of the first phase, as the later phases use it.\<close>

definition dfs_done :: "cfg_info \<Rightarrow> lt_state \<Rightarrow> bool" where
  "dfs_done cfg s \<longleftrightarrow>
     numbering s \<and> set (lt_vertex s) = (flow cfg)\<^sup>* `` {entry_block cfg} \<and>
     hd (lt_vertex s) = entry_block cfg \<and> parents_ok cfg (entry_block cfg) s \<and>
     dom (lt_parent s) \<subseteq> set (lt_vertex s)"

lemma lt_dfs_done:
  fixes cfg
  defines "s \<equiv> lt_dfs cfg (entry_block cfg) lt_new"
  shows "dfs_done cfg s" "lt_semi s = lt_dfnum s" "lt_vertex s \<noteq> []"
    "lt_ancestor s = Map.empty" "lt_label s = Map.empty" "lt_idom s = Map.empty" "lt_bucket s = Map.empty"
proof -
  let ?e = "entry_block cfg"
  have "lt_dfs_inv cfg ?e {} [(?e, None, False)] lt_new"
    by (simp add: lt_dfs_inv_def lt_new_def numbering_def parents_ok_def dfs_stack_ok_def)
  then obtain V where "lt_dfs_inv cfg ?e V [] s"
    using lt_dfs_loop_inv unfolding s_def lt_dfs_def by blast
  then have inv: "lt_dfs_inv cfg ?e (set (lt_vertex s)) [] s" by (simp add: lt_dfs_inv_def)
  then show "lt_semi s = lt_dfnum s" "lt_ancestor s = Map.empty" "lt_label s = Map.empty"
    "lt_idom s = Map.empty" "lt_bucket s = Map.empty" "lt_vertex s \<noteq> []"
    by (auto simp: lt_dfs_inv_def)
  have root: "?e \<in> set (lt_vertex s)" using inv by (simp add: lt_dfs_inv_def)
  have closed: "c \<in> set (lt_vertex s)" if "b \<in> set (lt_vertex s)" "(b, c) \<in> flow cfg" for b c
    using inv that by (auto simp: lt_dfs_inv_def)
  have "b \<in> set (lt_vertex s)" if "(?e, b) \<in> (flow cfg)\<^sup>*" for b
    using that by (induction rule: rtrancl_induct) (auto intro: root closed)
  with inv show "dfs_done cfg s" by (auto simp: lt_dfs_inv_def dfs_done_def split: if_splits)
qed

end
