(* ===== verification/Dominators_Lt.thy ===== *)
theory Dominators_Lt
  imports Dominators_Dfs
begin

text \<open>
  The second and third phase of \<open>LengauerTarjan::compute\<close> never panic and always end, and every
  immediate dominator they store has a smaller depth-first number than its block. The invariant is
  that ancestors, labels, semidominators, buckets and immediate dominators all point to smaller
  numbers.
\<close>

definition lt_ok :: "lt_state \<Rightarrow> bool" where
  "lt_ok s \<longleftrightarrow>
     numbering s \<and>
     (\<forall>v a. lt_anc s v = Some a \<longrightarrow>
        v \<in> set (lt_vertex s) \<and> a \<in> set (lt_vertex s) \<and> num s a < num s v) \<and>
     (\<forall>v \<in> set (lt_vertex s). \<exists>u. lt_label s v = Some u \<and> u \<in> set (lt_vertex s) \<and> num s u \<le> num s v) \<and>
     (\<forall>v \<in> set (lt_vertex s). \<exists>k. lt_semi s v = Some k \<and> k \<le> num s v) \<and>
     (\<forall>p ws w. lt_bucket s p = Some ws \<longrightarrow> w \<in> set ws \<longrightarrow>
        p \<in> set (lt_vertex s) \<and> w \<in> set (lt_vertex s) \<and> num s p < num s w) \<and>
     (\<forall>v u. lt_idom s v = Some u \<longrightarrow>
        v \<in> set (lt_vertex s) \<and> u \<in> set (lt_vertex s) \<and> num s u < num s v)"

text \<open>What evaluating a block may change: labels, and ancestors of linked blocks.\<close>

definition eval_frame :: "lt_state \<Rightarrow> lt_state \<Rightarrow> bool" where
  "eval_frame s s' \<longleftrightarrow>
     lt_dfnum s' = lt_dfnum s \<and> lt_vertex s' = lt_vertex s \<and> lt_parent s' = lt_parent s \<and>
     lt_semi s' = lt_semi s \<and> lt_bucket s' = lt_bucket s \<and> lt_idom s' = lt_idom s \<and>
     (\<forall>x. lt_anc s x = None \<longrightarrow> lt_anc s' x = None)"

lemma eval_frame_refl [simp]: "eval_frame s s"
  by (simp add: eval_frame_def)

lemma eval_frame_trans: "eval_frame s s' \<Longrightarrow> eval_frame s' s'' \<Longrightarrow> eval_frame s s''"
  by (simp add: eval_frame_def)

lemma eval_frame_num [simp]: "eval_frame s s' \<Longrightarrow> num s' v = num s v"
  by (simp add: eval_frame_def num_def)

lemma lt_anc_upd [simp]:
  "lt_anc (s\<lparr>lt_label := l\<rparr>) = lt_anc s" "lt_anc (s\<lparr>lt_semi := k\<rparr>) = lt_anc s"
  "lt_anc (s\<lparr>lt_bucket := b\<rparr>) = lt_anc s" "lt_anc (s\<lparr>lt_idom := d\<rparr>) = lt_anc s"
  by (auto simp: lt_anc_def fun_eq_iff)

lemma lt_anc_ancestor_upd [simp]:
  "lt_anc (s\<lparr>lt_ancestor := (lt_ancestor s)(v \<mapsto> x)\<rparr>) w = (if w = v then x else lt_anc s w)"
  by (simp add: lt_anc_def)

lemma lt_anc_ancestor_label_upd [simp]:
  "lt_anc (s\<lparr>lt_label := l, lt_ancestor := (lt_ancestor s)(v \<mapsto> x)\<rparr>) w = (if w = v then x else lt_anc s w)"
  by (simp add: lt_anc_def)

lemma num_upd [simp]:
  "num (s\<lparr>lt_ancestor := m\<rparr>) = num s" "num (s\<lparr>lt_label := l\<rparr>) = num s" "num (s\<lparr>lt_semi := k\<rparr>) = num s"
  "num (s\<lparr>lt_bucket := b\<rparr>) = num s" "num (s\<lparr>lt_idom := d\<rparr>) = num s"
  by (simp_all add: num_def fun_eq_iff)

lemma numbering_upd [simp]:
  "numbering (s\<lparr>lt_ancestor := m\<rparr>) = numbering s" "numbering (s\<lparr>lt_label := l\<rparr>) = numbering s"
  "numbering (s\<lparr>lt_semi := k\<rparr>) = numbering s" "numbering (s\<lparr>lt_bucket := b\<rparr>) = numbering s"
  "numbering (s\<lparr>lt_idom := d\<rparr>) = numbering s"
  by (simp_all add: numbering_def)

lemma lt_okD:
  assumes "lt_ok s"
  shows "numbering s"
    and "lt_anc s v = Some a \<Longrightarrow> v \<in> set (lt_vertex s) \<and> a \<in> set (lt_vertex s) \<and> num s a < num s v"
    and "v \<in> set (lt_vertex s) \<Longrightarrow>
      \<exists>u. lt_label s v = Some u \<and> u \<in> set (lt_vertex s) \<and> num s u \<le> num s v"
    and "v \<in> set (lt_vertex s) \<Longrightarrow> \<exists>k. lt_semi s v = Some k \<and> k \<le> num s v"
    and "lt_bucket s p = Some ws \<Longrightarrow> w \<in> set ws \<Longrightarrow>
      p \<in> set (lt_vertex s) \<and> w \<in> set (lt_vertex s) \<and> num s p < num s w"
    and "lt_idom s v = Some u \<Longrightarrow> v \<in> set (lt_vertex s) \<and> u \<in> set (lt_vertex s) \<and> num s u < num s v"
  using assms unfolding lt_ok_def by blast+

text \<open>The updates of the algorithm that keep the invariant.\<close>

lemma lt_ok_label:
  assumes "lt_ok s" and "u \<in> set (lt_vertex s)" and "num s u \<le> num s v"
  shows "lt_ok (s\<lparr>lt_label := (lt_label s)(v \<mapsto> u)\<rparr>)"
  using assms by (simp add: lt_ok_def)

lemma lt_ok_ancestor:
  assumes "lt_ok s" and "v \<in> set (lt_vertex s)" "a \<in> set (lt_vertex s)" "num s a < num s v"
  shows "lt_ok (s\<lparr>lt_ancestor := (lt_ancestor s)(v \<mapsto> Some a)\<rparr>)"
  using assms by (simp add: lt_ok_def)

lemma lt_ok_semi:
  assumes "lt_ok s" and "k \<le> num s v"
  shows "lt_ok (s\<lparr>lt_semi := (lt_semi s)(v \<mapsto> k)\<rparr>)"
  using assms by (simp add: lt_ok_def)

lemma lt_ok_idom:
  assumes "lt_ok s" and "v \<in> set (lt_vertex s)" "u \<in> set (lt_vertex s)" "num s u < num s v"
  shows "lt_ok (s\<lparr>lt_idom := (lt_idom s)(v \<mapsto> u)\<rparr>)"
  using assms by (simp add: lt_ok_def)

lemma lt_ok_bucket_push:
  assumes "lt_ok s" and "p \<in> set (lt_vertex s)" "w \<in> set (lt_vertex s)" "num s p < num s w"
  shows "lt_ok (s\<lparr>lt_bucket := entry_push p w (lt_bucket s)\<rparr>)"
  using assms by (auto simp: lt_ok_def entry_push_def split: option.splits if_splits)

lemma lt_ok_bucket_clear: "lt_ok s \<Longrightarrow> lt_ok (s\<lparr>lt_bucket := (lt_bucket s)(p \<mapsto> [])\<rparr>)"
  by (simp add: lt_ok_def)

section \<open>Evaluation with path compression\<close>

lemma compress_path_total:
  assumes "lt_ok s"
  shows "\<exists>path'. compress_path (lt_anc s) v path = Some path'"
proof (induction "num s v" arbitrary: v path rule: less_induct)
  case less
  show ?case
  proof (cases "lt_anc s v")
    case None
    then show ?thesis by (simp add: compress_path.simps)
  next
    case (Some a)
    with lt_okD(2) [OF assms Some] less [of a "path @ [v]"] show ?thesis
      by (simp add: compress_path.simps)
  qed
qed

lemma compress_node_ok:
  assumes ok: "lt_ok s"
  shows "lt_ok (compress_node v s)" and "eval_frame s (compress_node v s)"
proof -
  show "lt_ok (compress_node v s)"
  proof (cases "lt_anc s v")
    case (Some a)
    then have v: "v \<in> set (lt_vertex s)" and a: "a \<in> set (lt_vertex s)" "num s a < num s v"
      using lt_okD(2) [OF ok] by blast+
    obtain u where u: "lt_label s a = Some u" "u \<in> set (lt_vertex s)" "num s u \<le> num s a"
      using lt_okD(3) [OF ok a(1)] by blast
    then have ok': "lt_ok (s\<lparr>lt_label := (lt_label s)(v \<mapsto> u)\<rparr>)" using ok a by (intro lt_ok_label) auto
    show ?thesis
    proof (cases "lt_anc s a")
      case None
      with Some u ok ok' show ?thesis by (simp add: compress_node_def Let_def get_or_def)
    next
      case anc: (Some b)
      then have b: "b \<in> set (lt_vertex s)" "num s b < num s v" using lt_okD(2) [OF ok anc] a(2) by auto
      show ?thesis
        using Some anc u v b lt_ok_ancestor [OF ok v b] lt_ok_ancestor [OF ok', of v b]
        by (simp add: compress_node_def Let_def get_or_def)
    qed
  qed (simp add: compress_node_def ok)
  show "eval_frame s (compress_node v s)"
    by (auto simp: eval_frame_def compress_node_def Let_def split: option.splits)
qed

lemma compress_fold_ok:
  "lt_ok s \<Longrightarrow> lt_ok (fold compress_node path s) \<and> eval_frame s (fold compress_node path s)"
proof (induction path arbitrary: s)
  case (Cons v path)
  with compress_node_ok [of s v] eval_frame_trans show ?case by fastforce
qed simp

lemma lt_eval_ok:
  assumes ok: "lt_ok s" and v: "v \<in> set (lt_vertex s)"
  obtains u s' where "lt_eval v s = Some (u, s')" "lt_ok s'" "eval_frame s s'"
    "u \<in> set (lt_vertex s)" "num s u \<le> num s v" "lt_anc s v = None \<Longrightarrow> u = v"
proof (cases "lt_anc s v")
  case None
  with assms that [of v s] show ?thesis by (simp add: lt_eval_def)
next
  case (Some a)
  obtain path where path: "compress_path (lt_anc s) v [] = Some path"
    using compress_path_total [OF ok] by blast
  let ?s = "fold compress_node (rev path) s"
  have s: "lt_ok ?s" "eval_frame s ?s" using compress_fold_ok [OF ok] by simp_all
  then obtain u where u: "lt_label ?s v = Some u" "u \<in> set (lt_vertex ?s)" "num ?s u \<le> num ?s v"
    using lt_okD(3) [OF s(1), of v] v by (auto simp: eval_frame_def)
  show ?thesis
    by (rule that [of u ?s])
      (use Some path s u in \<open>simp_all add: lt_eval_def lt_compress_def get_or_def, simp add: eval_frame_def\<close>)
qed

section \<open>The main loop\<close>

text \<open>
  The loop invariant: blocks with a number up to the current index are not linked yet, and the first
  phase's facts hold of the static part of the state.
\<close>

definition lt_main_inv :: "cfg_info \<Rightarrow> usize \<Rightarrow> lt_state \<Rightarrow> bool" where
  "lt_main_inv cfg i s \<longleftrightarrow>
     lt_ok s \<and> dfs_done cfg s \<and> (\<forall>v \<in> set (lt_vertex s). num s v < i \<longrightarrow> lt_anc s v = None)"

lemma dfs_done_frame:
  assumes "lt_dfnum s' = lt_dfnum s" "lt_vertex s' = lt_vertex s" "lt_parent s' = lt_parent s"
  shows "dfs_done cfg s' = dfs_done cfg s" "num s' = num s"
proof -
  show n: "num s' = num s" using assms by (simp add: num_def fun_eq_iff)
  show "dfs_done cfg s' = dfs_done cfg s"
    using assms n by (simp add: dfs_done_def numbering_def parents_ok_def cong: option.case_cong)
qed

lemma main_inv_frame:
  assumes "lt_main_inv cfg i s" and "eval_frame s s'" and "lt_ok s'"
  shows "lt_main_inv cfg i s'"
  using assms dfs_done_frame [of s' s] by (simp add: lt_main_inv_def eval_frame_def)

lemma main_inv_upd:
  assumes "lt_main_inv cfg i s"
  shows "lt_ok (s\<lparr>lt_semi := k\<rparr>) \<Longrightarrow> lt_main_inv cfg i (s\<lparr>lt_semi := k\<rparr>)"
    and "lt_ok (s\<lparr>lt_bucket := b\<rparr>) \<Longrightarrow> lt_main_inv cfg i (s\<lparr>lt_bucket := b\<rparr>)"
    and "lt_ok (s\<lparr>lt_idom := d\<rparr>) \<Longrightarrow> lt_main_inv cfg i (s\<lparr>lt_idom := d\<rparr>)"
  using assms dfs_done_frame [of "s\<lparr>lt_semi := k\<rparr>" s] dfs_done_frame [of "s\<lparr>lt_bucket := b\<rparr>" s]
    dfs_done_frame [of "s\<lparr>lt_idom := d\<rparr>" s]
  by (simp_all add: lt_main_inv_def)

text \<open>
  One predecessor: the step succeeds, semidominators only go down, and a predecessor that is not
  linked yet bounds the semidominator by its own number.
\<close>

lemma lt_pred_step_ok:
  assumes inv: "lt_main_inv cfg i s" and w: "w \<in> set (lt_vertex s)"
  obtains s' where "lt_pred_step n w v s = Some s'" "lt_main_inv cfg i s'" "lt_vertex s' = lt_vertex s"
    "num s' = num s" "lt_parent s' = lt_parent s"
    "the (lt_semi s' w) \<le> the (lt_semi s w)"
    "v \<in> set (lt_vertex s) \<Longrightarrow> num s v < i \<Longrightarrow> the (lt_semi s' w) \<le> num s v"
proof (cases "lt_dfnum s v")
  case None
  have "numbering s" using inv lt_okD(1) unfolding lt_main_inv_def by blast
  with None have "v \<notin> set (lt_vertex s)" using dfnum_None by blast
  with None show ?thesis using inv that [of s] by (simp add: lt_pred_step_def)
next
  case (Some k)
  have ok: "lt_ok s" using inv by (simp add: lt_main_inv_def)
  have v: "v \<in> set (lt_vertex s)" using Some dfnum_None [OF lt_okD(1) [OF ok], of v] by simp
  obtain u s1 where e: "lt_eval v s = Some (u, s1)" "lt_ok s1" "eval_frame s s1"
    and u: "u \<in> set (lt_vertex s)" "num s u \<le> num s v" "lt_anc s v = None \<Longrightarrow> u = v"
    using lt_eval_ok [OF ok v] by blast
  obtain su sw where su: "lt_semi s1 u = Some su" "su \<le> num s u" and sw: "lt_semi s1 w = Some sw" "sw \<le> num s w"
    using lt_okD(4) [OF e(2), of u] lt_okD(4) [OF e(2), of w] u(1) w
    unfolding eval_frame_num [OF e(3)] using e(3) unfolding eval_frame_def by auto
  let ?s = "if su < sw then s1\<lparr>lt_semi := (lt_semi s1)(w \<mapsto> su)\<rparr> else s1"
  have inv1: "lt_main_inv cfg i s1" by (rule main_inv_frame [OF inv e(3,2)])
  show ?thesis
  proof (rule that [of ?s])
    show "lt_pred_step n w v s = Some ?s" using Some e su sw by (simp add: lt_pred_step_def get_or_def Let_def)
    have "lt_ok (s1\<lparr>lt_semi := (lt_semi s1)(w \<mapsto> su)\<rparr>)" if "su < sw"
      using e su sw that by (intro lt_ok_semi) simp_all
    then show "lt_main_inv cfg i ?s" using inv1 main_inv_upd(1) [OF inv1] by simp
    show "lt_vertex ?s = lt_vertex s" "num ?s = num s" "lt_parent ?s = lt_parent s"
      using e(3) by (simp_all add: eval_frame_def num_def fun_eq_iff)
    have "lt_semi s = lt_semi s1" using e(3) by (simp add: eval_frame_def)
    then show "the (lt_semi ?s w) \<le> the (lt_semi s w)" using sw by simp
    assume "v \<in> set (lt_vertex s)" "num s v < i"
    then have "u = v" using inv u(3) by (simp add: lt_main_inv_def)
    then show "the (lt_semi ?s w) \<le> num s v" using su sw by auto
  qed
qed

lemma lt_preds_ok:
  assumes "lt_main_inv cfg i s" and "w \<in> set (lt_vertex s)"
  obtains s' where "fold_opt (lt_pred_step n w) vs s = Some s'" "lt_main_inv cfg i s'"
    "lt_vertex s' = lt_vertex s" "num s' = num s" "lt_parent s' = lt_parent s"
    "the (lt_semi s' w) \<le> the (lt_semi s w)"
    "\<And>v. v \<in> set vs \<Longrightarrow> v \<in> set (lt_vertex s) \<Longrightarrow> num s v < i \<Longrightarrow> the (lt_semi s' w) \<le> num s v"
  using assms
proof (induction vs arbitrary: s thesis)
  case Nil
  then show ?case by (force intro: Nil.prems(1) [of s])
next
  case (Cons v vs)
  obtain s1 where s1: "lt_pred_step n w v s = Some s1" "lt_main_inv cfg i s1" "lt_vertex s1 = lt_vertex s"
    "num s1 = num s" "lt_parent s1 = lt_parent s" "the (lt_semi s1 w) \<le> the (lt_semi s w)"
    "v \<in> set (lt_vertex s) \<Longrightarrow> num s v < i \<Longrightarrow> the (lt_semi s1 w) \<le> num s v"
    using lt_pred_step_ok [OF Cons.prems(2,3)] by blast
  have w: "w \<in> set (lt_vertex s1)" using s1(3) Cons.prems(3) by simp
  obtain s2 where s2: "fold_opt (lt_pred_step n w) vs s1 = Some s2" "lt_main_inv cfg i s2"
    "lt_vertex s2 = lt_vertex s1" "num s2 = num s1" "lt_parent s2 = lt_parent s1"
    "the (lt_semi s2 w) \<le> the (lt_semi s1 w)"
    "\<And>v. v \<in> set vs \<Longrightarrow> v \<in> set (lt_vertex s1) \<Longrightarrow> num s1 v < i \<Longrightarrow> the (lt_semi s2 w) \<le> num s1 v"
    using Cons.IH [OF _ s1(2) w] by blast
  show ?case
    by (rule Cons.prems(1) [of s2])
      (use s1 s2 in \<open>auto intro: order_trans [OF s2(6)]\<close>)
qed

lemma lt_main_invD:
  assumes "lt_main_inv cfg i s"
  shows "lt_ok s" "dfs_done cfg s" "numbering s"
    and "v \<in> set (lt_vertex s) \<Longrightarrow> num s v < i \<Longrightarrow> lt_anc s v = None"
  using assms lt_okD(1) unfolding lt_main_inv_def by blast+

lemma lt_bucket_step_ok:
  assumes inv: "lt_main_inv cfg i s" and v: "v \<in> set (lt_vertex s)"
    and p: "p \<in> set (lt_vertex s)" "num s p < num s v"
  obtains s' where "lt_bucket_step n p v s = Some s'" "lt_main_inv cfg i s'"
    "lt_vertex s' = lt_vertex s" "num s' = num s"
proof -
  obtain u s1 where e: "lt_eval v s = Some (u, s1)" "lt_ok s1" "eval_frame s s1"
    and u: "u \<in> set (lt_vertex s)" "num s u \<le> num s v"
    using lt_eval_ok [OF lt_main_invD(1) [OF inv] v] by blast
  have same: "lt_vertex s1 = lt_vertex s" "num s1 = num s"
    using e(3) by (auto simp: eval_frame_def num_def fun_eq_iff)
  let ?x = "if get_or (lt_semi s1) u n < get_or (lt_semi s1) v n then u else p"
  have "num s u \<noteq> num s v" if "u \<noteq> v"
    using that num_inj [OF lt_main_invD(3) [OF inv] u(1) v] by simp
  then have "?x \<in> set (lt_vertex s1)" "num s1 ?x < num s1 v" using p u same by (cases "u = v"; simp)+
  with e v same have "lt_ok (s1\<lparr>lt_idom := (lt_idom s1)(v \<mapsto> ?x)\<rparr>)" by (intro lt_ok_idom) simp_all
  with main_inv_upd(3) [OF main_inv_frame [OF inv e(3,2)]] e same show ?thesis
    by (intro that [of "s1\<lparr>lt_idom := (lt_idom s1)(v \<mapsto> ?x)\<rparr>"]) (simp_all add: lt_bucket_step_def Let_def)
qed

lemma lt_bucket_ok:
  assumes "lt_main_inv cfg i s" and "p \<in> set (lt_vertex s)"
    and "\<forall>v \<in> set ws. v \<in> set (lt_vertex s) \<and> num s p < num s v"
  shows "\<exists>s'. fold_opt (lt_bucket_step n p) ws s = Some s' \<and>
    (lt_main_inv cfg i s' \<and> lt_vertex s' = lt_vertex s \<and> num s' = num s)"
proof (rule fold_opt_total)
  show "lt_main_inv cfg i s \<and> lt_vertex s = lt_vertex s \<and> num s = num s" using assms(1) by simp
  fix v t assume "v \<in> set ws" and t: "lt_main_inv cfg i t \<and> lt_vertex t = lt_vertex s \<and> num t = num s"
  with assms obtain t' where "lt_bucket_step n p v t = Some t'" "lt_main_inv cfg i t'"
    "lt_vertex t' = lt_vertex t" "num t' = num t"
    using lt_bucket_step_ok [of cfg i t v p n] by auto
  with t show "\<exists>t'. lt_bucket_step n p v t = Some t' \<and>
      (lt_main_inv cfg i t' \<and> lt_vertex t' = lt_vertex s \<and> num t' = num s)"
    by simp
qed

lemma semi_vertex_ok:
  assumes ok: "lt_ok s" and w: "w \<in> set (lt_vertex s)"
  obtains sv where "semi_vertex s w = Some sv" "sv \<in> set (lt_vertex s)" "num s sv = the (lt_semi s w)"
proof -
  obtain k where k: "lt_semi s w = Some k" "k \<le> num s w" using lt_okD(4) [OF ok w] by blast
  note n = num_vertex [OF lt_okD(1) [OF ok] w]
  from k n(2) have lt: "k < length (lt_vertex s)" by simp
  with k n show ?thesis
    using num_nth [OF lt_okD(1) [OF ok] lt]
    by (intro that [of "lt_vertex s ! k"]) (simp_all add: semi_vertex_def Let_def get_or_def)
qed

lemma dfs_done_parent:
  assumes dd: "dfs_done cfg s" and i: "0 < i" "i < length (lt_vertex s)"
  obtains p where "lt_parent s (lt_vertex s ! i) = Some p" "p \<in> set (lt_vertex s)" "num s p < i"
    "(p, lt_vertex s ! i) \<in> flow cfg"
proof -
  have n: "numbering s" and hd: "hd (lt_vertex s) = entry_block cfg"
    using dd by (simp_all add: dfs_done_def)
  have "lt_vertex s ! 0 = entry_block cfg" using i hd by (cases "lt_vertex s") simp_all
  with n i have "lt_vertex s ! i \<noteq> entry_block cfg"
    by (metis num_nth less_trans nat_neq_iff)
  moreover have "lt_vertex s ! i \<in> set (lt_vertex s)" using i by simp
  moreover have "parents_ok cfg (entry_block cfg) s" using dd by (simp add: dfs_done_def)
  ultimately show ?thesis
    using that num_nth [OF n i(2)] unfolding parents_ok_def
    by (cases "lt_parent s (lt_vertex s ! i)") fastforce+
qed

lemma lt_process_ok:
  assumes inv: "lt_main_inv cfg (Suc i) s" and i: "0 < i" "i < length (lt_vertex s)"
  shows "\<exists>s'. lt_process cfg n i s = Some s' \<and> lt_main_inv cfg i s' \<and> lt_vertex s' = lt_vertex s"
proof -
  let ?w = "lt_vertex s ! i"
  obtain p where p: "lt_parent s ?w = Some p" "p \<in> set (lt_vertex s)" "num s p < i" "(p, ?w) \<in> flow cfg"
    using dfs_done_parent [OF lt_main_invD(2) [OF inv] i] by blast
  have w: "?w \<in> set (lt_vertex s)" "num s ?w = i"
    using i num_nth [OF lt_main_invD(3) [OF inv]] by simp_all
  let ?preds = "get_list (build_predecessors cfg) ?w"
  obtain s1 where s1: "fold_opt (lt_pred_step n ?w) ?preds s = Some s1" "lt_main_inv cfg (Suc i) s1"
    "lt_vertex s1 = lt_vertex s" "num s1 = num s" "lt_parent s1 = lt_parent s"
    "\<And>v. v \<in> set ?preds \<Longrightarrow> v \<in> set (lt_vertex s) \<Longrightarrow> num s v < Suc i \<Longrightarrow> the (lt_semi s1 ?w) \<le> num s v"
    using lt_preds_ok [OF inv w(1), of n ?preds] by metis
  have "p \<in> set ?preds" using p(4) by (force simp: build_predecessors_eq flow_def)
  with s1(6) p have semi: "the (lt_semi s1 ?w) < i" by fastforce
  obtain sv where sv: "semi_vertex s1 ?w = Some sv" "sv \<in> set (lt_vertex s1)" "num s1 sv = the (lt_semi s1 ?w)"
    using semi_vertex_ok [OF lt_main_invD(1) [OF s1(2)], of ?w] w s1(3) by metis
  let ?s2 = "s1\<lparr>lt_bucket := entry_push sv ?w (lt_bucket s1)\<rparr>"
  let ?s3 = "lt_link p ?w ?s2"
  have ok2: "lt_ok ?s2"
    using lt_main_invD(1) [OF s1(2)] sv semi w s1(3,4) by (intro lt_ok_bucket_push) simp_all
  then have ok3: "lt_ok ?s3"
    unfolding lt_link_def using p w s1 by (intro lt_ok_ancestor) simp_all
  have static: "lt_vertex ?s3 = lt_vertex s" "num ?s3 = num s"
    using s1 by (simp_all add: lt_link_def)
  have "dfs_done cfg ?s3 = dfs_done cfg s1" by (rule dfs_done_frame) (simp_all add: lt_link_def)
  moreover have "lt_anc ?s3 v = None" if "v \<in> set (lt_vertex ?s3)" "num ?s3 v < i" for v
  proof -
    have "v \<noteq> ?w" using that w static by auto
    with that static s1 lt_main_invD(4) [OF s1(2), of v] show ?thesis by (simp add: lt_link_def lt_anc_def)
  qed
  ultimately have inv3: "lt_main_inv cfg i ?s3"
    using ok3 lt_main_invD(2) [OF s1(2)] by (simp add: lt_main_inv_def)
  have step: "lt_process cfg n i s =
      (case lt_bucket ?s3 p of None \<Rightarrow> Some ?s3
       | Some ws \<Rightarrow> fold_opt (lt_bucket_step n p) ws (?s3\<lparr>lt_bucket := (lt_bucket ?s3)(p \<mapsto> [])\<rparr>))"
    using s1(1,3,5) sv(1) p(1) by (simp add: lt_process_def Let_def)
  show ?thesis
  proof (cases "lt_bucket ?s3 p")
    case None
    with step inv3 static show ?thesis by simp
  next
    case (Some ws)
    let ?s4 = "?s3\<lparr>lt_bucket := (lt_bucket ?s3)(p \<mapsto> [])\<rparr>"
    have inv4: "lt_main_inv cfg i ?s4" by (rule main_inv_upd(2) [OF inv3 lt_ok_bucket_clear [OF ok3]])
    have "\<forall>v \<in> set ws. v \<in> set (lt_vertex ?s4) \<and> num ?s4 p < num ?s4 v"
      using lt_okD(5) [OF ok3 Some] by simp
    then obtain s5 where "fold_opt (lt_bucket_step n p) ws ?s4 = Some s5" "lt_main_inv cfg i s5"
      "lt_vertex s5 = lt_vertex ?s4"
      using lt_bucket_ok [OF inv4, of p ws n] p(2) static by auto
    with step Some static show ?thesis by simp
  qed
qed

lemma lt_main_ok:
  assumes "lt_main_inv cfg (Suc m) s" and "m < length (lt_vertex s)"
  shows "\<exists>s'. fold_opt (lt_process cfg n) (rev [1..<Suc m]) s = Some s' \<and>
    lt_ok s' \<and> dfs_done cfg s' \<and> lt_vertex s' = lt_vertex s"
  using assms
proof (induction m arbitrary: s)
  case 0
  then show ?case by (simp add: lt_main_inv_def)
next
  case (Suc m)
  obtain s1 where "lt_process cfg n (Suc m) s = Some s1" "lt_main_inv cfg (Suc m) s1"
    "lt_vertex s1 = lt_vertex s"
    using lt_process_ok [OF Suc.prems(1)] Suc.prems(2) by blast
  with Suc.IH [of s1] Suc.prems(2) show ?case by simp
qed

lemma lt_finalize_ok:
  assumes ok: "lt_ok s" and dd: "dfs_done cfg s" and i: "i < length (lt_vertex s)"
  shows "\<exists>s'. lt_finalize i s = Some s' \<and> lt_ok s' \<and> dfs_done cfg s' \<and> lt_vertex s' = lt_vertex s"
proof -
  let ?w = "lt_vertex s ! i"
  obtain sv where sv: "semi_vertex s ?w = Some sv" using semi_vertex_ok [OF ok, of ?w] i by auto
  have step: "lt_ok (s\<lparr>lt_idom := (lt_idom s)(?w \<mapsto> v)\<rparr>) \<and> dfs_done cfg (s\<lparr>lt_idom := (lt_idom s)(?w \<mapsto> v)\<rparr>)"
    if u: "lt_idom s ?w = Some u" "lt_idom s u = Some v" for u v
  proof -
    have "lt_ok (s\<lparr>lt_idom := (lt_idom s)(?w \<mapsto> v)\<rparr>)"
      using lt_okD(6) [OF ok u(1)] lt_okD(6) [OF ok u(2)] ok by (intro lt_ok_idom) auto
    with dfs_done_frame [of "s\<lparr>lt_idom := (lt_idom s)(?w \<mapsto> v)\<rparr>" s] dd show ?thesis by simp
  qed
  show ?thesis
  proof (cases "lt_idom s ?w")
    case None
    with sv ok dd show ?thesis by (simp add: lt_finalize_def Let_def)
  next
    case (Some u)
    with sv ok dd step [OF Some] show ?thesis
      by (cases "lt_idom s u") (simp_all add: lt_finalize_def Let_def)
  qed
qed

lemma lt_init_fold:
  "lt_vertex (fold lt_init_step vs s) = lt_vertex s" "lt_dfnum (fold lt_init_step vs s) = lt_dfnum s"
  "lt_parent (fold lt_init_step vs s) = lt_parent s" "lt_semi (fold lt_init_step vs s) = lt_semi s"
  "lt_idom (fold lt_init_step vs s) = lt_idom s"
  "lt_label (fold lt_init_step vs s) w = (if w \<in> set vs then Some w else lt_label s w)"
  "get_list (lt_bucket (fold lt_init_step vs s)) q = get_list (lt_bucket s) q"
  by (induction vs arbitrary: s) (simp_all add: lt_init_step_def)

lemma lt_init_anc: "(\<And>v. lt_anc s v = None) \<Longrightarrow> lt_anc (fold lt_init_step vs s) w = None"
proof (induction vs arbitrary: s)
  case (Cons v vs)
  then have "lt_anc (lt_init_step v s) u = None" for u by (simp add: lt_init_step_def lt_anc_def)
  with Cons.IH show ?case by simp
qed simp

lemma lt_init_inv:
  assumes "dfs_done cfg s" and "lt_semi s = lt_dfnum s" and "lt_ancestor s = Map.empty"
    and "lt_idom s = Map.empty" and "lt_bucket s = Map.empty"
  shows "lt_main_inv cfg i (lt_init s)" "lt_vertex (lt_init s) = lt_vertex s"
proof -
  let ?s = "lt_init s"
  note init = lt_init_fold [of "lt_vertex s" s, folded lt_init_def]
  show v: "lt_vertex ?s = lt_vertex s" by (rule init(1))
  have n: "numbering s" using assms(1) by (simp add: dfs_done_def)
  have static: "dfs_done cfg ?s = dfs_done cfg s" "num ?s = num s"
    by (rule dfs_done_frame; rule init)+
  have anc: "lt_anc ?s w = None" for w
    unfolding lt_init_def by (rule lt_init_anc) (simp add: assms(3) lt_anc_def)
  have bucket: "w \<notin> set ws" if "lt_bucket ?s p = Some ws" for p ws w
    using init(7) [of p] that by (simp add: assms(5) get_list_def)
  have "lt_ok ?s"
    unfolding lt_ok_def
  proof (intro conjI ballI)
    have "dfs_done cfg ?s" using static assms(1) by simp
    then show "numbering ?s" by (simp add: dfs_done_def)
  next
    fix w assume "w \<in> set (lt_vertex ?s)"
    then show "\<exists>u. lt_label ?s w = Some u \<and> u \<in> set (lt_vertex ?s) \<and> num ?s u \<le> num ?s w"
      using init(6) [of w] v by simp
  next
    fix w assume "w \<in> set (lt_vertex ?s)"
    then show "\<exists>k. lt_semi ?s w = Some k \<and> k \<le> num ?s w"
      using init(4) v assms(2) num_vertex(1) [OF n, of w] static by simp
  qed (use anc init(5) assms(4) in \<open>auto dest: bucket\<close>)
  with anc static assms(1) show "lt_main_inv cfg i ?s" by (simp add: lt_main_inv_def)
qed

theorem lt_compute_total:
  "\<exists>s. lt_compute cfg = Some s \<and> lt_ok s \<and> dfs_done cfg s"
proof -
  let ?s = "lt_dfs cfg (entry_block cfg) lt_new"
  note dfs = lt_dfs_done [of cfg]
  let ?n = "length (lt_vertex ?s)"
  have v: "lt_vertex (lt_init ?s) = lt_vertex ?s" by (rule lt_init_inv(2) [OF dfs(1,2,4,6,7)])
  have n: "Suc (?n - 1) = ?n" using dfs(3) by simp
  obtain s1 where s1: "fold_opt (lt_process cfg ?n) (rev [1..<?n]) (lt_init ?s) = Some s1"
    "lt_ok s1" "dfs_done cfg s1" "lt_vertex s1 = lt_vertex ?s"
    using lt_main_ok [OF lt_init_inv(1) [OF dfs(1,2,4,6,7)], of "?n - 1" ?n, unfolded n v] dfs(3) by auto
  have "\<exists>s2. fold_opt lt_finalize [1..<?n] s1 = Some s2 \<and>
      (lt_ok s2 \<and> dfs_done cfg s2 \<and> lt_vertex s2 = lt_vertex ?s)"
  proof (rule fold_opt_total)
    show "lt_ok s1 \<and> dfs_done cfg s1 \<and> lt_vertex s1 = lt_vertex ?s" using s1 by simp
    fix i t assume "i \<in> set [1..<?n]" and "lt_ok t \<and> dfs_done cfg t \<and> lt_vertex t = lt_vertex ?s"
    with lt_finalize_ok [of t cfg i] show "\<exists>t'. lt_finalize i t = Some t' \<and>
        (lt_ok t' \<and> dfs_done cfg t' \<and> lt_vertex t' = lt_vertex ?s)" by auto
  qed
  with s1 dfs(3) v show ?thesis by (auto simp: lt_compute_def Let_def)
qed

end
