(* ===== verification/Dominator_Tree.thy ===== *)
theory Dominator_Tree
  imports Dominators_Lt
begin

text \<open>
  The tree as an abstract relation (\<open>idom_rel\<close>), the invariant of the node map (\<open>wf_tree\<close>), what the
  queries and traversals compute on such trees, and the theorem that \<open>build_dominator_tree\<close> returns
  one over exactly the reachable blocks.
\<close>

section \<open>Well-formed trees\<close>

definition idom_rel :: "dom_nodes \<Rightarrow> (block_id \<times> block_id) set" where
  "idom_rel nodes = {(b, p). idom_of nodes b = Some p}"

text \<open>\<open>a\<close> is on the way from \<open>b\<close> to the root.\<close>

definition tree_dom :: "dom_nodes \<Rightarrow> block_id \<Rightarrow> block_id \<Rightarrow> bool" where
  "tree_dom nodes a b \<longleftrightarrow> (b, a) \<in> (idom_rel nodes)\<^sup>*"

definition wf_tree :: "dom_nodes \<Rightarrow> bool" where
  "wf_tree nodes \<longleftrightarrow>
     finite (dom nodes) \<and> acyclic (idom_rel nodes) \<and>
     (\<forall>b p. idom_of nodes b = Some p \<longrightarrow> p \<in> dom nodes) \<and>
     (\<forall>p. distinct (children_of nodes p) \<and> sorted (children_of nodes p) \<and>
        set (children_of nodes p) = {b. idom_of nodes b = Some p})"

definition subtree :: "dom_nodes \<Rightarrow> block_id \<Rightarrow> block_id set" where
  "subtree nodes b = {c. tree_dom nodes b c}"

lemma idom_rel_iff [simp]: "(b, p) \<in> idom_rel nodes \<longleftrightarrow> idom_of nodes b = Some p"
  by (simp add: idom_rel_def)

lemma idom_of_dom: "idom_of nodes b = Some p \<Longrightarrow> b \<in> dom nodes"
  by (auto simp: idom_of_def split: option.splits)

lemma idom_of_node: "idom_of nodes b = Some p \<Longrightarrow> \<exists>n. nodes b = Some n"
  by (auto simp: idom_of_def split: option.splits)

lemma wf_treeD:
  assumes "wf_tree nodes"
  shows "finite (dom nodes)" "acyclic (idom_rel nodes)" "idom_of nodes b = Some p \<Longrightarrow> p \<in> dom nodes"
    "distinct (children_of nodes b)" "set (children_of nodes b) = {c. idom_of nodes c = Some b}"
  using assms unfolding wf_tree_def by blast+

lemma idom_rel_finite: "wf_tree nodes \<Longrightarrow> finite (idom_rel nodes)"
proof (rule finite_subset)
  assume wf: "wf_tree nodes"
  show "idom_rel nodes \<subseteq> dom nodes \<times> dom nodes"
    using wf_treeD(3) [OF wf] by (auto simp: idom_rel_def dest: idom_of_node)
  show "finite (dom nodes \<times> dom nodes)" using wf_treeD(1) [OF wf] by simp
qed

lemma idom_rel_wf: "wf_tree nodes \<Longrightarrow> wf (idom_rel nodes)" "wf_tree nodes \<Longrightarrow> wf ((idom_rel nodes)\<inverse>)"
  by (simp_all add: finite_acyclic_wf finite_acyclic_wf_converse idom_rel_finite wf_treeD(2))

lemma ranked_acyclic:
  assumes "\<And>b p. idom_of nodes b = Some p \<Longrightarrow> r p < (r b :: nat)"
  shows "acyclic (idom_rel nodes)"
proof -
  have "r y < r x" if "(x, y) \<in> (idom_rel nodes)\<^sup>+" for x y
    using that by (induction rule: trancl_induct) (use assms in \<open>fastforce+\<close>)
  then show ?thesis by (auto simp: acyclic_def)
qed

lemma tree_dom_refl [simp]: "tree_dom nodes b b"
  by (simp add: tree_dom_def)

lemma tree_dom_idom: "idom_of nodes b = Some p \<Longrightarrow> tree_dom nodes a b \<longleftrightarrow> a = b \<or> tree_dom nodes a p"
  unfolding tree_dom_def by (metis converse_rtranclE converse_rtrancl_into_rtrancl idom_rel_iff option.inject rtrancl.rtrancl_refl)

lemma tree_dom_root: "idom_of nodes b = None \<Longrightarrow> tree_dom nodes a b \<longleftrightarrow> a = b"
  unfolding tree_dom_def by (metis converse_rtranclE idom_rel_iff option.distinct(1) rtrancl.rtrancl_refl)

lemma tree_dom_trans: "tree_dom nodes a b \<Longrightarrow> tree_dom nodes b c \<Longrightarrow> tree_dom nodes a c"
  unfolding tree_dom_def by simp

lemma tree_dom_antisym:
  assumes "wf_tree nodes" and "tree_dom nodes a b" and "tree_dom nodes b a"
  shows "a = b"
  using assms wf_treeD(2) [OF assms(1)] unfolding tree_dom_def by (metis acyclic_def rtranclD rtrancl_trancl_trancl)

section \<open>Walking up\<close>

lemma dominates_walk_eq:
  assumes wf: "wf_tree nodes"
  shows "dominates_walk nodes a b =
    Some (case idom_of nodes b of None \<Rightarrow> False | Some p \<Rightarrow> tree_dom nodes a p)"
proof (induction b rule: wf_induct_rule [OF idom_rel_wf(2) [OF wf]])
  case (1 b)
  show ?case
  proof (cases "idom_of nodes b")
    case None
    then show ?thesis by (simp add: dominates_walk.simps)
  next
    case (Some p)
    with 1 have "dominates_walk nodes a p =
        Some (case idom_of nodes p of None \<Rightarrow> False | Some q \<Rightarrow> tree_dom nodes a q)"
      by simp
    with Some show ?thesis
      by (cases "idom_of nodes p") (auto simp: dominates_walk.simps tree_dom_root tree_dom_idom)
  qed
qed

lemma dominates_eq:
  assumes "wf_tree (tree_nodes t)"
  shows "dominates t a b = Some (tree_dom (tree_nodes t) a b)"
  using dominates_walk_eq [OF assms]
  by (auto simp: dominates_def tree_dom_root tree_dom_idom split: option.splits)

section \<open>Walking down\<close>

lemma subtree_eq:
  assumes wf: "wf_tree nodes"
  shows "subtree nodes b = insert b (\<Union>c \<in> set (children_of nodes b). subtree nodes c)"
proof -
  have "tree_dom nodes b c \<longleftrightarrow> c = b \<or> (\<exists>k. idom_of nodes k = Some b \<and> tree_dom nodes k c)" for c
    unfolding tree_dom_def by (metis idom_rel_iff rtrancl.simps)
  then show ?thesis by (auto simp: subtree_def wf_treeD(5) [OF wf])
qed

lemma subtree_finite: "wf_tree nodes \<Longrightarrow> finite (subtree nodes b)"
proof -
  assume wf: "wf_tree nodes"
  have "subtree nodes b \<subseteq> insert b (dom nodes)"
    by (auto simp: subtree_def tree_dom_def) (metis converse_rtranclE idom_of_node idom_rel_iff)
  then show ?thesis by (rule finite_subset) (simp add: wf_treeD(1) [OF wf])
qed

lemma tree_dom_linear:
  "tree_dom nodes a c \<Longrightarrow> tree_dom nodes b c \<Longrightarrow> tree_dom nodes a b \<or> tree_dom nodes b a"
proof -
  assume a: "tree_dom nodes a c" and b: "tree_dom nodes b c"
  have "single_valued (idom_rel nodes)" by (auto simp: single_valued_def)
  with a b show ?thesis unfolding tree_dom_def by (metis single_valued_confluent)
qed

lemma subtree_mset:
  assumes wf: "wf_tree nodes"
  shows "mset_set (subtree nodes b) =
    add_mset b (\<Sum>c \<in># mset (children_of nodes b). mset_set (subtree nodes c))"
proof -
  let ?cs = "children_of nodes b"
  have idom: "idom_of nodes c = Some b" if "c \<in> set ?cs" for c using that wf_treeD(5) [OF wf] by simp
  have not_self: "b \<notin> subtree nodes c" if "c \<in> set ?cs" for c
  proof
    assume "b \<in> subtree nodes c"
    then have "tree_dom nodes c b" by (simp add: subtree_def)
    moreover have "tree_dom nodes b c" using tree_dom_idom [OF idom [OF that]] by simp
    ultimately have "c = b" using tree_dom_antisym [OF wf] by blast
    with idom [OF that] have "(b, b) \<in> (idom_rel nodes)\<^sup>+" by (intro r_into_trancl) simp
    with wf_treeD(2) [OF wf] show False by (simp add: acyclic_def)
  qed
  have disj: "subtree nodes c \<inter> subtree nodes d = {}" if "c \<in> set ?cs" "d \<in> set ?cs" "c \<noteq> d" for c d
  proof (rule ccontr)
    assume "subtree nodes c \<inter> subtree nodes d \<noteq> {}"
    then have "tree_dom nodes c d \<or> tree_dom nodes d c"
      using tree_dom_linear by (auto simp: subtree_def)
    then have "tree_dom nodes c b \<or> tree_dom nodes d b"
      using that tree_dom_idom [OF idom [OF that(1)]] tree_dom_idom [OF idom [OF that(2)]] by auto
    with not_self that(1,2) show False by (auto simp: subtree_def)
  qed
  have union: "mset_set (\<Union>c \<in> set cs. subtree nodes c) = (\<Sum>c \<in># mset cs. mset_set (subtree nodes c))"
    if "distinct cs" "set cs \<subseteq> set ?cs" for cs
    using that
  proof (induction cs)
    case (Cons c cs)
    then have "subtree nodes c \<inter> (\<Union>d \<in> set cs. subtree nodes d) = {}" using disj by fastforce
    with Cons show ?case by (simp add: mset_set_Union subtree_finite [OF wf])
  qed simp
  have "b \<notin> (\<Union>c \<in> set ?cs. subtree nodes c)" using not_self by blast
  then show ?thesis
    using union [OF wf_treeD(4) [OF wf] order_refl]
    by (subst subtree_eq [OF wf]) (simp add: subtree_finite [OF wf])
qed

text \<open>
  A worklist of blocks whose children replace it: induction over the multiset of its blocks.
\<close>

lemma worklist_induct [consumes 1, case_names work]:
  assumes wf: "wf_tree nodes"
    and step: "\<And>M. (\<And>N. (N, M) \<in> mult1 (idom_rel nodes) \<Longrightarrow> P N) \<Longrightarrow> P M"
  shows "P M"
  using wf_mult1 [OF idom_rel_wf(1) [OF wf]] by (induction M rule: wf_induct_rule) (rule step)

lemma worklist_step:
  "wf_tree nodes \<Longrightarrow> (M + mset (children_of nodes b), add_mset b M) \<in> mult1 (idom_rel nodes)"
  by (rule mult1I [of _ b M]) (auto simp: wf_treeD(5))

lemma dominated_walk_eq:
  assumes wf: "wf_tree nodes"
  shows "\<exists>res. dominated_walk nodes st result = Some (result @ res) \<and>
    mset res = (\<Sum>b \<in># mset st. mset_set (subtree nodes b))"
  using wf
proof (induction "mset st" arbitrary: st result rule: worklist_induct)
  case (work st)
  show ?case
  proof (cases "st = []")
    case True
    then show ?thesis by (simp add: dominated_walk.simps)
  next
    case False
    let ?b = "last st" and ?st = "butlast st @ children_of nodes (last st)"
    have st: "mset st = add_mset ?b (mset (butlast st))"
      using False by (metis append_butlast_last_id mset.simps(2) mset_append mset_single_iff_right
          union_mset_add_mset_right add.right_neutral mset.simps(1))
    have "(mset ?st, mset st) \<in> mult1 (idom_rel nodes)"
      unfolding st mset_append by (rule worklist_step [OF wf])
    from work [OF this, of "result @ [?b]"] obtain res where
      res: "dominated_walk nodes ?st (result @ [?b]) = Some ((result @ [?b]) @ res)"
        "mset res = (\<Sum>b \<in># mset ?st. mset_set (subtree nodes b))" by blast
    with False st subtree_mset [OF wf, of ?b] show ?thesis
      by (intro exI [of _ "?b # res"]) (simp add: dominated_walk.simps)
  qed
qed

lemma mset_subtree_list:
  assumes "wf_tree nodes" and "mset res = mset_set (subtree nodes b)"
  shows "distinct res" "set res = subtree nodes b"
proof -
  show "set res = subtree nodes b"
    using assms subtree_finite by (metis finite_set_mset_mset_set set_mset_mset)
  have "mset res = mset_set (set res)"
    using assms(2) \<open>set res = subtree nodes b\<close> by simp
  then show "distinct res" by (metis distinct_count_atmost_1 finite_set count_mset_set)
qed

lemma dominated_by_eq:
  assumes wf: "wf_tree (tree_nodes t)"
  shows "\<exists>res. dominated_by t b = Some res \<and> distinct res \<and> set res = {c. tree_dom (tree_nodes t) b c}"
proof -
  obtain res where res: "dominated_walk (tree_nodes t) [b] [] = Some ([] @ res)"
    "mset res = mset_set (subtree (tree_nodes t) b)"
    using dominated_walk_eq [OF wf, of "[b]" "[]"] by auto
  with mset_subtree_list [OF wf res(2)] show ?thesis
    by (simp add: dominated_by_def subtree_def)
qed

section \<open>Traversals and depths\<close>

lemma compute_traversals_eq:
  assumes wf: "wf_tree nodes"
  shows "\<exists>pre post. compute_traversals nodes st preorder postorder = Some (preorder @ pre, postorder @ post) \<and>
    mset pre = (\<Sum>b \<in># mset (map fst (filter (Not \<circ> snd) st)). mset_set (subtree nodes b)) \<and>
    mset post = mset pre + mset (map fst (filter snd st))"
  using wf
proof (induction "mset (map fst (filter (Not \<circ> snd) st))" arbitrary: st preorder postorder rule: worklist_induct)
  case (work st)
  let ?open = "\<lambda>st. mset (map fst (filter (Not \<circ> snd) st))"
  have "\<exists>pre post. compute_traversals nodes rest preorder postorder = Some (preorder @ pre, postorder @ post) \<and>
      mset pre = (\<Sum>b \<in># ?open rest. mset_set (subtree nodes b)) \<and>
      mset post = mset pre + mset (map fst (filter snd rest))"
    if "?open rest = ?open st" for rest
    using that
  proof (induction rest arbitrary: preorder postorder)
    case Nil
    then show ?case by (simp add: compute_traversals.simps)
  next
    case (Cons e rest)
    obtain b f where e: "e = (b, f)" by (cases e)
    show ?case
    proof (cases f)
      case True
      with Cons.IH [of preorder "postorder @ [b]"] Cons.prems e obtain pre post where
        "compute_traversals nodes rest preorder (postorder @ [b]) = Some (preorder @ pre, (postorder @ [b]) @ post)"
        "mset pre = (\<Sum>b \<in># ?open rest. mset_set (subtree nodes b))"
        "mset post = mset pre + mset (map fst (filter snd rest))" by auto
      with True e show ?thesis
        by (intro exI [of _ pre] exI [of _ "b # post"]) (simp add: compute_traversals.simps)
    next
      case False
      let ?cs = "children_of nodes b"
      let ?st = "map (\<lambda>c. (c, False)) ?cs @ (b, True) # rest"
      have op: "?open ?st = ?open rest + mset ?cs" "?open st = add_mset b (?open rest)"
        using Cons.prems e False by (simp_all add: filter_map comp_def)
      then have "(?open ?st, ?open st) \<in> mult1 (idom_rel nodes)" by (simp only: worklist_step [OF wf])
      from work [OF this, of "preorder @ [b]" postorder] obtain pre post where
        r: "compute_traversals nodes ?st (preorder @ [b]) postorder = Some ((preorder @ [b]) @ pre, postorder @ post)"
          "mset pre = (\<Sum>b \<in># ?open ?st. mset_set (subtree nodes b))"
          "mset post = mset pre + mset (map fst (filter snd ?st))" by blast
      have "mset (b # pre) = (\<Sum>b \<in># ?open (e # rest). mset_set (subtree nodes b))"
        using r(2) op(1) e False subtree_mset [OF wf, of b] by simp
      moreover have "mset post = mset (b # pre) + mset (map fst (filter snd (e # rest)))"
        using r(3) e False by (simp add: filter_map comp_def)
      ultimately show ?thesis
        using r(1) e False by (intro exI [of _ "b # pre"] exI [of _ post]) (simp add: compute_traversals.simps)
    qed
  qed
  then show ?case by blast
qed

text \<open>Two node maps that differ in the depths only.\<close>

definition same_tree :: "dom_nodes \<Rightarrow> dom_nodes \<Rightarrow> bool" where
  "same_tree nodes nodes' \<longleftrightarrow>
     (\<forall>b. map_option (\<lambda>n. n\<lparr>node_depth := 0\<rparr>) (nodes' b) = map_option (\<lambda>n. n\<lparr>node_depth := 0\<rparr>) (nodes b))"

lemma same_tree_refl [simp]: "same_tree nodes nodes"
  by (simp add: same_tree_def)

lemma node_depth_twice: "n\<lparr>node_depth := d\<rparr>\<lparr>node_depth := e\<rparr> = n\<lparr>node_depth := e\<rparr>"
  by simp

lemma same_tree_upd:
  assumes "same_tree nodes0 nodes" and "nodes b = Some n"
  shows "same_tree nodes0 (nodes(b \<mapsto> n\<lparr>node_depth := d\<rparr>))"
  unfolding same_tree_def
proof
  fix c
  show "map_option (\<lambda>n. n\<lparr>node_depth := 0\<rparr>) ((nodes(b \<mapsto> n\<lparr>node_depth := d\<rparr>)) c) =
      map_option (\<lambda>n. n\<lparr>node_depth := 0\<rparr>) (nodes0 c)"
  proof (cases "c = b")
    case True
    with assms show ?thesis unfolding same_tree_def by (metis fun_upd_same node_depth_twice option.simps(9))
  next
    case False
    with assms show ?thesis unfolding same_tree_def by simp
  qed
qed

lemma same_tree_sel:
  assumes "same_tree nodes nodes'"
  shows "idom_of nodes' = idom_of nodes" "children_of nodes' = children_of nodes" "dom nodes' = dom nodes"
proof -
  have eq: "map_option (\<lambda>n. n\<lparr>node_depth := 0\<rparr>) (nodes' b) = map_option (\<lambda>n. n\<lparr>node_depth := 0\<rparr>) (nodes b)" for b
    using assms by (simp add: same_tree_def)
  have idom: "idom_of m b = (case map_option (\<lambda>n. n\<lparr>node_depth := 0\<rparr>) (m b) of None \<Rightarrow> None | Some n \<Rightarrow> node_idom n)"
    for m b by (simp add: idom_of_def split: option.split)
  have ch: "children_of m b = (case map_option (\<lambda>n. n\<lparr>node_depth := 0\<rparr>) (m b) of None \<Rightarrow> [] | Some n \<Rightarrow> node_children n)"
    for m b by (simp add: children_of_def split: option.split)
  show "idom_of nodes' = idom_of nodes" by (rule ext) (simp only: idom eq)
  show "children_of nodes' = children_of nodes" by (rule ext) (simp only: ch eq)
  have "nodes' b = None \<longleftrightarrow> nodes b = None" for b using eq [of b] by (metis map_option_is_None)
  then show "dom nodes' = dom nodes" by (auto simp: dom_def)
qed

lemma same_tree_wf: "same_tree nodes nodes' \<Longrightarrow> wf_tree nodes' = wf_tree nodes"
  using same_tree_sel [of nodes nodes'] by (simp add: wf_tree_def idom_rel_def)

text \<open>The stored depth is the number of steps to the root.\<close>

definition depth_ok :: "dom_nodes \<Rightarrow> block_id \<Rightarrow> dom_nodes \<Rightarrow> block_id \<Rightarrow> bool" where
  "depth_ok nodes0 root nodes c \<longleftrightarrow>
     (\<exists>n. nodes c = Some n \<and> (c, root) \<in> idom_rel nodes0 ^^ node_depth n)"

lemma compute_depths_eq:
  assumes wf: "wf_tree nodes0" and "same_tree nodes0 nodes"
    and "\<forall>(b, d) \<in> set queue. (b, root) \<in> idom_rel nodes0 ^^ d"
  shows "\<exists>nodes'. compute_depths queue nodes = Some nodes' \<and> same_tree nodes0 nodes' \<and>
    (\<forall>c. depth_ok nodes0 root nodes c \<or>
         (c \<in> dom nodes0 \<and> (\<exists>b \<in> fst ` set queue. c \<in> subtree nodes0 b)) \<longrightarrow> depth_ok nodes0 root nodes' c)"
  using assms
proof (induction "mset (map fst queue)" arbitrary: queue nodes rule: worklist_induct)
  case (work queue)
  show ?case
  proof (cases queue)
    case Nil
    with work.prems show ?thesis by (simp add: compute_depths.simps)
  next
    case (Cons e rest)
    obtain b d where e: "e = (b, d)" by (cases e)
    have bd: "(b, root) \<in> idom_rel nodes0 ^^ d" using work.prems(2) Cons e by simp
    let ?cs = "children_of nodes0 b"
    let ?q = "rest @ map (\<lambda>c. (c, d + 1)) ?cs"
    let ?nodes = "case nodes b of None \<Rightarrow> nodes | Some n \<Rightarrow> nodes(b \<mapsto> n\<lparr>node_depth := d\<rparr>)"
    have none: "?cs = [] \<and> b \<notin> dom nodes0" if "nodes b = None"
    proof -
      have "b \<notin> dom nodes0" using that same_tree_sel(3) [OF work.prems(1)] by auto
      then show ?thesis by (simp add: children_of_def domIff)
    qed
    have "node_children n = ?cs" if "nodes b = Some n" for n
      using that fun_cong [OF same_tree_sel(2) [OF work.prems(1)], of b] by (simp add: children_of_def)
    then have step: "compute_depths queue nodes = compute_depths ?q ?nodes"
      using none by (cases "nodes b") (simp_all add: compute_depths.simps [of "(b, d) # rest"] Cons e)
    have "(mset (map fst ?q), mset (map fst queue)) \<in> mult1 (idom_rel nodes0)"
      using worklist_step [OF wf, of "mset (map fst rest)" b] by (simp add: Cons e comp_def)
    moreover have "same_tree nodes0 ?nodes"
      using work.prems(1) same_tree_upd by (auto split: option.split)
    moreover have "(c, root) \<in> idom_rel nodes0 ^^ (d + 1)" if "c \<in> set ?cs" for c
      using that bd wf_treeD(5) [OF wf, of b] relpow_Suc_I2 [of c b "idom_rel nodes0" root d] by simp
    then have "\<forall>(b, d) \<in> set ?q. (b, root) \<in> idom_rel nodes0 ^^ d"
      using work.prems(2) Cons by auto
    ultimately obtain nodes' where n': "compute_depths ?q ?nodes = Some nodes'" "same_tree nodes0 nodes'"
      "\<And>c. depth_ok nodes0 root ?nodes c \<or>
         (c \<in> dom nodes0 \<and> (\<exists>b \<in> fst ` set ?q. c \<in> subtree nodes0 b)) \<Longrightarrow> depth_ok nodes0 root nodes' c"
      using work.hyps by blast
    have "depth_ok nodes0 root nodes' c"
      if c: "depth_ok nodes0 root nodes c \<or>
         (c \<in> dom nodes0 \<and> (\<exists>b \<in> fst ` set queue. c \<in> subtree nodes0 b))" for c
    proof (rule n'(3), cases "c = b \<and> c \<in> dom nodes0")
      case True
      then have "nodes b \<noteq> None" using same_tree_sel(3) [OF work.prems(1)] by auto
      with True bd show "depth_ok nodes0 root ?nodes c \<or>
          (c \<in> dom nodes0 \<and> (\<exists>b \<in> fst ` set ?q. c \<in> subtree nodes0 b))"
        by (auto simp: depth_ok_def)
    next
      case False
      from c show "depth_ok nodes0 root ?nodes c \<or>
          (c \<in> dom nodes0 \<and> (\<exists>b \<in> fst ` set ?q. c \<in> subtree nodes0 b))"
      proof
        assume d: "depth_ok nodes0 root nodes c"
        then have "c \<in> dom nodes0" using same_tree_sel(3) [OF work.prems(1)] by (auto simp: depth_ok_def)
        with False d show ?thesis by (auto simp: depth_ok_def split: option.split)
      next
        assume "c \<in> dom nodes0 \<and> (\<exists>b \<in> fst ` set queue. c \<in> subtree nodes0 b)"
        with False subtree_eq [OF wf, of b] show ?thesis by (auto simp: Cons e image_Un image_image)
      qed
    qed
    with step n' show ?thesis by auto
  qed
qed

section \<open>The tree that is built\<close>

lemma nodes_with_idom_eq:
  "nodes_with_idom entry s b =
    (if b \<in> set (lt_vertex s)
     then Some \<lparr>node_block_id = b, node_idom = (if b = entry then None else lt_idom s b),
       node_children = [], node_depth = 0\<rparr> else None)"
proof -
  have "fold (\<lambda>block nodes. nodes(block \<mapsto> f block)) vs m b = (if b \<in> set vs then Some (f b) else m b)"
    for f :: "block_id \<Rightarrow> dominator_node" and vs and m :: dom_nodes
    by (induction vs arbitrary: m) auto
  then show ?thesis by (simp add: nodes_with_idom_def)
qed

lemma push_child_sel:
  assumes "\<And>b p. idom_of nodes b = Some p \<Longrightarrow> p \<in> dom nodes"
  shows "idom_of (push_child v nodes) = idom_of nodes" "dom (push_child v nodes) = dom nodes"
    "children_of (push_child v nodes) p =
       children_of nodes p @ (if idom_of nodes v = Some p then [v] else [])"
  using assms [of v]
  by (auto simp: push_child_def idom_of_def children_of_def fun_eq_iff split: option.splits)

lemma push_children_sel:
  assumes "\<And>b p. idom_of nodes b = Some p \<Longrightarrow> p \<in> dom nodes"
  shows "idom_of (fold push_child vs nodes) = idom_of nodes \<and>
    dom (fold push_child vs nodes) = dom nodes \<and>
    (\<forall>p. children_of (fold push_child vs nodes) p =
       children_of nodes p @ filter (\<lambda>v. idom_of nodes v = Some p) vs)"
  using assms
proof (induction vs arbitrary: nodes)
  case (Cons v vs)
  note sel = push_child_sel [OF Cons.prems]
  have "\<And>b p. idom_of (push_child v nodes) b = Some p \<Longrightarrow> p \<in> dom (push_child v nodes)"
    using Cons.prems sel by simp
  from Cons.IH [OF this] show ?case using sel by simp
qed simp

lemma nodes_with_children_sel:
  fixes nodes :: dom_nodes
  assumes "\<And>b p. idom_of nodes b = Some p \<Longrightarrow> p \<in> dom nodes"
  shows "idom_of (nodes_with_children vs nodes) = idom_of nodes"
    "dom (nodes_with_children vs nodes) = dom nodes"
    "children_of (nodes_with_children vs nodes) p =
       sort (children_of nodes p @ filter (\<lambda>v. idom_of nodes v = Some p) vs)"
proof -
  have sel: "idom_of (fold push_child vs nodes) = idom_of nodes"
    "dom (fold push_child vs nodes) = dom nodes"
    "children_of (fold push_child vs nodes) p =
       children_of nodes p @ filter (\<lambda>v. idom_of nodes v = Some p) vs"
    using push_children_sel [of nodes vs] assms by blast+
  have "idom_of (nodes_with_children vs nodes) = idom_of (fold push_child vs nodes)"
    by (rule ext) (simp add: idom_of_def nodes_with_children_def split: option.split)
  then show "idom_of (nodes_with_children vs nodes) = idom_of nodes" using sel(1) by simp
  show "dom (nodes_with_children vs nodes) = dom nodes"
    using sel(2) by (auto simp: nodes_with_children_def dom_def)
  have "children_of (nodes_with_children vs nodes) p = sort (children_of (fold push_child vs nodes) p)"
    by (simp add: children_of_def nodes_with_children_def split: option.split)
  then show "children_of (nodes_with_children vs nodes) p =
       sort (children_of nodes p @ filter (\<lambda>v. idom_of nodes v = Some p) vs)"
    using sel(3) by simp
qed

lemma built_nodes_wf:
  fixes entry :: block_id
  assumes ok: "lt_ok s"
  defines "nodes \<equiv> nodes_with_children (lt_vertex s) (nodes_with_idom entry s)"
  shows "wf_tree nodes" "dom nodes = set (lt_vertex s)"
    "idom_of nodes b = (if b \<in> set (lt_vertex s) \<and> b \<noteq> entry then lt_idom s b else None)"
proof -
  let ?n0 = "nodes_with_idom entry s"
  have idom0: "idom_of ?n0 b = (if b \<in> set (lt_vertex s) \<and> b \<noteq> entry then lt_idom s b else None)" for b
    by (simp add: idom_of_def nodes_with_idom_eq)
  have dom0: "dom ?n0 = set (lt_vertex s)" by (auto simp: nodes_with_idom_eq dom_def)
  have in_dom: "p \<in> dom ?n0" if "idom_of ?n0 b = Some p" for b p
    using that lt_okD(6) [OF ok] dom0 by (simp add: idom0 split: if_splits)
  note sel = nodes_with_children_sel [of ?n0 "lt_vertex s", OF in_dom, folded nodes_def]
  have ch0: "children_of ?n0 p = []" for p by (simp add: children_of_def nodes_with_idom_eq)
  show "dom nodes = set (lt_vertex s)" using sel(2) dom0 by simp
  show "idom_of nodes b = (if b \<in> set (lt_vertex s) \<and> b \<noteq> entry then lt_idom s b else None)" for b
    using sel(1) idom0 by simp
  have "acyclic (idom_rel nodes)"
    by (rule ranked_acyclic [where r = "num s"])
      (use sel(1) idom0 lt_okD(6) [OF ok] in \<open>auto split: if_splits\<close>)
  moreover have "distinct (lt_vertex s)" using lt_okD(1) [OF ok] by (simp add: numbering_def)
  moreover have "set (filter (\<lambda>v. idom_of ?n0 v = Some p) (lt_vertex s)) = {b. idom_of ?n0 b = Some p}" for p
    by (auto simp: idom0 split: if_splits)
  ultimately show "wf_tree nodes"
    using sel in_dom ch0 dom0 by (simp add: wf_tree_def)
qed

theorem build_dominator_tree_wf:
  assumes "cfg_blocks cfg \<noteq> []"
  shows "\<exists>t. build_dominator_tree cfg = Some (Inr t) \<and> wf_tree (tree_nodes t) \<and>
    dom (tree_nodes t) = (flow cfg)\<^sup>* `` {entry_block cfg} \<and> tree_entry t = entry_block cfg \<and>
    idom_of (tree_nodes t) (entry_block cfg) = None \<and>
    distinct (tree_preorder t) \<and> set (tree_preorder t) = {b. tree_dom (tree_nodes t) (entry_block cfg) b} \<and>
    mset (tree_postorder t) = mset (tree_preorder t) \<and>
    (\<forall>b n. tree_nodes t b = Some n \<longrightarrow> tree_dom (tree_nodes t) (entry_block cfg) b \<longrightarrow>
       (b, entry_block cfg) \<in> idom_rel (tree_nodes t) ^^ node_depth n)"
proof -
  let ?e = "entry_block cfg"
  obtain s where s: "lt_compute cfg = Some s" "lt_ok s" "dfs_done cfg s" using lt_compute_total by blast
  let ?n0 = "nodes_with_children (lt_vertex s) (nodes_with_idom ?e s)"
  note built = built_nodes_wf [OF s(2), of ?e]
  have "\<forall>(b, d) \<in> set [(?e, 0)]. (b, ?e) \<in> idom_rel ?n0 ^^ d" by simp
  from compute_depths_eq [OF built(1) same_tree_refl this] obtain nodes where
    d: "compute_depths [(?e, 0)] ?n0 = Some nodes" "same_tree ?n0 nodes"
      "\<And>c. c \<in> dom ?n0 \<Longrightarrow> c \<in> subtree ?n0 ?e \<Longrightarrow> depth_ok ?n0 ?e nodes c" by auto
  have wf: "wf_tree nodes" using built(1) same_tree_wf [OF d(2)] by simp
  note sel = same_tree_sel [OF d(2)]
  have rel: "idom_rel nodes = idom_rel ?n0" using sel(1) by (simp add: idom_rel_def)
  obtain pre post where tr: "compute_traversals nodes [(?e, False)] [] [] = Some (pre, post)"
    "mset pre = mset_set (subtree nodes ?e)" "mset post = mset pre"
    using compute_traversals_eq [OF wf, of "[(?e, False)]" "[]" "[]"] by auto
  have depth: "(b, ?e) \<in> idom_rel nodes ^^ node_depth n" if "nodes b = Some n" "tree_dom nodes ?e b" for b n
  proof -
    have "b \<in> dom ?n0" using that(1) sel(3) by auto
    moreover have "b \<in> subtree ?n0 ?e" using that(2) rel by (simp add: subtree_def tree_dom_def)
    ultimately have "depth_ok ?n0 ?e nodes b" by (rule d(3))
    then show ?thesis unfolding depth_ok_def rel [symmetric] using that(1) by simp
  qed
  have "dom nodes = (flow cfg)\<^sup>* `` {?e}" using sel(3) built(2) s(3) by (simp add: dfs_done_def)
  moreover have "idom_of nodes ?e = None" using sel(1) built(3) by simp
  ultimately show ?thesis
    using assms s(1) d(1) tr(1,3) wf mset_subtree_list [OF wf tr(2)] depth
    by (simp add: build_dominator_tree_def Let_def subtree_def)
qed

lemma find_back_edges_eq:
  assumes "cfg_blocks cfg \<noteq> []" and t: "build_dominator_tree cfg = Some (Inr t)" "wf_tree (tree_nodes t)"
  shows "find_back_edges cfg = Some {v. \<exists>u. (u, v) \<in> flow cfg \<and> tree_dom (tree_nodes t) v u}"
proof -
  define f where "f = (\<lambda>(e :: cfg_edge) headers. case dominates t (edge_to e) (edge_from e) of
      None \<Rightarrow> None | Some d \<Rightarrow> Some (if d then insert (edge_to e) headers else headers))"
  have "fold_opt f es hs = Some (hs \<union> {edge_to e |e. e \<in> set es \<and> tree_dom (tree_nodes t) (edge_to e) (edge_from e)})"
    for es hs
    by (induction es arbitrary: hs) (auto simp: f_def dominates_eq [OF t(2)])
  moreover have "find_back_edges cfg = fold_opt f (cfg_edges cfg) {}"
    using assms by (simp add: find_back_edges_def f_def)
  moreover have "{edge_to e |e. e \<in> set (cfg_edges cfg) \<and> tree_dom (tree_nodes t) (edge_to e) (edge_from e)} =
      {v. \<exists>u. (u, v) \<in> flow cfg \<and> tree_dom (tree_nodes t) v u}"
    unfolding flow_def by blast
  ultimately show ?thesis by simp
qed

end
