(* ===== verification/Dominance_Frontier.thy ===== *)
theory Dominance_Frontier
  imports Dominator_Tree
begin

text \<open>
  What \<open>compute_dominance_frontier\<close> and \<open>compute_iterated_df\<close> of \<open>ssa/dominators.rs\<close> compute on a
  well-formed tree: the walk from a predecessor of a join point stops below the immediate dominator
  of the join point, so a block collects the join points it does not dominate; the work list computes
  the transitive closure.
\<close>

section \<open>The walk to the immediate dominator\<close>

definition walk_stops :: "dom_nodes \<Rightarrow> block_id \<Rightarrow> block_id \<Rightarrow> bool" where
  "walk_stops nodes y runner \<longleftrightarrow> idom_of nodes y = Some runner \<or> runner = y"

inductive visits :: "dom_nodes \<Rightarrow> block_id \<Rightarrow> block_id \<Rightarrow> block_id \<Rightarrow> bool" for nodes y where
  here: "\<not> walk_stops nodes y r \<Longrightarrow> visits nodes y r r"
| up: "\<lbrakk>\<not> walk_stops nodes y r; idom_of nodes r = Some p; visits nodes y p b\<rbrakk> \<Longrightarrow> visits nodes y r b"

inductive_cases visits_elim: "visits nodes y r b"

lemma visits_step:
  "\<not> walk_stops nodes y r \<Longrightarrow>
     visits nodes y r b \<longleftrightarrow> b = r \<or> (case idom_of nodes r of None \<Rightarrow> False | Some p \<Rightarrow> visits nodes y p b)"
  by (auto intro: visits.intros elim: visits_elim split: option.splits)

lemma visits_stop: "walk_stops nodes y r \<Longrightarrow> \<not> visits nodes y r b"
  by (auto elim: visits_elim)

lemma get_set_frontier_insert:
  "get_set (frontier_insert r y f) b = get_set f b \<union> (if b = r \<and> r \<in> dom f then {y} else {})"
  by (auto simp: frontier_insert_def get_set_def split: option.splits)

lemma dom_frontier_insert [simp]: "dom (frontier_insert r y f) = dom f"
  by (auto simp: frontier_insert_def split: option.splits)

text \<open>What one loop adds to the frontiers: \<open>A b y\<close> says that \<open>y\<close> joins the frontier of \<open>b\<close>.\<close>

definition extends :: "(block_id \<Rightarrow> block_id \<Rightarrow> bool) \<Rightarrow> frontiers \<Rightarrow> frontiers \<Rightarrow> bool" where
  "extends A f f' \<longleftrightarrow> dom f' = dom f \<and> (\<forall>b. get_set f' b = get_set f b \<union> {y. A b y \<and> b \<in> dom f})"

lemma extends_refl: "extends (\<lambda>b y. False) f f"
  by (simp add: extends_def)

lemma extends_trans:
  "extends A f f' \<Longrightarrow> extends A' f' f'' \<Longrightarrow> extends (\<lambda>b y. A b y \<or> A' b y) f f''"
  by (auto simp: extends_def)

lemma extends_cong: "extends A f f' \<Longrightarrow> (\<And>b y. A b y \<longleftrightarrow> A' b y) \<Longrightarrow> extends A' f f'"
  by (simp add: extends_def)

lemma df_walk_extends:
  "df_walk nodes mx y r (n, f) = Inr (n', f') \<Longrightarrow> extends (\<lambda>b z. z = y \<and> visits nodes y r b) f f'"
proof (induction nodes mx y r "(n, f)" arbitrary: n f rule: df_walk.induct)
  case (1 nodes mx y r n f)
  show ?case
  proof (cases "walk_stops nodes y r")
    case True
    with "1.prems" have "f' = f" by (auto simp: walk_stops_def Let_def split: if_splits)
    then show ?thesis using True visits_stop by (auto simp: extends_def)
  next
    case False
    let ?f = "frontier_insert r y f"
    have ins: "extends (\<lambda>b z. z = y \<and> b = r) f ?f"
      by (auto simp: extends_def get_set_frontier_insert)
    from False "1.prems" have n: "\<not> mx < n + 1" by (auto simp: Let_def split: if_splits)
    show ?thesis
    proof (cases "idom_of nodes r")
      case None
      with False n "1.prems" have "f' = ?f" by (auto simp: walk_stops_def Let_def)
      with ins None False show ?thesis by (auto simp: extends_def visits_step)
    next
      case (Some p)
      with False n "1.prems" have r: "df_walk nodes mx y p (n + 1, ?f) = Inr (n', f')"
        by (auto simp: walk_stops_def Let_def)
      have "extends (\<lambda>b z. z = y \<and> visits nodes y p b) ?f f'"
        by (rule "1.hyps" [OF refl _ _ _ refl Some r]) (use n False in \<open>auto simp: walk_stops_def\<close>)
      from extends_trans [OF ins this] show ?thesis
        by (rule extends_cong) (use False Some in \<open>auto simp: visits_step\<close>)
    qed
  qed
qed

lemma df_preds_extends:
  "df_preds nodes mx y preds s = Inr s' \<Longrightarrow>
     extends (\<lambda>b z. z = y \<and> (\<exists>p \<in> set preds. p \<in> dom nodes \<and> visits nodes y p b)) (snd s) (snd s')"
proof (induction preds arbitrary: s)
  case Nil
  then show ?case using extends_refl by simp
next
  case (Cons p preds)
  show ?case
  proof (cases "nodes p")
    case None
    with Cons have "extends (\<lambda>b z. z = y \<and> (\<exists>p \<in> set preds. p \<in> dom nodes \<and> visits nodes y p b)) (snd s) (snd s')"
      by simp
    then show ?thesis by (rule extends_cong) (use None in auto)
  next
    case (Some node)
    then obtain n1 f1 where w: "df_walk nodes mx y p s = Inr (n1, f1)" "df_preds nodes mx y preds (n1, f1) = Inr s'"
      using Cons.prems by (auto split: sum.splits)
    obtain n f where s: "s = (n, f)" by (cases s)
    from extends_trans [OF df_walk_extends [OF w(1) [unfolded s]] Cons.IH [OF w(2), unfolded snd_conv]]
    show ?thesis unfolding s snd_conv by (rule extends_cong) (use Some in auto)
  qed
qed

lemma df_blocks_extends:
  "df_blocks nodes mx preds blocks s = Inr s' \<Longrightarrow>
     extends (\<lambda>b y. y \<in> blk_id ` set blocks \<and> 2 \<le> length (get_list preds y) \<and>
       (\<exists>p \<in> set (get_list preds y). p \<in> dom nodes \<and> visits nodes y p b)) (snd s) (snd s')"
proof (induction blocks arbitrary: s)
  case Nil
  then show ?case using extends_refl by simp
next
  case (Cons blk blocks)
  show ?case
  proof (cases "length (get_list preds (blk_id blk)) < 2")
    case True
    with Cons have "extends (\<lambda>b y. y \<in> blk_id ` set blocks \<and> 2 \<le> length (get_list preds y) \<and>
       (\<exists>p \<in> set (get_list preds y). p \<in> dom nodes \<and> visits nodes y p b)) (snd s) (snd s')"
      by (simp add: Let_def)
    then show ?thesis by (rule extends_cong) (use True in auto)
  next
    case False
    then obtain s1 where w: "df_preds nodes mx (blk_id blk) (get_list preds (blk_id blk)) s = Inr s1"
        "df_blocks nodes mx preds blocks s1 = Inr s'"
      using Cons.prems by (auto simp: Let_def split: sum.splits)
    from extends_trans [OF df_preds_extends [OF w(1)] Cons.IH [OF w(2)]] show ?thesis
      by (rule extends_cong) (use False in auto)
  qed
qed

section \<open>Dominance frontiers\<close>

text \<open>
  The property of dominator trees the walk relies on: the immediate dominator of a block dominates
  its predecessors.
\<close>

definition parent_property :: "cfg_info \<Rightarrow> dom_nodes \<Rightarrow> bool" where
  "parent_property cfg nodes \<longleftrightarrow>
     (\<forall>p y q. (p, y) \<in> flow cfg \<longrightarrow> p \<in> dom nodes \<longrightarrow> idom_of nodes y = Some q \<longrightarrow> tree_dom nodes q p)"

lemma visits_below_idom:
  assumes wf: "wf_tree nodes"
  shows "visits nodes y r b \<Longrightarrow> idom_of nodes y = Some q \<Longrightarrow> tree_dom nodes q r \<Longrightarrow> \<not> tree_dom nodes b q"
proof (induction rule: visits.induct)
  case (here r)
  then show ?case using tree_dom_antisym [OF wf] by (auto simp: walk_stops_def)
next
  case (up r p b)
  then have "tree_dom nodes q p" using tree_dom_idom [of nodes r p q] by (auto simp: walk_stops_def)
  with up show ?case by blast
qed

lemma visits_above:
  assumes "tree_dom nodes b p" and "\<not> tree_dom nodes b y"
  shows "visits nodes y p b"
  using assms(1) unfolding tree_dom_def
proof (induction rule: converse_rtrancl_induct)
  case base
  have "\<not> walk_stops nodes y b"
    using assms(2) tree_dom_idom [of nodes y b b] by (auto simp: walk_stops_def)
  then show ?case by (rule visits.here)
next
  case (step r p)
  then have br: "tree_dom nodes b r"
    unfolding tree_dom_def by (metis converse_rtrancl_into_rtrancl)
  then have "\<not> walk_stops nodes y r"
    using assms(2) tree_dom_idom [of nodes y r b] by (auto simp: walk_stops_def)
  with step show ?case by (auto intro: visits.up)
qed

lemma visits_dom: "visits nodes y p b \<Longrightarrow> tree_dom nodes b p \<and> b \<noteq> y"
  by (induction rule: visits.induct) (auto simp: walk_stops_def tree_dom_idom)

lemma visits_iff:
  assumes wf: "wf_tree nodes" and parent: "parent_property cfg nodes"
    and edge: "(p, y) \<in> flow cfg" "p \<in> dom nodes"
  shows "visits nodes y p b \<longleftrightarrow> tree_dom nodes b p \<and> \<not> tree_dom nodes b y"
proof
  assume v: "visits nodes y p b"
  have "\<not> tree_dom nodes b y"
  proof (cases "idom_of nodes y")
    case None
    with visits_dom [OF v] show ?thesis by (simp add: tree_dom_root)
  next
    case (Some q)
    with parent edge have "tree_dom nodes q p" unfolding parent_property_def by blast
    with visits_below_idom [OF wf v Some] visits_dom [OF v] Some show ?thesis
      by (simp add: tree_dom_idom)
  qed
  with visits_dom [OF v] show "tree_dom nodes b p \<and> \<not> tree_dom nodes b y" by blast
qed (use visits_above in blast)

lemma build_predecessors_flow: "p \<in> set (get_list (build_predecessors cfg) y) \<longleftrightarrow> (p, y) \<in> flow cfg"
  by (auto simp: build_predecessors_eq flow_def)

lemma dominance_frontier_visits:
  assumes r: "compute_dominance_frontier cfg t = Inr f"
  shows "get_set f b = {y \<in> blk_id ` set (cfg_blocks cfg). b \<in> dom (tree_nodes t) \<and>
    2 \<le> length (get_list (build_predecessors cfg) y) \<and>
    (\<exists>p \<in> dom (tree_nodes t). (p, y) \<in> flow cfg \<and> visits (tree_nodes t) y p b)}"
proof -
  let ?nodes = "tree_nodes t" and ?preds = "build_predecessors cfg"
  let ?f0 = "(\<lambda>b. if ?nodes b = None then None else Some {}) :: frontiers"
  obtain n where "df_blocks ?nodes (card (dom ?nodes) * card (dom ?nodes)) ?preds (cfg_blocks cfg) (0, ?f0) = Inr (n, f)"
    using r by (auto simp: compute_dominance_frontier_def Let_def split: sum.splits)
  from df_blocks_extends [OF this]
  have "get_set f b = get_set ?f0 b \<union> {y. (y \<in> blk_id ` set (cfg_blocks cfg) \<and> 2 \<le> length (get_list ?preds y) \<and>
       (\<exists>p \<in> set (get_list ?preds y). p \<in> dom ?nodes \<and> visits ?nodes y p b)) \<and> b \<in> dom ?f0}"
    by (simp only: extends_def snd_conv)
  moreover have "get_set ?f0 b = {}" "b \<in> dom ?f0 \<longleftrightarrow> b \<in> dom ?nodes" by (auto simp: get_set_def split: if_splits)
  ultimately show ?thesis unfolding Bex_def build_predecessors_flow by auto
qed

lemma dominance_frontier_eq:
  assumes wf: "wf_tree (tree_nodes t)" and parent: "parent_property cfg (tree_nodes t)"
    and r: "compute_dominance_frontier cfg t = Inr f" and b: "b \<in> dom (tree_nodes t)"
  shows "get_set f b = {y \<in> blk_id ` set (cfg_blocks cfg).
    2 \<le> length (get_list (build_predecessors cfg) y) \<and>
    (\<exists>p \<in> dom (tree_nodes t). (p, y) \<in> flow cfg \<and>
       tree_dom (tree_nodes t) b p \<and> \<not> tree_dom (tree_nodes t) b y)}"
proof -
  have "(\<exists>p \<in> dom (tree_nodes t). (p, y) \<in> flow cfg \<and> visits (tree_nodes t) y p b) \<longleftrightarrow>
      (\<exists>p \<in> dom (tree_nodes t). (p, y) \<in> flow cfg \<and> tree_dom (tree_nodes t) b p \<and> \<not> tree_dom (tree_nodes t) b y)" for y
    using visits_iff [OF wf parent, of _ y b] by blast
  with b show ?thesis unfolding dominance_frontier_visits [OF r] by simp
qed

text \<open>The walk never records the join point itself.\<close>

lemma visits_not_join: "visits nodes y r b \<Longrightarrow> b \<noteq> y"
  by (induction rule: visits.induct) (auto simp: walk_stops_def)

lemma frontier_irreflexive:
  "compute_dominance_frontier cfg t = Inr f \<Longrightarrow> b \<notin> get_set f b"
  by (auto simp: dominance_frontier_visits dest: visits_not_join)

section \<open>Iterated dominance frontiers\<close>

definition df_rel :: "frontiers \<Rightarrow> (block_id \<times> block_id) set" where
  "df_rel df = {(b, y). y \<in> get_set df b}"

lemma idf_push_fold:
  "fst (fold (idf_push P) ys (idf, wl)) = idf \<union> set ys \<and>
   set (snd (fold (idf_push P) ys (idf, wl))) = set wl \<union> (set ys - idf - P)"
  by (induction ys arbitrary: idf wl) (auto simp: idf_push_def)

definition idf_inv :: "frontiers \<Rightarrow> block_id set \<Rightarrow> block_id set \<Rightarrow> block_id list \<Rightarrow> block_id set \<Rightarrow> bool" where
  "idf_inv df blocks idf wl P \<longleftrightarrow>
     idf \<subseteq> (df_rel df)\<^sup>+ `` blocks \<and> set wl \<subseteq> blocks \<union> idf \<and> blocks \<union> idf \<subseteq> P \<union> set wl \<and>
     df_rel df `` P \<subseteq> idf"

lemma idf_inv_skip:
  assumes "idf_inv df blocks idf wl P" and "wl \<noteq> []" and "last wl \<in> P"
  shows "idf_inv df blocks idf (butlast wl) P"
proof -
  have "set wl = insert (last wl) (set (butlast wl))"
    using assms(2) by (metis append_butlast_last_id list.set(2) rotate1.simps(2) set_rotate1)
  then have "set (butlast wl) \<subseteq> set wl" "P \<union> set (butlast wl) = P \<union> set wl" using assms(3) by auto
  with assms(1) show ?thesis unfolding idf_inv_def by auto
qed

lemma idf_inv_visit:
  assumes inv: "idf_inv df blocks idf wl P" and "wl \<noteq> []" and "set ys = get_set df (last wl)"
  defines "P' \<equiv> insert (last wl) P"
  shows "idf_inv df blocks (fst (fold (idf_push P') ys (idf, butlast wl)))
    (snd (fold (idf_push P') ys (idf, butlast wl))) P'"
proof -
  have wl: "set wl = insert (last wl) (set (butlast wl))"
    using assms(2) by (metis append_butlast_last_id list.set(2) rotate1.simps(2) set_rotate1)
  have ys: "set ys = df_rel df `` {last wl}" using assms(3) by (auto simp: df_rel_def)
  have I: "idf \<subseteq> (df_rel df)\<^sup>+ `` blocks" "set wl \<subseteq> blocks \<union> idf" "blocks \<union> idf \<subseteq> P \<union> set wl"
    "df_rel df `` P \<subseteq> idf"
    using inv unfolding idf_inv_def by auto
  have "last wl \<in> blocks \<or> (\<exists>b \<in> blocks. (b, last wl) \<in> (df_rel df)\<^sup>+)" using I(1,2) wl by auto
  then have sub: "set ys \<subseteq> (df_rel df)\<^sup>+ `` blocks"
    unfolding ys by (meson Image_iff Image_singleton_iff r_into_trancl subsetI trancl_into_trancl)
  have idf': "fst (fold (idf_push P') ys (idf, butlast wl)) = idf \<union> set ys"
    and wl': "set (snd (fold (idf_push P') ys (idf, butlast wl))) = set (butlast wl) \<union> (set ys - idf - P')"
    using idf_push_fold [of P' ys idf "butlast wl"] by simp_all
  have img: "df_rel df `` P' = df_rel df `` P \<union> set ys" unfolding P'_def ys by auto
  show ?thesis
    unfolding idf_inv_def idf' wl' img
  proof (intro conjI)
    show "idf \<union> set ys \<subseteq> (df_rel df)\<^sup>+ `` blocks" using I(1) sub by simp
    show "set (butlast wl) \<union> (set ys - idf - P') \<subseteq> blocks \<union> (idf \<union> set ys)" using I(2) wl by auto
    show "blocks \<union> (idf \<union> set ys) \<subseteq> P' \<union> (set (butlast wl) \<union> (set ys - idf - P'))"
      using I(3) wl unfolding P'_def by auto
    show "df_rel df `` P \<union> set ys \<subseteq> idf \<union> set ys" using I(4) by auto
  qed
qed

lemma idf_loop_eq:
  assumes enum: "\<And>b. set (enum (get_set df b)) = get_set df b"
    and fin: "finite (blocks \<union> (df_rel df)\<^sup>+ `` blocks)"
  shows "idf_inv df blocks idf wl P \<Longrightarrow>
    idf_loop enum df idf wl P = Some ((df_rel df)\<^sup>+ `` blocks)"
proof (induction "(card ((blocks \<union> (df_rel df)\<^sup>+ `` blocks) - P), length wl)" arbitrary: idf wl P
    rule: wf_induct_rule [OF wf_lex_prod [OF wf_less_than wf_less_than]])
  case (1 wl P idf)
  let ?U = "blocks \<union> (df_rel df)\<^sup>+ `` blocks"
  show ?case
  proof (cases "wl = []")
    case True
    with "1.prems" have P: "blocks \<union> idf \<subseteq> P" "df_rel df `` P \<subseteq> idf" "idf \<subseteq> (df_rel df)\<^sup>+ `` blocks"
      unfolding idf_inv_def by auto
    have "y \<in> idf" if "(b, y) \<in> (df_rel df)\<^sup>+" "b \<in> blocks" for b y
      using that by (induction rule: trancl_induct) (use P in blast)+
    with P True show ?thesis by (auto simp: idf_loop.simps)
  next
    case False
    show ?thesis
    proof (cases "last wl \<in> P")
      case True
      with False 1(1) [OF _ idf_inv_skip [OF "1.prems" False True]] show ?thesis
        by (simp add: idf_loop.simps [of enum df idf wl P] Let_def)
    next
      case new: False
      let ?P = "insert (last wl) P"
      let ?s = "fold (idf_push ?P) (enum (get_set df (last wl))) (idf, butlast wl)"
      have "last wl \<in> ?U" using "1.prems" False last_in_set unfolding idf_inv_def by blast
      then have "card (?U - ?P) < card (?U - P)"
        by (intro psubset_card_mono) (use fin new in auto)
      then have "idf_loop enum df (fst ?s) (snd ?s) ?P = Some ((df_rel df)\<^sup>+ `` blocks)"
        by (intro 1(1) idf_inv_visit [OF "1.prems" False enum]) auto
      with False new show ?thesis
        by (simp add: idf_loop.simps [of enum df idf wl P] Let_def case_prod_beta)
    qed
  qed
qed

lemma compute_iterated_df_eq:
  assumes enum: "enumerates enum" and "\<And>b. finite (get_set df b)" and "finite blocks"
    and "finite (blocks \<union> (df_rel df)\<^sup>+ `` blocks)"
  shows "compute_iterated_df enum df blocks = Some ((df_rel df)\<^sup>+ `` blocks)"
  unfolding compute_iterated_df_def
  by (rule idf_loop_eq [OF enumeratesD [OF enum assms(2)] assms(4)])
    (use enumeratesD [OF enum assms(3)] in \<open>auto simp: idf_inv_def\<close>)

end
