(* ===== verification/Flow_Properties.thy ===== *)
theory Flow_Properties
  imports Dominance_Frontier
begin

text \<open>
  The properties of the control-flow helpers of \<open>dataflow/types.rs\<close> and of the dominator analyses of
  \<open>ssa/dominators.rs\<close>. \<open>flow cfg\<close> is the edge relation of the graph.
\<close>

section \<open>Sample graphs for the witnesses\<close>

definition sample_block :: "block_id \<Rightarrow> cfg_block" where
  "sample_block i = \<lparr>blk_id = i, blk_type = Body, blk_lines = (1, 1), blk_calls = []\<rparr>"

definition sample_edge :: "block_id \<times> block_id \<Rightarrow> cfg_edge" where
  "sample_edge e = \<lparr>edge_from = fst e, edge_to = snd e, edge_kind = Unconditional, edge_condition = None\<rparr>"

definition sample_cfg :: "nat \<Rightarrow> (block_id \<times> block_id) list \<Rightarrow> cfg_info" where
  "sample_cfg n es = \<lparr>cfg_function = ''f'', cfg_blocks = map sample_block [0..<n],
     cfg_edges = map sample_edge es, entry_block = 0, exit_blocks = [], cyclomatic_complexity = 1\<rparr>"

lemma sample_cfg_blocks [simp]: "cfg_blocks (sample_cfg n es) = [] \<longleftrightarrow> n = 0"
  by (simp add: sample_cfg_def)

lemma sample_cfg_sel [simp]: "entry_block (sample_cfg n es) = 0" "flow (sample_cfg n es) = set es"
  by (auto simp: sample_cfg_def flow_def sample_edge_def image_image)

text \<open>A diamond \<open>0, 1, 2, 3\<close> with a back edge from \<open>3\<close> to \<open>1\<close>.\<close>

definition sample_edges :: "(block_id \<times> block_id) list" where
  "sample_edges = [(0, 1), (0, 2), (1, 3), (2, 3), (3, 1)]"

text \<open>The tree of the loop \<open>1, 2\<close> entered from \<open>0\<close>.\<close>

definition loop_tree :: dominator_tree where
  "loop_tree = \<lparr>tree_function = ''f'',
     tree_nodes = [0 \<mapsto> \<lparr>node_block_id = 0, node_idom = None, node_children = [1], node_depth = 0\<rparr>,
       1 \<mapsto> \<lparr>node_block_id = 1, node_idom = Some 0, node_children = [2], node_depth = 1\<rparr>,
       2 \<mapsto> \<lparr>node_block_id = 2, node_idom = Some 1, node_children = [], node_depth = 2\<rparr>],
     tree_entry = 0, tree_preorder = [0, 1, 2], tree_postorder = [2, 1, 0]\<rparr>"

lemma loop_tree_sel:
  "dom (tree_nodes loop_tree) = {0, 1, 2}"
  "idom_of (tree_nodes loop_tree) b = (if b = 1 then Some 0 else if b = 2 then Some 1 else None)"
  "children_of (tree_nodes loop_tree) b = (if b = 0 then [1] else if b = 1 then [2] else [])"
  by (auto simp: loop_tree_def idom_of_def children_of_def split: if_splits)



lemma loop_tree_frontier:
  "compute_dominance_frontier (sample_cfg 3 [(0, 1), (1, 2), (2, 1)]) loop_tree =
     Inr [0 \<mapsto> {}, 1 \<mapsto> {}, 2 \<mapsto> {1}]"
proof -
  let ?cfg = "sample_cfg 3 [(0, 1), (1, 2), (2, 1)]"
  note dom = loop_tree_sel(1) and idom = loop_tree_sel(2)
  have none: "tree_nodes loop_tree b = None \<longleftrightarrow> b \<notin> {0, 1, 2}" for b using dom by blast
  have preds: "get_list (build_predecessors ?cfg) b = (if b = 1 then [0, 2] else if b = 2 then [1] else [])" for b
    by (simp add: build_predecessors_eq sample_cfg_def sample_edge_def)
  have blocks: "cfg_blocks ?cfg = [sample_block 0, sample_block 1, sample_block 2]"
    by (simp add: sample_cfg_def upt_rec numeral_2_eq_2)
  show ?thesis
    by (simp add: compute_dominance_frontier_def Let_def dom none idom preds blocks sample_block_def
        frontier_insert_def fun_eq_iff del: One_nat_def)
qed

lemma enumerates_sorted: "enumerates (sorted_list_of_set :: ('a :: linorder) set \<Rightarrow> 'a list)"
  by (simp add: enumerates_def)

section \<open>Control-flow helpers\<close>

text \<open>
  the breadth-first search collects exactly the blocks reachable from the entry (none for a
  graph without blocks).
\<close>

theorem reachable_blocks_exact:
  "reachable_blocks cfg = (if cfg_blocks cfg = [] then {} else (flow cfg)\<^sup>* `` {entry_block cfg})"
  by (rule reachable_blocks_eq)

text \<open>
  C15: the reverse postorder lists every reachable block once, starts with the entry, and puts the
  target of an edge after its source unless the target reaches the source.
\<close>

theorem reverse_postorder_order:
  assumes "cfg_blocks cfg \<noteq> []"
  shows "distinct (reverse_postorder cfg) \<and> set (reverse_postorder cfg) = reachable_blocks cfg \<and>
    hd (reverse_postorder cfg) = entry_block cfg \<and>
    (\<forall>u v P1 P2. reverse_postorder cfg = P1 @ u # P2 \<and> (u, v) \<in> flow cfg \<and> (v, u) \<notin> (flow cfg)\<^sup>* \<longrightarrow>
       v \<in> set P2)"
  using reverse_postorder_props [OF assms] by (simp add: reachable_blocks_eq assms)

lemma reverse_postorder_order_witness:
  "distinct (reverse_postorder (sample_cfg 4 sample_edges)) \<and>
   hd (reverse_postorder (sample_cfg 4 sample_edges)) = 0"
  using reverse_postorder_order [of "sample_cfg 4 sample_edges"] by simp

text \<open>
  a graph is rejected exactly when it has no block or more than 10,000, with the error that
  names the defect.
\<close>

theorem validate_cfg_errors:
  "validate_cfg cfg = (if cfg_blocks cfg = [] then Inl NoCfg
     else if length (cfg_blocks cfg) \<le> 10000 then Inr ()
     else Inl (TooManyBlocks (length (cfg_blocks cfg))))"
  by (simp add: validate_cfg_def max_blocks_def)

section \<open>The dominator tree\<close>



text \<open>
  on a well-formed tree \<open>dominates\<close> decides whether its first argument is on the path from the
  second to the root, \<open>strictly_dominates\<close> excludes equality, and \<open>dominated_by\<close> lists the subtree
  without repetition.
\<close>

theorem dominance_queries:
  assumes "wf_tree (tree_nodes t)"
  shows "dominates t a b = Some (tree_dom (tree_nodes t) a b) \<and>
    strictly_dominates t a b = Some (a \<noteq> b \<and> tree_dom (tree_nodes t) a b) \<and>
    (\<exists>res. dominated_by t b = Some res \<and> distinct res \<and> set res = {c. tree_dom (tree_nodes t) b c})"
  using dominates_eq [OF assms] dominated_by_eq [OF assms] by (simp add: strictly_dominates_def)

lemma dominance_queries_witness:
  "\<exists>t. build_dominator_tree (sample_cfg 4 sample_edges) = Some (Inr t) \<and>
     dominates t 0 3 = Some (tree_dom (tree_nodes t) 0 3)"
  using build_dominator_tree_wf [of "sample_cfg 4 sample_edges"] dominance_queries by auto



text \<open>
  no block is in its own frontier, in particular no loop header, although the documented
  definition of the frontier puts the header of a loop into its own (it dominates the end of its
  body and does not strictly dominate itself).
\<close>

theorem block_not_in_own_frontier:
  assumes "compute_dominance_frontier cfg t = Inr f"
  shows "b \<notin> get_set f b"
  by (rule frontier_irreflexive [OF assms])

lemma block_not_in_own_frontier_witness: "1 \<notin> get_set [0 \<mapsto> {}, 1 \<mapsto> {}, 2 \<mapsto> {1 :: nat}] (1 :: nat)"
  using block_not_in_own_frontier [OF loop_tree_frontier] .

text \<open>
  the iteration limit, the square of the number of blocks, is too small for a block with two
  self loops: the frontier of the tree that was built for it ends in the error.
\<close>

theorem dominance_frontier_limit:
  "\<exists>t. build_dominator_tree (sample_cfg 1 [(0, 0), (0, 0)]) = Some (Inr t) \<and>
     compute_dominance_frontier (sample_cfg 1 [(0, 0), (0, 0)]) t = Inl df_limit_error"
proof -
  let ?cfg = "sample_cfg 1 [(0, 0), (0, 0)]"
  have "(0, y) \<in> {(0 :: nat, 0)}\<^sup>* \<Longrightarrow> y = 0" for y by (induction rule: rtrancl_induct) auto
  then have "(flow ?cfg)\<^sup>* `` {entry_block ?cfg} = {0}" by auto
  then obtain t where t: "build_dominator_tree ?cfg = Some (Inr t)" and dom: "dom (tree_nodes t) = {0}"
    and root: "idom_of (tree_nodes t) 0 = None"
    using build_dominator_tree_wf [of ?cfg] by auto
  from dom obtain n where n: "tree_nodes t 0 = Some n" by blast
  have "compute_dominance_frontier ?cfg t = Inl df_limit_error"
    by (simp add: compute_dominance_frontier_def Let_def dom root n sample_cfg_def sample_block_def
        sample_edge_def build_predecessors_def get_list_def entry_or_default_def entry_push_def)
  with t show ?thesis by blast
qed

text \<open>
  C10: the iterated frontier is the transitive closure of the frontier, whatever the order in which
  the hash sets are iterated.
\<close>

theorem iterated_frontier_closure:
  assumes "enumerates enum" and "\<And>b. finite (get_set df b)" and "finite blocks"
    and "finite (blocks \<union> (df_rel df)\<^sup>+ `` blocks)"
  shows "compute_iterated_df enum df blocks = Some ((df_rel df)\<^sup>+ `` blocks)"
  by (rule compute_iterated_df_eq [OF assms])

lemma iterated_frontier_closure_witness:
  "compute_iterated_df sorted_list_of_set [1 \<mapsto> {2}, 2 \<mapsto> {3}] {1} =
     Some ((df_rel [1 \<mapsto> {2}, 2 \<mapsto> {3}])\<^sup>+ `` {1})"
proof (rule iterated_frontier_closure [OF enumerates_sorted])
  show fin: "finite (get_set [1 \<mapsto> {2 :: nat}, 2 \<mapsto> {3}] b)" for b :: nat
    by (simp add: get_set_def)
  have "df_rel [1 \<mapsto> {2}, 2 \<mapsto> {3}] \<subseteq> {(1, 2), (2, 3)}"
    by (auto simp: df_rel_def get_set_def split: if_splits)
  from finite_subset [OF this] have "finite ((df_rel [1 \<mapsto> {2}, 2 \<mapsto> {3}])\<^sup>+)" by simp
  then show "finite ({1} \<union> (df_rel [1 \<mapsto> {2}, 2 \<mapsto> {3}])\<^sup>+ `` {1})" by simp
qed simp

text \<open>
  \<open>find_back_edges\<close> returns the targets of the edges whose target dominates their source in the
  tree that was built.
\<close>

theorem back_edge_targets:
  assumes "cfg_blocks cfg \<noteq> []"
  shows "\<exists>t. build_dominator_tree cfg = Some (Inr t) \<and>
    find_back_edges cfg = Some {v. \<exists>u. (u, v) \<in> flow cfg \<and> tree_dom (tree_nodes t) v u}"
  using build_dominator_tree_wf [OF assms] find_back_edges_eq [OF assms] by blast

lemma back_edge_targets_witness:
  "\<exists>hs. find_back_edges (sample_cfg 3 [(0, 1), (1, 2), (2, 1)]) = Some hs"
  using back_edge_targets [of "sample_cfg 3 [(0, 1), (1, 2), (2, 1)]"] by auto

end
