(* ===== verification/Alias_Types.thy ===== *)
theory Alias_Types
  imports Prelude
begin

text \<open>
  \<open>alias/types.rs\<close> and the constraint type of \<open>alias/constraints.rs\<close>: abstract locations and their
  textual form, the constraints of Andersen's analysis, the extractor's result and the alias
  information with its queries.
\<close>

section \<open>Abstract locations\<close>

definition max_field_depth :: nat where
  "max_field_depth = 10"

datatype abstract_location =
  LocAlloc nat
| LocParam string
| LocUnknown nat
| LocField abstract_location string
| LocDefaultArg nat
| LocClassVar string string

text \<open>The decimal form \<open>format!("{}", n)\<close> gives an unsigned integer.\<close>

fun decimal :: "nat \<Rightarrow> string" where
  "decimal n =
     (if n < 10 then [''0123456789'' ! n] else decimal (n div 10) @ [''0123456789'' ! (n mod 10)])"

declare decimal.simps [simp del]

text \<open>The loop of \<open>format\<close> that looks for a chain of fields below the one being formatted.\<close>

fun deep_from :: "nat \<Rightarrow> abstract_location \<Rightarrow> bool" where
  "deep_from depth (LocField inner f) =
     (let depth = depth + 1 in if max_field_depth \<le> depth then True else deep_from depth inner)"
| "deep_from depth _ = False"

fun loc_format :: "abstract_location \<Rightarrow> string" where
  "loc_format (LocAlloc site) = ''alloc_'' @ decimal site"
| "loc_format (LocParam name) = ''param_'' @ name"
| "loc_format (LocUnknown site) = ''unknown_'' @ decimal site"
| "loc_format (LocField base f) =
     (if deep_from 0 base then loc_format base @ ''.'' @ f @ ''.truncated''
      else loc_format base @ ''.'' @ f)"
| "loc_format (LocDefaultArg site) = ''alloc_default_'' @ decimal site"
| "loc_format (LocClassVar cls f) = ''alloc_class_'' @ cls @ ''_'' @ f"

fun field_depth :: "abstract_location \<Rightarrow> nat" where
  "field_depth (LocField base f) = 1 + field_depth base"
| "field_depth _ = 0"

fun is_alloc :: "abstract_location \<Rightarrow> bool" where
  "is_alloc (LocAlloc site) = True"
| "is_alloc _ = False"

section \<open>Constraints\<close>

datatype alias_constraint =
  CopyC string string  \<comment> \<open>target, source\<close>
| AllocC string abstract_location  \<comment> \<open>target, site\<close>
| FieldLoadC string string string  \<comment> \<open>target, base, field\<close>
| FieldStoreC string string string  \<comment> \<open>base, field, source\<close>

fun constraint_target :: "alias_constraint \<Rightarrow> string option" where
  "constraint_target (CopyC t s) = Some t"
| "constraint_target (AllocC t site) = Some t"
| "constraint_target (FieldLoadC t b f) = Some t"
| "constraint_target (FieldStoreC b f s) = None"

fun constraint_variables :: "alias_constraint \<Rightarrow> string list" where
  "constraint_variables (CopyC t s) = [t, s]"
| "constraint_variables (AllocC t site) = [t]"
| "constraint_variables (FieldLoadC t b f) = [t, b]"
| "constraint_variables (FieldStoreC b f s) = [b, s]"

text \<open>The extractor's result as the solver reads it.\<close>

record constraint_extractor =
  ex_constraints :: "alias_constraint list"
  ex_allocation_sites :: "abstract_location set"
  ex_phi_targets :: "string set"
  ex_parameters :: "string set"

datatype alias_error =
  NoSsa string
| AliasNoCfg string
| AliasIterationLimit nat
| InvalidPhiSource string string
| InvalidRef string
| AliasInternal string

section \<open>Alias information\<close>

record alias_info =
  ai_function_name :: string
  ai_may_alias :: "string \<rightharpoonup> string set"
  ai_must_alias :: "string \<rightharpoonup> string set"
  ai_points_to :: "string \<rightharpoonup> string set"
  ai_allocation_sites :: "nat \<rightharpoonup> string"

definition info_new :: "string \<Rightarrow> alias_info" where
  "info_new name = \<lparr>ai_function_name = name, ai_may_alias = Map.empty, ai_must_alias = Map.empty,
     ai_points_to = Map.empty, ai_allocation_sites = Map.empty\<rparr>"

text \<open>\<open>map.entry(k).or_default().insert(v)\<close> on a map of sets.\<close>

definition entry_insert :: "'k \<Rightarrow> 'v \<Rightarrow> ('k \<rightharpoonup> 'v set) \<Rightarrow> ('k \<rightharpoonup> 'v set)" where
  "entry_insert k v m = m(k \<mapsto> insert v (get_set m k))"

definition add_may_alias :: "string \<Rightarrow> string \<Rightarrow> alias_info \<Rightarrow> alias_info" where
  "add_may_alias a b info =
     (if a \<noteq> b then info\<lparr>ai_may_alias := entry_insert b a (entry_insert a b (ai_may_alias info))\<rparr> else info)"

definition add_must_alias :: "string \<Rightarrow> string \<Rightarrow> alias_info \<Rightarrow> alias_info" where
  "add_must_alias a b info =
     (if a \<noteq> b then info\<lparr>ai_must_alias := entry_insert b a (entry_insert a b (ai_must_alias info))\<rparr> else info)"

definition add_points_to :: "string \<Rightarrow> string \<Rightarrow> alias_info \<Rightarrow> alias_info" where
  "add_points_to var location info =
     info\<lparr>ai_points_to := entry_insert var location (ai_points_to info)\<rparr>"

definition add_allocation_site :: "nat \<Rightarrow> string \<Rightarrow> alias_info \<Rightarrow> alias_info" where
  "add_allocation_site line location info =
     info\<lparr>ai_allocation_sites := (ai_allocation_sites info)(line \<mapsto> location)\<rparr>"

definition may_alias_check :: "alias_info \<Rightarrow> string \<Rightarrow> string \<Rightarrow> bool" where
  "may_alias_check info a b =
     (if a = b then True
      else if b \<in> get_set (ai_may_alias info) a then True
      else if a \<in> get_set (ai_may_alias info) b then True
      else case (ai_points_to info a, ai_points_to info b) of
             (Some a_set, Some b_set) \<Rightarrow> a_set \<inter> b_set \<noteq> {}
           | _ \<Rightarrow> False)"

definition must_alias_check :: "alias_info \<Rightarrow> string \<Rightarrow> string \<Rightarrow> bool" where
  "must_alias_check info a b =
     (if a = b then True
      else if b \<in> get_set (ai_must_alias info) a then True
      else if a \<in> get_set (ai_must_alias info) b then True
      else False)"

definition get_points_to :: "alias_info \<Rightarrow> string \<Rightarrow> string set" where
  "get_points_to info var = get_set (ai_points_to info) var"

definition get_aliases :: "alias_info \<Rightarrow> string \<Rightarrow> string set" where
  "get_aliases info var = get_set (ai_may_alias info) var"

section \<open>Lemmas\<close>

lemma get_set_entry_insert [simp]:
  "get_set (entry_insert k v m) k' = (if k' = k then insert v (get_set m k) else get_set m k')"
  by (simp add: entry_insert_def)

lemma dom_entry_insert [simp]: "dom (entry_insert k v m) = insert k (dom m)"
  by (simp add: entry_insert_def)

lemma deep_from_iff: "depth < max_field_depth \<Longrightarrow> deep_from depth l \<longleftrightarrow> max_field_depth \<le> depth + field_depth l"
  by (induction depth l rule: deep_from.induct) (auto simp: Let_def)

text \<open>The alias relations are kept symmetric and irreflexive.\<close>

definition sym_map :: "('k \<rightharpoonup> 'k set) \<Rightarrow> bool" where
  "sym_map m \<longleftrightarrow> (\<forall>a b. b \<in> get_set m a \<longrightarrow> a \<in> get_set m b \<and> a \<noteq> b)"

lemma sym_map_empty [simp]: "sym_map Map.empty"
  by (simp add: sym_map_def)

lemma sym_map_insert:
  "sym_map m \<Longrightarrow> a \<noteq> b \<Longrightarrow> sym_map (entry_insert b a (entry_insert a b m))"
  by (auto simp: sym_map_def split: if_splits)

lemma add_may_alias_sel [simp]:
  "ai_points_to (add_may_alias a b info) = ai_points_to info"
  "ai_must_alias (add_may_alias a b info) = ai_must_alias info"
  "y \<in> get_set (ai_may_alias (add_may_alias a b info)) x \<longleftrightarrow>
     y \<in> get_set (ai_may_alias info) x \<or> (a \<noteq> b \<and> (x, y) \<in> {(a, b), (b, a)})"
  by (auto simp: add_may_alias_def)

lemma add_must_alias_sel [simp]:
  "ai_points_to (add_must_alias a b info) = ai_points_to info"
  "ai_may_alias (add_must_alias a b info) = ai_may_alias info"
  "y \<in> get_set (ai_must_alias (add_must_alias a b info)) x \<longleftrightarrow>
     y \<in> get_set (ai_must_alias info) x \<or> (a \<noteq> b \<and> (x, y) \<in> {(a, b), (b, a)})"
  by (auto simp: add_must_alias_def)

end
