(* ===== verification/Alias_Solver.thy ===== *)
theory Alias_Solver
  imports Alias_Types
begin

text \<open>
  \<open>alias/solver.rs\<close>: the indices built from the constraints, the work list of variables, the
  propagation rules, the rounds of \<open>solve\<close> with their limit, and the alias information computed from
  the points-to sets. The order in which Rust iterates a hash set or the keys of a hash map is
  unspecified: \<open>enum\<close> lists a set in that order.
\<close>

definition max_iterations :: nat where
  "max_iterations = 100"

record solver =
  sv_points_to :: "string \<rightharpoonup> string set"
  sv_worklist :: "string list"
  sv_in_worklist :: "string set"
  sv_copy_constraints :: "string \<rightharpoonup> string list"
  sv_reverse_copy :: "string \<rightharpoonup> string list"
  sv_field_loads :: "string \<rightharpoonup> (string \<times> string) list"
  sv_field_stores :: "string \<rightharpoonup> (string \<times> string) list"
  sv_reverse_field_stores :: "string \<rightharpoonup> (string \<times> string) list"
  sv_alloc_sites :: "string \<rightharpoonup> abstract_location"
  sv_phi_targets :: "string set"
  sv_parameters :: "string set"
  sv_last_changed :: "string list"
  sv_iterations :: nat

section \<open>Construction\<close>

fun index_constraint :: "alias_constraint \<Rightarrow> solver \<Rightarrow> solver" where
  "index_constraint (CopyC t s) sv =
     sv\<lparr>sv_copy_constraints := entry_push t s (sv_copy_constraints sv),
        sv_reverse_copy := entry_push s t (sv_reverse_copy sv)\<rparr>"
| "index_constraint (AllocC t site) sv = sv\<lparr>sv_alloc_sites := (sv_alloc_sites sv)(t \<mapsto> site)\<rparr>"
| "index_constraint (FieldLoadC t b f) sv =
     sv\<lparr>sv_field_loads := entry_push t (b, f) (sv_field_loads sv),
        sv_reverse_copy := entry_push b t (sv_reverse_copy sv)\<rparr>"
| "index_constraint (FieldStoreC b f s) sv =
     sv\<lparr>sv_field_stores := entry_push b (f, s) (sv_field_stores sv),
        sv_reverse_field_stores := entry_push s (b, f) (sv_reverse_field_stores sv)\<rparr>"

definition index_constraints :: "alias_constraint list \<Rightarrow> solver \<Rightarrow> solver" where
  "index_constraints cs sv = fold index_constraint cs sv"

definition add_to_worklist :: "string \<Rightarrow> solver \<Rightarrow> solver" where
  "add_to_worklist var sv =
     (if var \<notin> sv_in_worklist sv
      then sv\<lparr>sv_worklist := sv_worklist sv @ [var], sv_in_worklist := insert var (sv_in_worklist sv)\<rparr>
      else sv)"

fun initialize_alloc :: "alias_constraint \<Rightarrow> solver \<Rightarrow> solver" where
  "initialize_alloc (AllocC t site) sv =
     add_to_worklist t (sv\<lparr>sv_points_to := entry_insert t (loc_format site) (sv_points_to sv)\<rparr>)"
| "initialize_alloc _ sv = sv"

definition initialize_allocs :: "constraint_extractor \<Rightarrow> solver \<Rightarrow> solver" where
  "initialize_allocs ex sv = fold initialize_alloc (ex_constraints ex) sv"

definition initialize_parameter :: "string \<Rightarrow> solver \<Rightarrow> solver" where
  "initialize_parameter p sv =
     add_to_worklist p (sv\<lparr>sv_points_to := entry_insert p (loc_format (LocParam p)) (sv_points_to sv)\<rparr>)"

definition initialize_parameters :: "(string set \<Rightarrow> string list) \<Rightarrow> solver \<Rightarrow> solver" where
  "initialize_parameters enum sv = fold initialize_parameter (enum (sv_parameters sv)) sv"

definition solver_empty :: "constraint_extractor \<Rightarrow> solver" where
  "solver_empty ex =
     \<lparr>sv_points_to = Map.empty, sv_worklist = [], sv_in_worklist = {}, sv_copy_constraints = Map.empty,
      sv_reverse_copy = Map.empty, sv_field_loads = Map.empty, sv_field_stores = Map.empty,
      sv_reverse_field_stores = Map.empty, sv_alloc_sites = Map.empty,
      sv_phi_targets = ex_phi_targets ex, sv_parameters = ex_parameters ex, sv_last_changed = [],
      sv_iterations = 0\<rparr>"

definition solver_new :: "(string set \<Rightarrow> string list) \<Rightarrow> constraint_extractor \<Rightarrow> solver" where
  "solver_new enum ex =
     initialize_parameters enum
       (initialize_allocs ex (index_constraints (ex_constraints ex) (solver_empty ex)))"

section \<open>Propagation\<close>

text \<open>The common tail of the three rules: grow one points-to set and queue the variable if it grew.\<close>

definition grow_points_to :: "string \<Rightarrow> string set \<Rightarrow> solver \<Rightarrow> solver" where
  "grow_points_to target extra sv =
     (let old_pts = get_set (sv_points_to sv) target;
          target_pts = old_pts \<union> extra;
          changed = card old_pts < card target_pts;
          sv = sv\<lparr>sv_points_to := (sv_points_to sv)(target \<mapsto> target_pts)\<rparr>
      in if changed
         then add_to_worklist target (sv\<lparr>sv_last_changed := sv_last_changed sv @ [target]\<rparr>)
         else sv)"

definition propagate_copy :: "string \<Rightarrow> string set \<Rightarrow> solver \<Rightarrow> solver" where
  "propagate_copy target source_pts sv = grow_points_to target source_pts sv"

definition create_field_location :: "string \<Rightarrow> string \<Rightarrow> string" where
  "create_field_location base field =
     (let depth = length (filter (\<lambda>c. c = CHR ''.'') base)
      in if max_field_depth \<le> depth then base @ ''.truncated'' else base @ ''.'' @ field)"

definition propagate_field_load :: "string \<Rightarrow> string set \<Rightarrow> string \<Rightarrow> solver \<Rightarrow> solver" where
  "propagate_field_load target base_pts field sv =
     grow_points_to target ((\<lambda>loc. create_field_location loc field) ` base_pts) sv"

definition propagate_field_store ::
  "(string set \<Rightarrow> string list) \<Rightarrow> string set \<Rightarrow> string \<Rightarrow> string \<Rightarrow> solver \<Rightarrow> solver" where
  "propagate_field_store enum base_pts field source sv =
     (let source_pts = get_set (sv_points_to sv) source;
          field_locs = map (\<lambda>loc. create_field_location loc field) (enum base_pts)
      in fold (\<lambda>field_loc. grow_points_to field_loc source_pts) field_locs sv)"

definition propagate_target :: "string \<Rightarrow> string set \<Rightarrow> string \<Rightarrow> solver \<Rightarrow> solver" where
  "propagate_target var current_pts target sv =
     (case sv_field_loads sv target of
        Some field_loads \<Rightarrow>
          fold (\<lambda>(base, field) sv. if base = var then propagate_field_load target current_pts field sv else sv)
            field_loads sv
      | None \<Rightarrow>
          if sv_copy_constraints sv target \<noteq> None then propagate_copy target current_pts sv else sv)"

definition propagate_variable :: "(string set \<Rightarrow> string list) \<Rightarrow> string \<Rightarrow> solver \<Rightarrow> solver" where
  "propagate_variable enum var sv =
     (let current_pts = get_set (sv_points_to sv) var;
          sv = fold (propagate_target var current_pts) (get_list (sv_reverse_copy sv) var) sv;
          sv = fold (\<lambda>(field, source). propagate_field_store enum current_pts field source)
                 (get_list (sv_field_stores sv) var) sv
      in fold (\<lambda>(base, field) sv.
             propagate_field_store enum (get_set (sv_points_to sv) base) field var sv)
           (get_list (sv_reverse_field_stores sv) var) sv)"

section \<open>The rounds\<close>

lemma grow_iterations [simp]: "sv_iterations (grow_points_to t e sv) = sv_iterations sv"
  by (simp add: grow_points_to_def add_to_worklist_def Let_def)

lemma fold_grow_iterations [simp]:
  "sv_iterations (fold (\<lambda>l. grow_points_to l e) ls sv) = sv_iterations sv"
  by (induction ls arbitrary: sv) simp_all

lemma propagate_iterations [simp]:
  "sv_iterations (propagate_target v pts t sv) = sv_iterations sv"
  "sv_iterations (propagate_field_store enum pts f s sv) = sv_iterations sv"
proof -
  have "sv_iterations (fold (\<lambda>(b, f) sv. if b = v then propagate_field_load t pts f sv else sv) ls sv) =
      sv_iterations sv" for ls
    by (induction ls arbitrary: sv) (auto simp: propagate_field_load_def)
  then show "sv_iterations (propagate_target v pts t sv) = sv_iterations sv"
    by (simp add: propagate_target_def propagate_copy_def split: option.split)
qed (simp add: propagate_field_store_def Let_def)

lemma propagate_variable_iterations [simp]:
  "sv_iterations (propagate_variable enum v sv) = sv_iterations sv"
proof -
  have "sv_iterations (fold (propagate_target v pts) ts sv) = sv_iterations sv" for pts ts sv
    by (induction ts arbitrary: sv) simp_all
  moreover have "sv_iterations (fold (\<lambda>(f, s). propagate_field_store enum pts f s) ss sv) = sv_iterations sv"
    for pts ss sv by (induction ss arbitrary: sv) auto
  moreover have "sv_iterations (fold (\<lambda>(b, f) sv.
      propagate_field_store enum (get_set (sv_points_to sv) b) f v sv) ss sv) = sv_iterations sv"
    for ss sv by (induction ss arbitrary: sv) auto
  ultimately show ?thesis by (simp add: propagate_variable_def Let_def)
qed

lemma fold_propagate_iterations [simp]:
  "sv_iterations (fold (propagate_variable enum) vs sv) = sv_iterations sv"
  by (induction vs arbitrary: sv) simp_all

function solve_loop :: "(string set \<Rightarrow> string list) \<Rightarrow> solver \<Rightarrow> alias_error + solver" where
  "solve_loop enum sv =
     (if sv_worklist sv = [] then Inr sv
      else
        (let sv = sv\<lparr>sv_iterations := sv_iterations sv + 1\<rparr>
         in if max_iterations < sv_iterations sv then Inl (AliasIterationLimit (sv_iterations sv))
            else
              (let current = sv_worklist sv;
                   sv = sv\<lparr>sv_last_changed := [], sv_worklist := [], sv_in_worklist := {}\<rparr>
               in solve_loop enum (fold (propagate_variable enum) current sv))))"
  by pat_completeness auto

termination
  by (relation "measure (\<lambda>(enum, sv). max_iterations - sv_iterations sv)") auto

declare solve_loop.simps [simp del]

definition solve :: "(string set \<Rightarrow> string list) \<Rightarrow> solver \<Rightarrow> alias_error + solver" where
  "solve enum sv = solve_loop enum (sv\<lparr>sv_iterations := 0\<rparr>)"

section \<open>Alias information\<close>

text \<open>The unordered pairs \<open>i < j\<close> of a list, in the order of the two nested loops.\<close>

fun list_pairs :: "'a list \<Rightarrow> ('a \<times> 'a) list" where
  "list_pairs [] = []"
| "list_pairs (x # xs) = map (\<lambda>y. (x, y)) xs @ list_pairs xs"

definition compute_may_alias :: "(string set \<Rightarrow> string list) \<Rightarrow> solver \<Rightarrow> alias_info \<Rightarrow> alias_info" where
  "compute_may_alias enum sv info =
     (let vars = enum (dom (sv_points_to sv));
          info = fold (\<lambda>(v1, v2) info.
                   if get_set (sv_points_to sv) v1 \<inter> get_set (sv_points_to sv) v2 \<noteq> {}
                   then add_may_alias v1 v2 info else info) (list_pairs vars) info
      in fold (\<lambda>target. fold (\<lambda>source. add_may_alias target source)
             (get_list (sv_copy_constraints sv) target)) (enum (dom (sv_copy_constraints sv))) info)"

text \<open>One round of \<open>transitive_closure\<close>: the updates are collected first and applied afterwards.\<close>

definition closure_updates ::
  "(string set \<Rightarrow> string list) \<Rightarrow> string list \<Rightarrow> (string \<rightharpoonup> string set) \<Rightarrow> (string \<times> string) list" where
  "closure_updates enum vars result =
     concat (map (\<lambda>v. concat (map (\<lambda>alias. concat (map
       (\<lambda>x. if x \<notin> get_set result v then [(v, x), (x, v)] else [])
       (filter (\<lambda>x. x \<noteq> v) (enum (get_set result alias))))) (enum (get_set result v)))) vars)"

definition apply_update ::
  "string \<times> string \<Rightarrow> (string \<rightharpoonup> string set) \<times> bool \<Rightarrow> (string \<rightharpoonup> string set) \<times> bool" where
  "apply_update = (\<lambda>(from_v, to_v) (result, changed).
     (entry_insert from_v to_v result, changed \<or> to_v \<notin> get_set result from_v))"

fun closure_rounds ::
  "(string set \<Rightarrow> string list) \<Rightarrow> string list \<Rightarrow> nat \<Rightarrow> (string \<rightharpoonup> string set) \<Rightarrow> (string \<rightharpoonup> string set)" where
  "closure_rounds enum vars 0 result = result"
| "closure_rounds enum vars (Suc fuel) result =
     (let (result, changed) = fold apply_update (closure_updates enum vars result) (result, False)
      in if changed then closure_rounds enum vars fuel result else result)"

text \<open>\<open>fuel\<close> counts the rounds left of the \<open>max_iterations\<close> of the code's loop.\<close>

definition transitive_closure ::
  "(string set \<Rightarrow> string list) \<Rightarrow> (string \<rightharpoonup> string set) \<Rightarrow> (string \<rightharpoonup> string set)" where
  "transitive_closure enum relation =
     (let vars = enum (dom relation \<union> (\<Union>k \<in> dom relation. get_set relation k))
      in closure_rounds enum vars max_iterations relation)"

definition compute_must_alias :: "(string set \<Rightarrow> string list) \<Rightarrow> solver \<Rightarrow> alias_info \<Rightarrow> alias_info" where
  "compute_must_alias enum sv info =
     (let direct_aliases =
            fold (\<lambda>target d.
                if target \<in> sv_phi_targets sv then d
                else fold (\<lambda>source d. entry_insert source target (entry_insert target source d))
                       (get_list (sv_copy_constraints sv) target) d)
              (enum (dom (sv_copy_constraints sv))) Map.empty;
          transitive = transitive_closure enum direct_aliases
      in fold (\<lambda>var. fold (\<lambda>alias. add_must_alias var alias) (enum (get_set transitive var)))
           (enum (dom transitive)) info)"

definition add_parameter_aliasing :: "(string set \<Rightarrow> string list) \<Rightarrow> solver \<Rightarrow> alias_info \<Rightarrow> alias_info" where
  "add_parameter_aliasing enum sv info =
     fold (\<lambda>(p, q). add_may_alias p q) (list_pairs (enum (sv_parameters sv))) info"

definition record_alloc_site :: "string \<times> abstract_location \<Rightarrow> alias_info \<Rightarrow> alias_info" where
  "record_alloc_site = (\<lambda>(target, site) info.
     (let info = (case site of LocAlloc line \<Rightarrow> add_allocation_site line (loc_format site) info | _ \<Rightarrow> info)
      in add_points_to target (loc_format site) info))"

definition build_alias_info :: "(string set \<Rightarrow> string list) \<Rightarrow> solver \<Rightarrow> string \<Rightarrow> alias_info" where
  "build_alias_info enum sv function_name =
     (let info = (info_new function_name)\<lparr>ai_points_to := sv_points_to sv\<rparr>;
          info = fold (\<lambda>t. record_alloc_site (t, the (sv_alloc_sites sv t)))
                   (enum (dom (sv_alloc_sites sv))) info;
          info = compute_may_alias enum sv info;
          info = compute_must_alias enum sv info
      in add_parameter_aliasing enum sv info)"

text \<open>\<open>compute_alias_from_ssa\<close> after the extraction of the constraints.\<close>

definition compute_alias :: "(string set \<Rightarrow> string list) \<Rightarrow> constraint_extractor \<Rightarrow> string \<Rightarrow> alias_error + alias_info" where
  "compute_alias enum ex function_name =
     (case solve enum (solver_new enum ex) of
        Inl e \<Rightarrow> Inl e
      | Inr sv \<Rightarrow> Inr (build_alias_info enum sv function_name))"

end
