(* ===== verification/Alias_Correct.thy ===== *)
theory Alias_Correct
  imports Alias_Solver
begin

text \<open>
  The solver computes the least solution of its constraints: whenever \<open>solve\<close> succeeds the points-to
  sets satisfy every constraint (\<open>solution\<close>) and are contained in every other solution. The argument
  is the usual one for work lists: a constraint holds, or one of the variables that trigger it is
  still queued.
\<close>

section \<open>Solutions\<close>

definition has_load :: "alias_constraint list \<Rightarrow> string \<Rightarrow> bool" where
  "has_load cs t \<longleftrightarrow> (\<exists>b f. FieldLoadC t b f \<in> set cs)"

text \<open>A copy into a variable that is also the target of a field load is not propagated by the code.\<close>

fun sat :: "alias_constraint list \<Rightarrow> (string \<Rightarrow> string set) \<Rightarrow> alias_constraint \<Rightarrow> bool" where
  "sat cs P (CopyC t s) \<longleftrightarrow> has_load cs t \<or> P s \<subseteq> P t"
| "sat cs P (AllocC t site) \<longleftrightarrow> loc_format site \<in> P t"
| "sat cs P (FieldLoadC t b f) \<longleftrightarrow> (\<forall>loc \<in> P b. create_field_location loc f \<in> P t)"
| "sat cs P (FieldStoreC b f s) \<longleftrightarrow> (\<forall>loc \<in> P b. P s \<subseteq> P (create_field_location loc f))"

definition solution :: "constraint_extractor \<Rightarrow> (string \<Rightarrow> string set) \<Rightarrow> bool" where
  "solution ex P \<longleftrightarrow>
     (\<forall>c \<in> set (ex_constraints ex). sat (ex_constraints ex) P c) \<and>
     (\<forall>p \<in> ex_parameters ex. loc_format (LocParam p) \<in> P p)"

fun triggers :: "alias_constraint \<Rightarrow> string set" where
  "triggers (CopyC t s) = {s}"
| "triggers (AllocC t site) = {}"
| "triggers (FieldLoadC t b f) = {b}"
| "triggers (FieldStoreC b f s) = {b, s}"

lemma sat_mono:
  assumes "sat cs P c" and "\<And>v. P v \<subseteq> P' v" and "\<And>v. v \<in> triggers c \<Longrightarrow> P' v = P v"
  shows "sat cs P' c"
  using assms by (cases c) (simp_all, blast+)

section \<open>The indices\<close>

definition indexed :: "alias_constraint list \<Rightarrow> solver \<Rightarrow> bool" where
  "indexed cs sv \<longleftrightarrow>
     (\<forall>t s. s \<in> set (get_list (sv_copy_constraints sv) t) \<longleftrightarrow> CopyC t s \<in> set cs) \<and>
     (\<forall>t. sv_copy_constraints sv t \<noteq> None \<longleftrightarrow> (\<exists>s. CopyC t s \<in> set cs)) \<and>
     (\<forall>t v. t \<in> set (get_list (sv_reverse_copy sv) v) \<longleftrightarrow>
        CopyC t v \<in> set cs \<or> (\<exists>f. FieldLoadC t v f \<in> set cs)) \<and>
     (\<forall>t b f. (b, f) \<in> set (get_list (sv_field_loads sv) t) \<longleftrightarrow> FieldLoadC t b f \<in> set cs) \<and>
     (\<forall>t. sv_field_loads sv t \<noteq> None \<longleftrightarrow> has_load cs t) \<and>
     (\<forall>b f s. (f, s) \<in> set (get_list (sv_field_stores sv) b) \<longleftrightarrow> FieldStoreC b f s \<in> set cs) \<and>
     (\<forall>b f s. (b, f) \<in> set (get_list (sv_reverse_field_stores sv) s) \<longleftrightarrow> FieldStoreC b f s \<in> set cs)"

lemma entry_push_None [simp]: "entry_push k v m k' = None \<longleftrightarrow> k' \<noteq> k \<and> m k' = None"
  by (simp add: entry_push_def)

lemma indexed_constraint:
  "indexed cs sv \<Longrightarrow> indexed (cs @ [c]) (index_constraint c sv)"
  by (cases c) (auto simp: indexed_def has_load_def)

lemma indexed_constraints:
  "indexed cs sv \<Longrightarrow> indexed (cs @ ds) (fold index_constraint ds sv)"
proof (induction ds arbitrary: cs sv)
  case (Cons d ds)
  from Cons.IH [OF indexed_constraint [OF Cons.prems, of d]] show ?case by simp
qed simp

text \<open>The part of the state the propagation leaves alone.\<close>

definition same_index :: "solver \<Rightarrow> solver \<Rightarrow> bool" where
  "same_index sv sv' \<longleftrightarrow>
     sv_copy_constraints sv' = sv_copy_constraints sv \<and> sv_reverse_copy sv' = sv_reverse_copy sv \<and>
     sv_field_loads sv' = sv_field_loads sv \<and> sv_field_stores sv' = sv_field_stores sv \<and>
     sv_reverse_field_stores sv' = sv_reverse_field_stores sv \<and> sv_alloc_sites sv' = sv_alloc_sites sv \<and>
     sv_phi_targets sv' = sv_phi_targets sv \<and> sv_parameters sv' = sv_parameters sv"

lemma same_index_indexed: "same_index sv sv' \<Longrightarrow> indexed cs sv' = indexed cs sv"
  by (simp add: same_index_def indexed_def)

section \<open>Growing the points-to sets\<close>

abbreviation pts :: "solver \<Rightarrow> string \<Rightarrow> string set" where
  "pts sv v \<equiv> get_set (sv_points_to sv) v"

definition solver_ok :: "solver \<Rightarrow> bool" where
  "solver_ok sv \<longleftrightarrow>
     sv_in_worklist sv = set (sv_worklist sv) \<and> finite (dom (sv_points_to sv)) \<and> (\<forall>v. finite (pts sv v))"

definition grows :: "solver \<Rightarrow> solver \<Rightarrow> bool" where
  "grows sv sv' \<longleftrightarrow>
     solver_ok sv \<and> solver_ok sv' \<and> same_index sv sv' \<and>
     set (sv_worklist sv) \<subseteq> set (sv_worklist sv') \<and>
     (\<forall>v. pts sv v \<subseteq> pts sv' v \<and> (pts sv v \<noteq> pts sv' v \<longrightarrow> v \<in> set (sv_worklist sv')))"

lemma grows_refl: "solver_ok sv \<Longrightarrow> grows sv sv"
  by (simp add: grows_def same_index_def)

lemma same_index_trans: "same_index a b \<Longrightarrow> same_index b c \<Longrightarrow> same_index a c"
  by (simp add: same_index_def)

lemma grows_trans:
  assumes "grows a b" and "grows b c"
  shows "grows a c"
proof -
  have "pts a v \<subseteq> pts c v \<and> (pts a v \<noteq> pts c v \<longrightarrow> v \<in> set (sv_worklist c))" for v
    using assms unfolding grows_def by (metis subsetD subset_trans)
  with assms same_index_trans [of a b c] show ?thesis unfolding grows_def by blast
qed

lemma growsD:
  assumes "grows sv sv'"
  shows "solver_ok sv" "solver_ok sv'" "pts sv v \<subseteq> pts sv' v"
    "v \<in> set (sv_worklist sv) \<Longrightarrow> v \<in> set (sv_worklist sv')"
    "v \<notin> set (sv_worklist sv') \<Longrightarrow> pts sv' v = pts sv v"
    "indexed cs sv' = indexed cs sv"
  using assms same_index_indexed unfolding grows_def by blast+

lemma grow_points_to_grows:
  assumes ok: "solver_ok sv" and fin: "finite e"
  shows "grows sv (grow_points_to t e sv)"
    and "pts (grow_points_to t e sv) v = (if v = t then pts sv t \<union> e else pts sv v)"
proof -
  let ?new = "pts sv t \<union> e"
  have f: "finite (pts sv t)" "finite ?new" using ok fin by (auto simp: solver_ok_def)
  have changed: "card (pts sv t) < card ?new \<longleftrightarrow> ?new \<noteq> pts sv t"
    using f by (metis card_seteq linorder_not_le nless_le sup_ge1)
  show p: "pts (grow_points_to t e sv) v = (if v = t then ?new else pts sv v)" for v
    by (simp add: grow_points_to_def add_to_worklist_def Let_def)
  have "sv_in_worklist (grow_points_to t e sv) = set (sv_worklist (grow_points_to t e sv))"
    using ok by (simp add: grow_points_to_def add_to_worklist_def Let_def solver_ok_def)
  moreover have "dom (sv_points_to (grow_points_to t e sv)) = insert t (dom (sv_points_to sv))"
    by (simp add: grow_points_to_def add_to_worklist_def Let_def)
  ultimately have "solver_ok (grow_points_to t e sv)" using ok fin p by (simp add: solver_ok_def)
  moreover have "same_index sv (grow_points_to t e sv)"
    by (simp add: grow_points_to_def add_to_worklist_def Let_def same_index_def)
  moreover have "set (sv_worklist (grow_points_to t e sv)) =
      set (sv_worklist sv) \<union> (if ?new \<noteq> pts sv t then {t} else {})"
    using ok changed by (auto simp: grow_points_to_def add_to_worklist_def Let_def solver_ok_def)
  ultimately show "grows sv (grow_points_to t e sv)"
    unfolding grows_def p using ok by auto
qed

lemma fold_grows:
  assumes "solver_ok sv" and "\<And>x s. x \<in> set xs \<Longrightarrow> grows sv s \<Longrightarrow> grows s (f x s)"
  shows "grows sv (fold f xs sv)"
  by (rule fold_invariant [where P = "grows sv"]) (use assms grows_refl grows_trans in blast)+

text \<open>What one element of the loop achieves is seen at some state in between.\<close>

lemma fold_grows_at:
  assumes "solver_ok sv" and step: "\<And>x s. x \<in> set xs \<Longrightarrow> grows sv s \<Longrightarrow> grows s (f x s)" and "x \<in> set xs"
  obtains s where "grows sv s" "grows s (f x s)" "grows (f x s) (fold f xs sv)"
proof -
  from \<open>x \<in> set xs\<close> obtain ys zs where xs: "xs = ys @ x # zs" by (auto dest: split_list)
  let ?s = "fold f ys sv"
  have s: "grows sv ?s" by (rule fold_grows) (use assms(1) step xs in auto)
  then have fs: "grows ?s (f x ?s)" using step xs by simp
  have "grows (f x ?s) (fold f zs (f x ?s))"
  proof (rule fold_grows)
    show "solver_ok (f x ?s)" using fs growsD by blast
    fix y t assume "y \<in> set zs" and "grows (f x ?s) t"
    then show "grows t (f y t)" using step [of y t] xs grows_trans [OF grows_trans [OF s fs]] by simp
  qed
  with s fs that [of ?s] show ?thesis by (simp add: xs)
qed

section \<open>The propagation rules\<close>

lemma propagate_field_store_grows:
  assumes enum: "enumerates enum" and ok: "solver_ok sv" and fin: "finite B"
  shows "grows sv (propagate_field_store enum B f s sv)"
    and "loc \<in> B \<Longrightarrow> pts sv s \<subseteq> pts (propagate_field_store enum B f s sv) (create_field_location loc f)"
proof -
  let ?g = "\<lambda>l. grow_points_to l (pts sv s)"
  let ?ls = "map (\<lambda>loc. create_field_location loc f) (enum B)"
  have eq: "propagate_field_store enum B f s sv = fold ?g ?ls sv"
    by (simp add: propagate_field_store_def Let_def)
  have fin_s: "finite (pts sv s)" using ok by (simp add: solver_ok_def)
  have step: "grows t (?g l t)" if "grows sv t" for l t
    using grow_points_to_grows(1) [OF _ fin_s] growsD(2) [OF that] by blast
  show "grows sv (propagate_field_store enum B f s sv)"
    unfolding eq by (rule fold_grows [OF ok]) (rule step)
  assume "loc \<in> B"
  then have "create_field_location loc f \<in> set ?ls"
    using enumeratesD [OF enum fin] by simp
  then obtain t where t: "grows sv t" "grows (?g (create_field_location loc f) t) (fold ?g ?ls sv)"
    using fold_grows_at [OF ok, of ?ls ?g "create_field_location loc f"] step by blast
  have "pts sv s \<subseteq> pts (?g (create_field_location loc f) t) (create_field_location loc f)"
    using grow_points_to_grows(2) [OF growsD(2) [OF t(1)] fin_s] by simp
  then show "pts sv s \<subseteq> pts (propagate_field_store enum B f s sv) (create_field_location loc f)"
    unfolding eq using growsD(3) [OF t(2)] by blast
qed

lemma propagate_target_grows:
  assumes ok: "solver_ok sv" and fin: "finite C"
  shows "grows sv (propagate_target v C t sv)"
    and "indexed cs sv \<Longrightarrow> CopyC t v \<in> set cs \<Longrightarrow> \<not> has_load cs t \<Longrightarrow> C \<subseteq> pts (propagate_target v C t sv) t"
    and "indexed cs sv \<Longrightarrow> FieldLoadC t v f \<in> set cs \<Longrightarrow> loc \<in> C \<Longrightarrow>
      create_field_location loc f \<in> pts (propagate_target v C t sv) t"
proof -
  let ?g = "\<lambda>(b, f) sv. if b = v then propagate_field_load t C f sv else sv"
  have step: "grows s (?g l s)" if "grows sv s" for l s
    using grow_points_to_grows(1) [of s "(\<lambda>loc. create_field_location loc (snd l)) ` C" t]
      growsD(2) [OF that] fin grows_refl
    by (cases l) (auto simp: propagate_field_load_def)
  show "grows sv (propagate_target v C t sv)"
  proof (cases "sv_field_loads sv t")
    case None
    then show ?thesis
      using grow_points_to_grows(1) [OF ok fin] grows_refl [OF ok]
      by (auto simp: propagate_target_def propagate_copy_def)
  next
    case (Some ls)
    have "grows sv (fold ?g ls sv)" by (rule fold_grows [OF ok]) (rule step)
    then show ?thesis by (simp add: propagate_target_def Some)
  qed
  show "C \<subseteq> pts (propagate_target v C t sv) t"
    if i: "indexed cs sv" and c: "CopyC t v \<in> set cs" and l: "\<not> has_load cs t"
  proof -
    have "sv_field_loads sv t = None" "sv_copy_constraints sv t \<noteq> None"
      using i c l unfolding indexed_def by blast+
    then show ?thesis
      using grow_points_to_grows(2) [OF ok fin, of t t] by (auto simp: propagate_target_def propagate_copy_def)
  qed
  show "create_field_location loc f \<in> pts (propagate_target v C t sv) t"
    if i: "indexed cs sv" and c: "FieldLoadC t v f \<in> set cs" and loc: "loc \<in> C"
  proof -
    have "(v, f) \<in> set (get_list (sv_field_loads sv) t)" using i c unfolding indexed_def by blast
    then obtain ls where ls: "sv_field_loads sv t = Some ls" "(v, f) \<in> set ls"
      by (cases "sv_field_loads sv t") (auto simp: get_list_def)
    obtain s where s: "grows sv s" "grows (?g (v, f) s) (fold ?g ls sv)"
      using fold_grows_at [OF ok, of ls ?g "(v, f)"] step ls(2) by blast
    have "create_field_location loc f \<in> pts (?g (v, f) s) t"
      using grow_points_to_grows(2) [OF growsD(2) [OF s(1)], of "(\<lambda>loc. create_field_location loc f) ` C" t t] fin loc
      by (simp add: propagate_field_load_def)
    then have "create_field_location loc f \<in> pts (fold ?g ls sv) t" using growsD(3) [OF s(2)] by blast
    then show ?thesis by (simp add: propagate_target_def ls(1))
  qed
qed

text \<open>
  After a variable was propagated, every constraint it triggers holds or has a queued trigger.
\<close>

lemma propagate_variable_sat:
  assumes enum: "enumerates enum" and ok: "solver_ok sv" and idx: "indexed cs sv"
  shows "grows sv (propagate_variable enum v sv)"
    and "c \<in> set cs \<Longrightarrow> v \<in> triggers c \<Longrightarrow>
      sat cs (pts (propagate_variable enum v sv)) c \<or>
      (\<exists>w \<in> triggers c. w \<in> set (sv_worklist (propagate_variable enum v sv)))"
proof -
  let ?C = "pts sv v"
  let ?g1 = "propagate_target v ?C" and ?ts = "get_list (sv_reverse_copy sv) v"
  let ?s1 = "fold ?g1 ?ts sv"
  let ?g2 = "\<lambda>(f, s). propagate_field_store enum ?C f s" and ?ss = "get_list (sv_field_stores ?s1) v"
  let ?s2 = "fold ?g2 ?ss ?s1"
  let ?g3 = "\<lambda>(b, f) s. propagate_field_store enum (pts s b) f v s"
  let ?bs = "get_list (sv_reverse_field_stores ?s2) v"
  let ?s3 = "fold ?g3 ?bs ?s2"
  have eq: "propagate_variable enum v sv = ?s3" by (simp add: propagate_variable_def Let_def)
  have fin: "finite ?C" using ok by (simp add: solver_ok_def)
  have step1: "grows s (?g1 t s)" if "grows sv s" for s t
    using propagate_target_grows(1) [OF growsD(2) [OF that] fin] .
  have g1: "grows sv ?s1" by (rule fold_grows [OF ok]) (rule step1)
  have step2: "grows s (?g2 x s)" if "grows ?s1 s" for s x
    using propagate_field_store_grows(1) [OF enum growsD(2) [OF that] fin] by (cases x) simp
  have g2: "grows ?s1 ?s2" by (rule fold_grows [OF growsD(2) [OF g1]]) (rule step2)
  have step3: "grows s (?g3 x s)" if "grows ?s2 s" for s x
    using propagate_field_store_grows(1) [OF enum growsD(2) [OF that]] growsD(2) [OF that]
    by (cases x) (simp add: solver_ok_def)
  have g3: "grows ?s2 ?s3" by (rule fold_grows [OF growsD(2) [OF g2]]) (rule step3)
  note g12 = grows_trans [OF g1 g2] and g23 = grows_trans [OF g2 g3]
  note g13 = grows_trans [OF g1 g23]
  show "grows sv (propagate_variable enum v sv)" unfolding eq by (rule g13)
  assume c: "c \<in> set cs" and v: "v \<in> triggers c"
  show "sat cs (pts (propagate_variable enum v sv)) c \<or>
      (\<exists>w \<in> triggers c. w \<in> set (sv_worklist (propagate_variable enum v sv)))"
    unfolding eq
  proof (rule disjCI)
    assume nq: "\<not> (\<exists>w \<in> triggers c. w \<in> set (sv_worklist ?s3))"
    have same: "pts ?s3 w = pts s w" if "w \<in> triggers c" "grows s ?s3" for w s
      using nq that growsD(5) [OF that(2)] by blast
    have C: "pts ?s3 v = ?C" by (rule same [OF v g13])
    show "sat cs (pts ?s3) c"
    proof (cases c)
      case (CopyC t s)
      with v have "s = v" by simp
      show ?thesis
      proof (cases "has_load cs t")
        case False
        have "t \<in> set ?ts" using idx c CopyC \<open>s = v\<close> unfolding indexed_def by blast
        then obtain s1 where s1: "grows sv s1" "grows (?g1 t s1) ?s1"
          using fold_grows_at [OF ok, of ?ts ?g1 t] step1 by blast
        have "?C \<subseteq> pts (?g1 t s1) t"
          using propagate_target_grows(2) [OF growsD(2) [OF s1(1)] fin, of cs t v] growsD(6) [OF s1(1)]
            idx c CopyC \<open>s = v\<close> False by simp
        then have "?C \<subseteq> pts ?s3 t" using growsD(3) [OF grows_trans [OF s1(2) g23]] by blast
        with C CopyC \<open>s = v\<close> show ?thesis by simp
      qed (simp add: CopyC)
    next
      case (FieldLoadC t b f)
      with v have "b = v" by simp
      have "t \<in> set ?ts" using idx c FieldLoadC \<open>b = v\<close> unfolding indexed_def by blast
      then obtain s1 where s1: "grows sv s1" "grows (?g1 t s1) ?s1"
        using fold_grows_at [OF ok, of ?ts ?g1 t] step1 by blast
      have "create_field_location loc f \<in> pts ?s3 t" if "loc \<in> ?C" for loc
      proof -
        have "create_field_location loc f \<in> pts (?g1 t s1) t"
          using propagate_target_grows(3) [OF growsD(2) [OF s1(1)] fin, of cs t v f loc]
            growsD(6) [OF s1(1)] idx c FieldLoadC \<open>b = v\<close> that by simp
        then show ?thesis using growsD(3) [OF grows_trans [OF s1(2) g23]] by blast
      qed
      with C FieldLoadC \<open>b = v\<close> show ?thesis by simp
    next
      case (FieldStoreC b f s)
      show ?thesis
      proof (cases "b = v")
        case True
        have "indexed cs ?s1" using idx growsD(6) [OF g1] by simp
        then have "(f, s) \<in> set ?ss" using c FieldStoreC True unfolding indexed_def by blast
        then obtain s1 where s1: "grows ?s1 s1" "grows (?g2 (f, s) s1) ?s2"
          using fold_grows_at [OF growsD(2) [OF g1], of ?ss ?g2 "(f, s)"] step2 by blast
        note up = grows_trans [OF s1(2) g3]
        have "pts s1 s \<subseteq> pts ?s3 (create_field_location loc f)" if "loc \<in> ?C" for loc
          using propagate_field_store_grows(2) [OF enum growsD(2) [OF s1(1)] fin that, of s f]
            growsD(3) [OF up, of "create_field_location loc f"] by simp
        moreover have "pts ?s3 s = pts s1 s"
          by (rule same) (use FieldStoreC grows_trans [OF step2 [OF s1(1)] up] in simp_all)
        ultimately show ?thesis using C FieldStoreC True by simp
      next
        case False
        with v FieldStoreC have "s = v" by simp
        have "indexed cs ?s2" using idx growsD(6) [OF g12] by simp
        then have "(b, f) \<in> set ?bs" using c FieldStoreC \<open>s = v\<close> unfolding indexed_def by blast
        then obtain s1 where s1: "grows ?s2 s1" "grows (?g3 (b, f) s1) ?s3"
          using fold_grows_at [OF growsD(2) [OF g2], of ?bs ?g3 "(b, f)"] step3 by blast
        have fin_b: "finite (pts s1 b)" using growsD(2) [OF s1(1)] by (simp add: solver_ok_def)
        have "pts s1 v \<subseteq> pts ?s3 (create_field_location loc f)" if "loc \<in> pts s1 b" for loc
          using propagate_field_store_grows(2) [OF enum growsD(2) [OF s1(1)] fin_b that, of v f]
            growsD(3) [OF s1(2), of "create_field_location loc f"] by simp
        moreover have "pts ?s3 w = pts s1 w" if "w \<in> {b, v}" for w
          by (rule same) (use that FieldStoreC \<open>s = v\<close> grows_trans [OF step3 [OF s1(1)] s1(2)] in auto)
        ultimately show ?thesis using FieldStoreC \<open>s = v\<close> by simp
      qed
    qed (use v in simp)
  qed
qed

section \<open>The rounds\<close>

definition queued_inv :: "alias_constraint list \<Rightarrow> string list \<Rightarrow> solver \<Rightarrow> bool" where
  "queued_inv cs rest sv \<longleftrightarrow>
     solver_ok sv \<and> indexed cs sv \<and>
     (\<forall>c \<in> set cs. sat cs (pts sv) c \<or> (\<exists>w \<in> triggers c. w \<in> set rest \<union> set (sv_worklist sv)))"

lemma queued_inv_step:
  assumes enum: "enumerates enum" and inv: "queued_inv cs (v # rest) sv"
  shows "queued_inv cs rest (propagate_variable enum v sv)"
proof -
  let ?s = "propagate_variable enum v sv"
  have ok: "solver_ok sv" and idx: "indexed cs sv" using inv by (simp_all add: queued_inv_def)
  note g = propagate_variable_sat(1) [OF enum ok idx, of v]
  have "sat cs (pts ?s) c \<or> (\<exists>w \<in> triggers c. w \<in> set rest \<union> set (sv_worklist ?s))" if c: "c \<in> set cs" for c
  proof (cases "v \<in> triggers c")
    case True
    with propagate_variable_sat(2) [OF enum ok idx c] show ?thesis by blast
  next
    case False
    from inv c consider "sat cs (pts sv) c" | w where "w \<in> triggers c" "w \<in> set (v # rest) \<union> set (sv_worklist sv)"
      unfolding queued_inv_def by blast
    then show ?thesis
    proof cases
      case 1
      then show ?thesis using sat_mono [OF 1, of "pts ?s"] growsD(3,5) [OF g] by blast
    next
      case (2 w)
      with False growsD(4) [OF g] show ?thesis by auto
    qed
  qed
  with growsD(2,6) [OF g] idx show ?thesis by (simp add: queued_inv_def)
qed

lemma queued_inv_fold:
  "enumerates enum \<Longrightarrow> queued_inv cs vs sv \<Longrightarrow> queued_inv cs [] (fold (propagate_variable enum) vs sv)"
  by (induction vs arbitrary: sv) (auto dest: queued_inv_step)

definition solver_round :: "(string set \<Rightarrow> string list) \<Rightarrow> solver \<Rightarrow> solver" where
  "solver_round enum sv =
     fold (propagate_variable enum) (sv_worklist sv)
       (sv\<lparr>sv_iterations := sv_iterations sv + 1, sv_last_changed := [], sv_worklist := [], sv_in_worklist := {}\<rparr>)"

lemma solve_loop_round:
  assumes "solve_loop enum sv = Inr sv'"
  shows "(sv_worklist sv = [] \<and> sv' = sv) \<or>
    (sv_worklist sv \<noteq> [] \<and> sv_iterations sv < max_iterations \<and> solve_loop enum (solver_round enum sv) = Inr sv')"
  using assms by (subst (asm) solve_loop.simps) (auto simp: Let_def solver_round_def split: if_splits)

lemma solve_loop_error:
  "solve_loop enum sv = Inl e \<Longrightarrow> sv_iterations sv \<le> max_iterations \<Longrightarrow>
     e = AliasIterationLimit (max_iterations + 1)"
proof (induction enum sv rule: solve_loop.induct)
  case (1 enum sv)
  show ?case
  proof (cases "max_iterations < sv_iterations sv + 1")
    case True
    with "1.prems" show ?thesis by (subst (asm) solve_loop.simps) (auto simp: Let_def split: if_splits)
  next
    case False
    with "1.prems" have "solve_loop enum (solver_round enum sv) = Inl e" "sv_worklist sv \<noteq> []"
      by (subst (asm) solve_loop.simps; auto simp: Let_def solver_round_def split: if_splits)+
    with "1.IH" False show ?thesis by (simp add: solver_round_def Let_def)
  qed
qed

lemma solve_loop_iterations:
  "sv_iterations sv \<le> max_iterations \<Longrightarrow> solve_loop enum sv = Inr sv' \<Longrightarrow> sv_iterations sv' \<le> max_iterations"
proof (induction "max_iterations - sv_iterations sv" arbitrary: sv rule: less_induct)
  case less
  from solve_loop_round [OF less.prems(2)] show ?case
  proof
    assume r: "sv_worklist sv \<noteq> [] \<and> sv_iterations sv < max_iterations \<and>
      solve_loop enum (solver_round enum sv) = Inr sv'"
    have "sv_iterations (solver_round enum sv) = sv_iterations sv + 1" by (simp add: solver_round_def)
    moreover from this r have "max_iterations - sv_iterations (solver_round enum sv) < max_iterations - sv_iterations sv"
      by linarith
    ultimately show ?thesis using r less.hyps [of "solver_round enum sv"] by linarith
  qed (use less.prems in simp)
qed

text \<open>A field location is longer than its base, so no finite set of locations is closed under a field.\<close>

lemma create_field_location_longer: "length base < length (create_field_location base f)"
  by (simp add: create_field_location_def Let_def)

lemma no_finite_field_closure:
  assumes fin: "finite L" and step: "\<And>loc. loc \<in> L \<Longrightarrow> create_field_location loc f \<in> L" and ne: "L \<noteq> {}"
  shows False
proof -
  from ne fin have "Max (length ` L) \<in> length ` L" by simp
  then obtain loc where loc: "loc \<in> L" "length loc = Max (length ` L)" by auto
  from fin step [OF loc(1)] have "length (create_field_location loc f) \<le> Max (length ` L)" by simp
  with create_field_location_longer [of loc f] loc(2) show False by simp
qed

lemma solver_round_iterations: "sv_iterations (solver_round enum sv) = sv_iterations sv + 1"
  by (simp add: solver_round_def)

lemma solve_loop_invariant:
  assumes step: "\<And>s. I s \<Longrightarrow> sv_worklist s \<noteq> [] \<Longrightarrow> I (solver_round enum s)"
  shows "I sv \<Longrightarrow> solve_loop enum sv = Inr sv' \<Longrightarrow> I sv' \<and> sv_worklist sv' = []"
proof (induction "max_iterations - sv_iterations sv" arbitrary: sv rule: less_induct)
  case less
  from solve_loop_round [OF less.prems(2)] show ?case
  proof
    assume r: "sv_worklist sv \<noteq> [] \<and> sv_iterations sv < max_iterations \<and>
      solve_loop enum (solver_round enum sv) = Inr sv'"
    then have "max_iterations - sv_iterations (solver_round enum sv) < max_iterations - sv_iterations sv"
      unfolding solver_round_iterations by linarith
    from less.hyps [OF this] step [OF less.prems(1)] r show ?thesis by blast
  qed (use less.prems in simp)
qed

lemma queued_inv_round:
  assumes "enumerates enum" and "queued_inv cs [] sv"
  shows "queued_inv cs [] (solver_round enum sv)"
  unfolding solver_round_def
  by (rule queued_inv_fold [OF assms(1)])
    (use assms(2) in \<open>auto simp: queued_inv_def solver_ok_def indexed_def\<close>)

section \<open>Minimality\<close>

definition below :: "(string \<Rightarrow> string set) \<Rightarrow> solver \<Rightarrow> bool" where
  "below P sv \<longleftrightarrow> (\<forall>v. pts sv v \<subseteq> P v)"

lemma grow_below: "below P sv \<Longrightarrow> e \<subseteq> P t \<Longrightarrow> below P (grow_points_to t e sv)"
  by (auto simp: below_def grow_points_to_def add_to_worklist_def Let_def)

lemma grow_index: "same_index sv (grow_points_to t e sv)"
  by (simp add: grow_points_to_def add_to_worklist_def Let_def same_index_def)

definition lower_inv :: "alias_constraint list \<Rightarrow> (string \<Rightarrow> string set) \<Rightarrow> solver \<Rightarrow> bool" where
  "lower_inv cs P sv \<longleftrightarrow> below P sv \<and> indexed cs sv \<and> (\<forall>v. finite (pts sv v))"

lemma lower_inv_grow:
  assumes "lower_inv cs P sv" and "e \<subseteq> P t" and "finite e"
  shows "lower_inv cs P (grow_points_to t e sv)"
  using assms grow_below [of P sv e t] same_index_indexed [OF grow_index [of sv t e], of cs]
  by (auto simp: lower_inv_def grow_points_to_def add_to_worklist_def Let_def)

lemma lower_inv_store:
  assumes enum: "enumerates enum" and inv: "lower_inv cs P sv" and "finite B"
    and B: "\<And>loc. loc \<in> B \<Longrightarrow> pts sv s \<subseteq> P (create_field_location loc f)"
  shows "lower_inv cs P (propagate_field_store enum B f s sv)"
  unfolding propagate_field_store_def Let_def
proof (rule fold_invariant [where P = "lower_inv cs P", OF inv])
  fix l t assume l: "l \<in> set (map (\<lambda>loc. create_field_location loc f) (enum B))" and t: "lower_inv cs P t"
  then have "pts sv s \<subseteq> P l" using B enumeratesD [OF enum \<open>finite B\<close>] by auto
  then show "lower_inv cs P (grow_points_to l (pts sv s) t)"
    using t inv by (intro lower_inv_grow) (simp_all add: lower_inv_def)
qed

lemma lower_inv_variable:
  assumes enum: "enumerates enum" and sol: "\<forall>c \<in> set cs. sat cs P c" and inv: "lower_inv cs P sv"
  shows "lower_inv cs P (propagate_variable enum v sv)"
proof -
  let ?C = "pts sv v"
  have C: "?C \<subseteq> P v" "finite ?C" using inv by (auto simp: lower_inv_def below_def)
  have cs: "sat cs P c" if "c \<in> set cs" for c using sol that by blast
  have idx: "indexed cs sv" using inv by (simp add: lower_inv_def)
  have target: "lower_inv cs P (propagate_target v ?C t s)"
    if s: "lower_inv cs P s" and t: "t \<in> set (get_list (sv_reverse_copy sv) v)" for s t
  proof (cases "sv_field_loads s t")
    case None
    have i: "indexed cs s" using s by (simp add: lower_inv_def)
    then have nl: "\<not> has_load cs t" using None unfolding indexed_def by blast
    have "CopyC t v \<in> set cs \<or> (\<exists>f. FieldLoadC t v f \<in> set cs)" using idx t unfolding indexed_def by blast
    with nl have "CopyC t v \<in> set cs" by (auto simp: has_load_def)
    from cs [OF this] nl C have "?C \<subseteq> P t" by auto
    then show ?thesis
      using s C(2) None by (auto simp: propagate_target_def propagate_copy_def intro: lower_inv_grow)
  next
    case (Some ls)
    have i: "indexed cs s" using s by (simp add: lower_inv_def)
    have "lower_inv cs P (fold (\<lambda>(b, f) sv. if b = v then propagate_field_load t ?C f sv else sv) ls s)"
    proof (rule fold_invariant [where P = "lower_inv cs P", OF s])
      fix x u assume x: "x \<in> set ls" and u: "lower_inv cs P u"
      obtain b f where bf: "x = (b, f)" by (cases x)
      have "(b, f) \<in> set (get_list (sv_field_loads s) t)" using x bf Some by (simp add: get_list_def)
      then have "FieldLoadC t b f \<in> set cs" using i unfolding indexed_def by blast
      from cs [OF this] have "(\<lambda>loc. create_field_location loc f) ` P b \<subseteq> P t" by auto
      then show "lower_inv cs P ((\<lambda>(b, f) sv. if b = v then propagate_field_load t ?C f sv else sv) x u)"
        using u C bf by (auto simp: propagate_field_load_def intro!: lower_inv_grow)
    qed
    then show ?thesis by (simp add: propagate_target_def Some)
  qed
  let ?s1 = "fold (propagate_target v ?C) (get_list (sv_reverse_copy sv) v) sv"
  have s1: "lower_inv cs P ?s1" by (rule fold_invariant [where P = "lower_inv cs P", OF inv]) (rule target)
  let ?s2 = "fold (\<lambda>(f, s). propagate_field_store enum ?C f s) (get_list (sv_field_stores ?s1) v) ?s1"
  have s2: "lower_inv cs P ?s2"
  proof (rule fold_invariant [where P = "lower_inv cs P", OF s1])
    fix x u assume x: "x \<in> set (get_list (sv_field_stores ?s1) v)" and u: "lower_inv cs P u"
    obtain f s where fs: "x = (f, s)" by (cases x)
    have "FieldStoreC v f s \<in> set cs" using x fs s1 unfolding lower_inv_def indexed_def by blast
    from cs [OF this] C have "P s \<subseteq> P (create_field_location loc f)" if "loc \<in> ?C" for loc using that by auto
    moreover have "pts u s \<subseteq> P s" using u by (simp add: lower_inv_def below_def)
    ultimately have "lower_inv cs P (propagate_field_store enum ?C f s u)"
      by (intro lower_inv_store [OF enum u C(2)]) blast
    then show "lower_inv cs P ((\<lambda>(f, s). propagate_field_store enum ?C f s) x u)" by (simp add: fs)
  qed
  have "lower_inv cs P (fold (\<lambda>(b, f) s. propagate_field_store enum (pts s b) f v s)
      (get_list (sv_reverse_field_stores ?s2) v) ?s2)"
  proof (rule fold_invariant [where P = "lower_inv cs P", OF s2])
    fix x u assume x: "x \<in> set (get_list (sv_reverse_field_stores ?s2) v)" and u: "lower_inv cs P u"
    obtain b f where bf: "x = (b, f)" by (cases x)
    have "FieldStoreC b f v \<in> set cs" using x bf s2 unfolding lower_inv_def indexed_def by blast
    from cs [OF this] have st: "P v \<subseteq> P (create_field_location loc f)" if "loc \<in> P b" for loc using that by auto
    have sub: "pts u b \<subseteq> P b" "pts u v \<subseteq> P v" "finite (pts u b)"
      using u by (simp_all add: lower_inv_def below_def)
    have "lower_inv cs P (propagate_field_store enum (pts u b) f v u)"
      by (rule lower_inv_store [OF enum u sub(3)]) (use st sub in blast)
    then show "lower_inv cs P ((\<lambda>(b, f) s. propagate_field_store enum (pts s b) f v s) x u)" by (simp add: bf)
  qed
  then show ?thesis by (simp add: propagate_variable_def Let_def)
qed

lemma lower_inv_round:
  assumes "enumerates enum" and "\<forall>c \<in> set cs. sat cs P c" and "lower_inv cs P sv"
  shows "lower_inv cs P (solver_round enum sv)"
  unfolding solver_round_def
proof (rule fold_invariant [where P = "lower_inv cs P"])
  show "lower_inv cs P (sv\<lparr>sv_iterations := sv_iterations sv + 1, sv_last_changed := [], sv_worklist := [], sv_in_worklist := {}\<rparr>)"
    using assms(3) by (simp add: lower_inv_def below_def indexed_def)
qed (rule lower_inv_variable [OF assms(1,2)])

section \<open>The initial state\<close>

text \<open>Every variable with a location is queued, and the locations are those of the allocations and parameters.\<close>

definition init_inv :: "constraint_extractor \<Rightarrow> solver \<Rightarrow> bool" where
  "init_inv ex sv \<longleftrightarrow>
     solver_ok sv \<and> (\<forall>v. pts sv v \<noteq> {} \<longrightarrow> v \<in> set (sv_worklist sv)) \<and>
     (\<forall>v. \<forall>l \<in> pts sv v. (\<exists>site. AllocC v site \<in> set (ex_constraints ex) \<and> l = loc_format site) \<or>
        (v \<in> ex_parameters ex \<and> l = loc_format (LocParam v)))"

lemma add_worklist_sel [simp]:
  "sv_points_to (add_to_worklist v sv) = sv_points_to sv"
  "same_index sv (add_to_worklist v sv)"
  by (simp_all add: add_to_worklist_def same_index_def)

lemma init_inv_add:
  assumes "init_inv ex sv"
    and "(\<exists>site. AllocC v site \<in> set (ex_constraints ex) \<and> l = loc_format site) \<or>
      (v \<in> ex_parameters ex \<and> l = loc_format (LocParam v))"
  defines "sv' \<equiv> add_to_worklist v (sv\<lparr>sv_points_to := entry_insert v l (sv_points_to sv)\<rparr>)"
  shows "init_inv ex sv'" "same_index sv sv'" "pts sv' w = (if w = v then insert l (pts sv v) else pts sv w)"
proof -
  show p: "pts sv' w = (if w = v then insert l (pts sv v) else pts sv w)" for w
    by (simp add: sv'_def)
  show "same_index sv sv'" by (simp add: sv'_def add_to_worklist_def same_index_def)
  have "solver_ok sv'" "set (sv_worklist sv') = insert v (set (sv_worklist sv))"
    using assms(1) by (auto simp: sv'_def add_to_worklist_def solver_ok_def init_inv_def)
  with assms(1,2) show "init_inv ex sv'" unfolding init_inv_def p by auto
qed

text \<open>The allocations seen so far, or the parameters, are in the sets.\<close>

lemma initialize_allocs_inv:
  assumes "set cs \<subseteq> set (ex_constraints ex)" and "init_inv ex sv"
  shows "init_inv ex (fold initialize_alloc cs sv) \<and> same_index sv (fold initialize_alloc cs sv) \<and>
    (\<forall>v. pts sv v \<subseteq> pts (fold initialize_alloc cs sv) v) \<and>
    (\<forall>t site. AllocC t site \<in> set cs \<longrightarrow> loc_format site \<in> pts (fold initialize_alloc cs sv) t)"
  using assms
proof (induction cs arbitrary: sv)
  case Nil
  then show ?case by (simp add: same_index_def)
next
  case (Cons c cs)
  let ?s = "initialize_alloc c sv"
  have s: "init_inv ex ?s \<and> same_index sv ?s \<and> (\<forall>v. pts sv v \<subseteq> pts ?s v) \<and>
      (\<forall>t site. c = AllocC t site \<longrightarrow> loc_format site \<in> pts ?s t)"
  proof (cases c)
    case (AllocC t site)
    then have a: "(\<exists>site'. AllocC t site' \<in> set (ex_constraints ex) \<and> loc_format site = loc_format site') \<or>
        (t \<in> ex_parameters ex \<and> loc_format site = loc_format (LocParam t))" using Cons.prems(1) by auto
    show ?thesis using init_inv_add [OF Cons.prems(2) a] AllocC by auto
  qed (use Cons.prems in \<open>simp_all add: same_index_def\<close>)
  have "init_inv ex (fold initialize_alloc cs ?s) \<and> same_index ?s (fold initialize_alloc cs ?s) \<and>
      (\<forall>v. pts ?s v \<subseteq> pts (fold initialize_alloc cs ?s) v) \<and>
      (\<forall>t site. AllocC t site \<in> set cs \<longrightarrow> loc_format site \<in> pts (fold initialize_alloc cs ?s) t)"
    by (rule Cons.IH) (use Cons.prems(1) s in simp_all)
  with s same_index_trans [of sv ?s] show ?case unfolding fold_simps set_simps by blast
qed

lemma initialize_parameters_inv:
  assumes "set ps \<subseteq> ex_parameters ex" and "init_inv ex sv"
  shows "init_inv ex (fold initialize_parameter ps sv) \<and> same_index sv (fold initialize_parameter ps sv) \<and>
    (\<forall>v. pts sv v \<subseteq> pts (fold initialize_parameter ps sv) v) \<and>
    (\<forall>p \<in> set ps. loc_format (LocParam p) \<in> pts (fold initialize_parameter ps sv) p)"
  using assms
proof (induction ps arbitrary: sv)
  case Nil
  then show ?case by (simp add: same_index_def)
next
  case (Cons p ps)
  let ?s = "initialize_parameter p sv"
  have a: "(\<exists>site'. AllocC p site' \<in> set (ex_constraints ex) \<and> loc_format (LocParam p) = loc_format site') \<or>
      (p \<in> ex_parameters ex \<and> loc_format (LocParam p) = loc_format (LocParam p))" using Cons.prems(1) by auto
  note s = init_inv_add [OF Cons.prems(2) a, folded initialize_parameter_def]
  have "init_inv ex (fold initialize_parameter ps ?s) \<and> same_index ?s (fold initialize_parameter ps ?s) \<and>
      (\<forall>v. pts ?s v \<subseteq> pts (fold initialize_parameter ps ?s) v) \<and>
      (\<forall>p \<in> set ps. loc_format (LocParam p) \<in> pts (fold initialize_parameter ps ?s) p)"
    by (rule Cons.IH) (use Cons.prems(1) s(1) in simp_all)
  moreover have "pts sv v \<subseteq> pts ?s v" for v using s(3) [of v] by auto
  moreover have "loc_format (LocParam p) \<in> pts ?s p" using s(3) [of p] by simp
  ultimately show ?case using s(2) same_index_trans [of sv ?s] unfolding fold_simps set_simps by blast
qed

lemma solver_new_inv:
  assumes enum: "enumerates enum" and fin: "finite (ex_parameters ex)"
  shows "init_inv ex (solver_new enum ex)" "indexed (ex_constraints ex) (solver_new enum ex)"
    "sv_parameters (solver_new enum ex) = ex_parameters ex"
    "AllocC t site \<in> set (ex_constraints ex) \<Longrightarrow> loc_format site \<in> pts (solver_new enum ex) t"
    "p \<in> ex_parameters ex \<Longrightarrow> loc_format (LocParam p) \<in> pts (solver_new enum ex) p"
proof -
  let ?s0 = "index_constraints (ex_constraints ex) (solver_empty ex)"
  let ?s1 = "initialize_allocs ex ?s0" and ?s2 = "solver_new enum ex"
  have frame: "sv_points_to (fold index_constraint cs sv) = sv_points_to sv \<and>
      sv_worklist (fold index_constraint cs sv) = sv_worklist sv \<and>
      sv_in_worklist (fold index_constraint cs sv) = sv_in_worklist sv \<and>
      sv_parameters (fold index_constraint cs sv) = sv_parameters sv" for cs sv
  proof (induction cs arbitrary: sv)
    case (Cons c cs)
    then show ?case by (cases c) simp_all
  qed simp
  have idx: "indexed (ex_constraints ex) ?s0"
    using indexed_constraints [of "[]" "solver_empty ex" "ex_constraints ex"]
    by (simp add: index_constraints_def indexed_def solver_empty_def has_load_def)
  have i0: "init_inv ex ?s0"
    using frame [of "ex_constraints ex" "solver_empty ex"]
    by (simp add: index_constraints_def init_inv_def solver_ok_def solver_empty_def)
  note s1 = initialize_allocs_inv [OF order_refl i0, folded initialize_allocs_def]
  have par: "sv_parameters ?s1 = ex_parameters ex"
    using s1 frame [of "ex_constraints ex" "solver_empty ex"]
    by (simp add: same_index_def index_constraints_def solver_empty_def)
  have ps: "set (enum (ex_parameters ex)) = ex_parameters ex" by (rule enumeratesD [OF enum fin])
  have eq: "?s2 = fold initialize_parameter (enum (ex_parameters ex)) ?s1"
    by (simp add: solver_new_def initialize_parameters_def par)
  note s2 = initialize_parameters_inv [of "enum (ex_parameters ex)" ex ?s1, folded eq]
  show "init_inv ex ?s2" "p \<in> ex_parameters ex \<Longrightarrow> loc_format (LocParam p) \<in> pts ?s2 p"
    using s1 s2 ps by simp_all
  show "indexed (ex_constraints ex) ?s2"
    using same_index_indexed [of ?s0 ?s1] same_index_indexed [of ?s1 ?s2] idx s1 s2 ps by simp
  show "sv_parameters ?s2 = ex_parameters ex"
    using s2 s1 ps par by (simp add: same_index_def)
  show "loc_format site \<in> pts ?s2 t" if "AllocC t site \<in> set (ex_constraints ex)"
    using s1 s2 ps that by blast
qed

lemma init_queued:
  assumes init: "init_inv ex sv" and idx: "indexed (ex_constraints ex) sv"
    and alloc: "\<And>t site. AllocC t site \<in> set (ex_constraints ex) \<Longrightarrow> loc_format site \<in> pts sv t"
  shows "queued_inv (ex_constraints ex) [] sv"
  unfolding queued_inv_def
proof (intro conjI ballI)
  show "solver_ok sv" using init by (simp add: init_inv_def)
  fix c assume c: "c \<in> set (ex_constraints ex)"
  have empty: "pts sv v = {}" if "v \<notin> set (sv_worklist sv)" for v
    using init that by (auto simp: init_inv_def)
  show "sat (ex_constraints ex) (pts sv) c \<or> (\<exists>w \<in> triggers c. w \<in> set [] \<union> set (sv_worklist sv))"
    using empty alloc c by (cases c) auto
qed (rule idx)

theorem solve_least_solution:
  assumes enum: "enumerates enum" and fin: "finite (ex_parameters ex)"
    and r: "solve enum (solver_new enum ex) = Inr sv"
  shows "solution ex (pts sv)" and "solution ex P \<Longrightarrow> pts sv v \<subseteq> P v"
    and "indexed (ex_constraints ex) sv" "sv_worklist sv = []" "solver_ok sv"
    "same_index (solver_new enum ex) sv"
proof -
  let ?s0 = "(solver_new enum ex)\<lparr>sv_iterations := 0\<rparr>" and ?cs = "ex_constraints ex"
  note new = solver_new_inv [OF enum fin]
  have i0: "init_inv ex ?s0" "indexed ?cs ?s0" using new(1,2) by (simp_all add: init_inv_def solver_ok_def indexed_def)
  have q: "queued_inv ?cs [] ?s0" by (rule init_queued [OF i0]) (use new(4) in simp)
  have loop: "solve_loop enum ?s0 = Inr sv" using r by (simp add: solve_def)
  define Par where "Par s \<longleftrightarrow> (\<forall>p \<in> ex_parameters ex. loc_format (LocParam p) \<in> pts s p)" for s
  have par_round: "Par (solver_round enum s)" if "Par s" "queued_inv ?cs [] s" for s
  proof -
    let ?s = "s\<lparr>sv_iterations := sv_iterations s + 1, sv_last_changed := [], sv_worklist := [], sv_in_worklist := {}\<rparr>"
    have "solver_ok ?s" "indexed ?cs ?s" using that(2) by (auto simp: queued_inv_def solver_ok_def indexed_def)
    then have "grows ?s (fold (propagate_variable enum) (sv_worklist s) ?s)"
      using propagate_variable_sat(1) [OF enum] growsD(2,6) by (intro fold_grows) blast+
    then have "pts s p \<subseteq> pts (solver_round enum s) p" for p
      using growsD(3) [of ?s _ p] unfolding solver_round_def by simp
    with that(1) show ?thesis unfolding Par_def by blast
  qed
  have "Par ?s0" using new(5) by (simp add: Par_def)
  with q have inv: "(queued_inv ?cs [] sv \<and> Par sv) \<and> sv_worklist sv = []"
    by (intro solve_loop_invariant [where I = "\<lambda>s. queued_inv ?cs [] s \<and> Par s", OF _ _ loop])
      (auto intro: queued_inv_round [OF enum] par_round)
  then show "solution ex (pts sv)" by (auto simp: solution_def queued_inv_def Par_def)
  show "indexed ?cs sv" "sv_worklist sv = []" "solver_ok sv"
    using inv by (auto simp: queued_inv_def)
  have "queued_inv ?cs [] (solver_round enum s) \<and> same_index (solver_new enum ex) (solver_round enum s)"
    if "queued_inv ?cs [] s \<and> same_index (solver_new enum ex) s" for s
  proof -
    let ?s = "s\<lparr>sv_iterations := sv_iterations s + 1, sv_last_changed := [], sv_worklist := [], sv_in_worklist := {}\<rparr>"
    have "solver_ok ?s" "indexed ?cs ?s" using that by (auto simp: queued_inv_def solver_ok_def indexed_def)
    then have "grows ?s (fold (propagate_variable enum) (sv_worklist s) ?s)"
      using propagate_variable_sat(1) [OF enum] growsD(2,6) by (intro fold_grows) blast+
    then have "same_index ?s (solver_round enum s)" by (simp add: grows_def solver_round_def)
    then have "same_index s (solver_round enum s)" by (simp add: same_index_def)
    with that queued_inv_round [OF enum] same_index_trans show ?thesis by blast
  qed
  then have "(queued_inv ?cs [] sv \<and> same_index (solver_new enum ex) sv) \<and> sv_worklist sv = []"
    by (intro solve_loop_invariant [where I = "\<lambda>s. queued_inv ?cs [] s \<and> same_index (solver_new enum ex) s", OF _ _ loop])
      (use q in \<open>auto simp: same_index_def\<close>)
  then show "same_index (solver_new enum ex) sv" by simp
  assume P: "solution ex P"
  then have sat: "\<forall>c \<in> set ?cs. sat ?cs P c" by (simp add: solution_def)
  have "below P ?s0" unfolding below_def
  proof (intro allI subsetI)
    fix v l assume "l \<in> pts ?s0 v"
    then show "l \<in> P v" using i0(1) P by (fastforce simp: init_inv_def solution_def)
  qed
  then have "lower_inv ?cs P ?s0" using i0 by (simp add: lower_inv_def init_inv_def solver_ok_def)
  then have "lower_inv ?cs P sv \<and> sv_worklist sv = []"
    by (intro solve_loop_invariant [where I = "lower_inv ?cs P", OF _ _ loop] lower_inv_round [OF enum sat])
  then show "pts sv v \<subseteq> P v" by (simp add: lower_inv_def below_def)
qed

end
