(* ===== verification/Alias_Results.thy ===== *)
theory Alias_Results
  imports Alias_Correct
begin

text \<open>
  What \<open>build_alias_info\<close> reports: may-alias is overlap of the points-to sets, a copy constraint or
  two parameters; must-alias is the equivalence closure of the copies that do not come from phi
  functions. The rounds of \<open>transitive_closure\<close> square the relation, so the code's limit of 100
  rounds is never felt.
\<close>

section \<open>Pairs and folds\<close>

lemma list_pairs_iff:
  "distinct xs \<Longrightarrow> x \<noteq> y \<Longrightarrow>
     (x, y) \<in> set (list_pairs xs) \<or> (y, x) \<in> set (list_pairs xs) \<longleftrightarrow> x \<in> set xs \<and> y \<in> set xs"
  by (induction xs) auto

lemma list_pairs_distinct: "distinct xs \<Longrightarrow> (x, y) \<in> set (list_pairs xs) \<Longrightarrow> x \<noteq> y"
  by (induction xs) auto

text \<open>The relation a map of sets stands for.\<close>

definition map_rel :: "('k \<rightharpoonup> 'k set) \<Rightarrow> ('k \<times> 'k) set" where
  "map_rel m = {(a, b). b \<in> get_set m a}"

lemma map_rel_iff [simp]: "(a, b) \<in> map_rel m \<longleftrightarrow> b \<in> get_set m a"
  by (simp add: map_rel_def)

lemma map_rel_empty [simp]: "map_rel Map.empty = {}"
  by (simp add: map_rel_def)

lemma map_rel_insert [simp]: "map_rel (entry_insert a b m) = insert (a, b) (map_rel m)"
  by (auto simp: map_rel_def split: if_splits)

definition sym_pairs :: "('a \<times> 'a) set \<Rightarrow> ('a \<times> 'a) set" where
  "sym_pairs E = (E \<union> E\<inverse>) - Id"

lemma sym_pairs_Un [simp]: "sym_pairs (A \<union> B) = sym_pairs A \<union> sym_pairs B"
  by (auto simp: sym_pairs_def)

lemma sym_pairs_empty [simp]: "sym_pairs {} = {}"
  by (simp add: sym_pairs_def)

lemma may_rel_add: "map_rel (ai_may_alias (add_may_alias a b info)) = map_rel (ai_may_alias info) \<union> sym_pairs {(a, b)}"
  by (auto simp: map_rel_def sym_pairs_def)

lemma must_rel_add:
  "map_rel (ai_must_alias (add_must_alias a b info)) = map_rel (ai_must_alias info) \<union> sym_pairs {(a, b)}"
  by (auto simp: map_rel_def sym_pairs_def)

lemma may_rel_fold:
  "map_rel (ai_may_alias (fold (\<lambda>(a, b) info. if Q a b then add_may_alias a b info else info) ps info)) =
     map_rel (ai_may_alias info) \<union> sym_pairs {(a, b). (a, b) \<in> set ps \<and> Q a b}"
proof -
  have "map_rel (ai_may_alias (fold (\<lambda>(a, b) info. if Q a b then add_may_alias a b info else info) ps info)) =
      map_rel (ai_may_alias info) \<union> (\<Union>(a, b) \<in> set ps. if Q a b then sym_pairs {(a, b)} else {})"
    by (rule fold_collect) (auto simp: may_rel_add split: prod.split)
  also have "(\<Union>(a, b) \<in> set ps. if Q a b then sym_pairs {(a, b)} else {}) =
      sym_pairs {(a, b). (a, b) \<in> set ps \<and> Q a b}"
    by (auto simp: sym_pairs_def split: if_splits)
  finally show ?thesis .
qed

lemma sym_pairs_sources:
  "(\<Union>t \<in> T. \<Union>s \<in> S t. sym_pairs {(t, s)}) = sym_pairs {(t, s). t \<in> T \<and> s \<in> S t}"
  by (auto simp: sym_pairs_def)

lemma may_rel_fold_sources:
  "map_rel (ai_may_alias (fold (\<lambda>t. fold (\<lambda>s. add_may_alias t s) (g t)) ts info)) =
     map_rel (ai_may_alias info) \<union> sym_pairs {(t, s). t \<in> set ts \<and> s \<in> set (g t)}"
  unfolding sym_pairs_sources [symmetric]
  by (intro fold_collect [where h = "\<lambda>i. map_rel (ai_may_alias i)"] may_rel_add)

lemma must_rel_fold_sources:
  "map_rel (ai_must_alias (fold (\<lambda>t. fold (\<lambda>s. add_must_alias t s) (g t)) ts info)) =
     map_rel (ai_must_alias info) \<union> sym_pairs {(t, s). t \<in> set ts \<and> s \<in> set (g t)}"
  unfolding sym_pairs_sources [symmetric]
  by (intro fold_collect [where h = "\<lambda>i. map_rel (ai_must_alias i)"] must_rel_add)

lemma sym_pairs_list_pairs:
  assumes "distinct xs"
  shows "sym_pairs {(a, b). (a, b) \<in> set (list_pairs xs) \<and> Q a b} =
    {(a, b). a \<noteq> b \<and> a \<in> set xs \<and> b \<in> set xs \<and>
       ((a, b) \<in> set (list_pairs xs) \<and> Q a b \<or> (b, a) \<in> set (list_pairs xs) \<and> Q b a)}"
  using list_pairs_iff [OF assms] by (auto simp: sym_pairs_def)

lemma sym_pairs_list_pairs_sym:
  assumes "distinct xs" and "\<And>a b. Q a b = Q b a"
  shows "sym_pairs {(a, b). (a, b) \<in> set (list_pairs xs) \<and> Q a b} =
    {(a, b). a \<noteq> b \<and> a \<in> set xs \<and> b \<in> set xs \<and> Q a b}"
  unfolding sym_pairs_list_pairs [OF assms(1)] using list_pairs_iff [OF assms(1)] assms(2) by blast

text \<open>Each part of \<open>build_alias_info\<close> leaves the other maps alone.\<close>

lemma fold_frame: "(\<And>x s. x \<in> set xs \<Longrightarrow> h (f x s) = h s) \<Longrightarrow> h (fold f xs s) = h s"
  by (induction xs arbitrary: s) simp_all

lemma may_frame [simp]:
  "ai_points_to (compute_may_alias enum sv info) = ai_points_to info"
  "ai_must_alias (compute_may_alias enum sv info) = ai_must_alias info"
  by (simp_all add: compute_may_alias_def Let_def fold_frame split: prod.split)

lemma must_frame [simp]:
  "ai_points_to (compute_must_alias enum sv info) = ai_points_to info"
  "ai_may_alias (compute_must_alias enum sv info) = ai_may_alias info"
  by (simp_all add: compute_must_alias_def Let_def fold_frame)

lemma param_frame [simp]:
  "ai_points_to (add_parameter_aliasing enum sv info) = ai_points_to info"
  "ai_must_alias (add_parameter_aliasing enum sv info) = ai_must_alias info"
  by (simp_all add: add_parameter_aliasing_def fold_frame split: prod.split)

lemma alloc_frame [simp]:
  "ai_may_alias (record_alloc_site p info) = ai_may_alias info"
  "ai_must_alias (record_alloc_site p info) = ai_must_alias info"
  by (auto simp: record_alloc_site_def add_points_to_def add_allocation_site_def Let_def
      split: prod.split abstract_location.split)

section \<open>May-alias\<close>

lemma compute_may_alias_rel:
  assumes enum: "enumerates enum" and "finite (dom (sv_points_to sv))" and "finite (dom (sv_copy_constraints sv))"
  shows "map_rel (ai_may_alias (compute_may_alias enum sv info)) =
    map_rel (ai_may_alias info) \<union> {(a, b). a \<noteq> b \<and> pts sv a \<inter> pts sv b \<noteq> {}} \<union>
    sym_pairs {(t, s). s \<in> set (get_list (sv_copy_constraints sv) t)}"
proof -
  let ?vars = "enum (dom (sv_points_to sv))"
  have vars: "set ?vars = dom (sv_points_to sv)" "distinct ?vars"
    using enum assms(2) by (simp_all add: enumerates_def)
  have "a \<in> dom (sv_points_to sv)" if "pts sv a \<noteq> {}" for a
    using that by (auto simp: get_set_def split: option.splits)
  then have "{(a, b). a \<noteq> b \<and> a \<in> set ?vars \<and> b \<in> set ?vars \<and> pts sv a \<inter> pts sv b \<noteq> {}} =
      {(a, b). a \<noteq> b \<and> pts sv a \<inter> pts sv b \<noteq> {}}"
    unfolding vars(1) by blast
  then have "sym_pairs {(a, b). (a, b) \<in> set (list_pairs ?vars) \<and> pts sv a \<inter> pts sv b \<noteq> {}} =
      {(a, b). a \<noteq> b \<and> pts sv a \<inter> pts sv b \<noteq> {}}"
    using sym_pairs_list_pairs_sym [OF vars(2), of "\<lambda>a b. pts sv a \<inter> pts sv b \<noteq> {}"] by (simp add: Int_commute)
  moreover have "{(t, s). t \<in> set (enum (dom (sv_copy_constraints sv))) \<and> s \<in> set (get_list (sv_copy_constraints sv) t)} =
      {(t, s). s \<in> set (get_list (sv_copy_constraints sv) t)}"
    using enumeratesD [OF enum assms(3)] by (auto simp: get_list_def split: option.splits)
  ultimately show ?thesis
    by (simp add: compute_may_alias_def Let_def may_rel_fold may_rel_fold_sources)
qed

lemma add_parameter_aliasing_rel:
  assumes enum: "enumerates enum" and "finite (sv_parameters sv)"
  shows "map_rel (ai_may_alias (add_parameter_aliasing enum sv info)) =
    map_rel (ai_may_alias info) \<union> {(p, q). p \<noteq> q \<and> p \<in> sv_parameters sv \<and> q \<in> sv_parameters sv}"
proof -
  let ?ps = "enum (sv_parameters sv)"
  have ps: "set ?ps = sv_parameters sv" "distinct ?ps" using enum assms(2) by (simp_all add: enumerates_def)
  have "sym_pairs {(a, b). (a, b) \<in> set (list_pairs ?ps)} = {(p, q). p \<noteq> q \<and> p \<in> sv_parameters sv \<and> q \<in> sv_parameters sv}"
    using sym_pairs_list_pairs_sym [OF ps(2), of "\<lambda>a b. True"] ps(1) by simp
  then show ?thesis
    using may_rel_fold [of "\<lambda>a b. True" "list_pairs ?ps" info]
    by (simp add: add_parameter_aliasing_def)
qed

section \<open>The closure of the direct must-aliases\<close>

lemma relpow_square: "(R O R) ^^ n = R ^^ (2 * n)" for R :: "('a \<times> 'a) set"
  by (induction n) (simp_all add: O_assoc)

lemma apply_update_eq:
  "apply_update (a, b) (r, ch) = (entry_insert a b r, ch \<or> b \<notin> get_set r a)"
  by (simp add: apply_update_def)

lemma apply_updates:
  "fold apply_update us (r, ch) =
     (fst (fold apply_update us (r, ch)), ch \<or> \<not> set us \<subseteq> map_rel r)"
  "map_rel (fst (fold apply_update us (r, ch))) = map_rel r \<union> set us"
proof (induction us arbitrary: r ch)
  case (Cons u us)
  obtain a b where u: "u = (a, b)" by (cases u)
  {
    case 1
    show ?case using Cons.IH(1) [of "entry_insert a b r" "ch \<or> b \<notin> get_set r a"]
      by (cases "b \<in> get_set r a") (auto simp: u apply_update_eq insert_absorb)
  next
    case 2
    show ?case using Cons.IH(2) [of "entry_insert a b r" "ch \<or> b \<notin> get_set r a"]
      by (simp add: u apply_update_eq)
  }
qed simp_all

lemma apply_updates_dom: "finite (dom r) \<Longrightarrow> finite (dom (fst (fold apply_update us (r, ch))))"
proof (induction us arbitrary: r ch)
  case (Cons u us)
  then show ?case by (cases u) (simp add: apply_update_eq)
qed simp

definition closure_inv :: "string list \<Rightarrow> (string \<rightharpoonup> string set) \<Rightarrow> bool" where
  "closure_inv vars r \<longleftrightarrow> finite (dom r) \<and> finite (map_rel r) \<and> sym (map_rel r) \<and> Domain (map_rel r) \<subseteq> set vars"

lemma finite_get_set: "finite (map_rel m) \<Longrightarrow> finite (get_set m a)"
proof -
  assume f: "finite (map_rel m)"
  have "get_set m a = snd ` (map_rel m \<inter> ({a} \<times> UNIV))" by (force simp: map_rel_def)
  with f show ?thesis by simp
qed

lemma closure_updates_set:
  assumes enum: "enumerates enum" and inv: "closure_inv vars r"
  shows "set (closure_updates enum vars r) = (map_rel r O map_rel r) - map_rel r - Id"
proof -
  have f: "finite (get_set r a)" for a
    using inv unfolding closure_inv_def by (blast intro: finite_get_set)
  have sym: "y \<in> get_set r x \<longleftrightarrow> x \<in> get_set r y" for x y
    using inv by (auto simp: closure_inv_def sym_def)
  have dom: "x \<in> set vars" if "y \<in> get_set r x" for x y
    using inv that unfolding closure_inv_def by (meson Domain.intros map_rel_iff subsetD)
  have "(a, b) \<in> set (closure_updates enum vars r) \<longleftrightarrow>
      (\<exists>v x al. v \<in> set vars \<and> al \<in> get_set r v \<and> x \<in> get_set r al \<and> x \<noteq> v \<and> x \<notin> get_set r v \<and>
        ((a, b) = (v, x) \<or> (a, b) = (x, v)))" for a b
    using enumeratesD [OF enum f] by (auto simp: closure_updates_def)
  then have "(a, b) \<in> set (closure_updates enum vars r) \<longleftrightarrow>
      (\<exists>al. al \<in> get_set r a \<and> b \<in> get_set r al) \<and> b \<noteq> a \<and> b \<notin> get_set r a" for a b
    using sym dom by (metis prod.inject)
  then show ?thesis by (auto simp: map_rel_def)
qed

lemma closure_round:
  assumes enum: "enumerates enum" and inv: "closure_inv vars r"
    and r: "fold apply_update (closure_updates enum vars r) (r, False) = (r', ch)"
  shows "closure_inv vars r'" "map_rel r' \<union> Id = (map_rel r \<union> Id) O (map_rel r \<union> Id)"
    "\<not> ch \<Longrightarrow> map_rel r' = map_rel r"
proof -
  let ?R = "map_rel r"
  have r': "map_rel r' = ?R \<union> (?R O ?R - ?R - Id)" and ch: "ch \<longleftrightarrow> \<not> ?R O ?R - ?R - Id \<subseteq> ?R"
    using apply_updates [of "closure_updates enum vars r" r False] r closure_updates_set [OF enum inv]
    by simp_all
  then show "map_rel r' \<union> Id = (?R \<union> Id) O (?R \<union> Id)" "\<not> ch \<Longrightarrow> map_rel r' = ?R" by auto
  have "finite (dom r')"
    using apply_updates_dom [of r "closure_updates enum vars r" False] r inv by (simp add: closure_inv_def)
  moreover have "finite (?R O ?R)" using inv by (simp add: closure_inv_def)
  moreover have "sym (?R O ?R)" using inv by (simp add: closure_inv_def sym_conv_converse_eq converse_relcomp)
  moreover have "Domain (?R O ?R) \<subseteq> set vars" using inv by (auto simp: closure_inv_def)
  ultimately show "closure_inv vars r'"
    using inv unfolding closure_inv_def r' sym_def by (auto 0 3)
qed

lemma relpow_idem: "R O R = R \<Longrightarrow> 0 < n \<Longrightarrow> R ^^ n = R" for R :: "('a \<times> 'a) set"
proof (induction n)
  case (Suc n)
  then show ?case by (cases n) simp_all
qed simp

lemma closure_rounds_rel:
  assumes enum: "enumerates enum"
  shows "closure_inv vars r \<Longrightarrow>
    closure_inv vars (closure_rounds enum vars fuel r) \<and>
    map_rel (closure_rounds enum vars fuel r) \<union> Id = (map_rel r \<union> Id) ^^ (2 ^ fuel)"
proof (induction fuel arbitrary: r)
  case (Suc fuel)
  obtain r' ch where r': "fold apply_update (closure_updates enum vars r) (r, False) = (r', ch)" by fastforce
  note round = closure_round [OF enum Suc.prems r']
  show ?case
  proof (cases ch)
    case True
    have "(map_rel r' \<union> Id) ^^ (2 ^ fuel) = (map_rel r \<union> Id) ^^ (2 ^ Suc fuel)"
      unfolding round(2) relpow_square by simp
    with True Suc.IH [OF round(1)] r' show ?thesis by simp
  next
    case False
    with round have "(map_rel r \<union> Id) O (map_rel r \<union> Id) = map_rel r \<union> Id" by simp
    then have "(map_rel r \<union> Id) ^^ (2 ^ Suc fuel) = map_rel r \<union> Id" by (rule relpow_idem) simp
    with False r' round show ?thesis by simp
  qed
qed simp

lemma relpow_reflcl:
  assumes "finite R" and "card R \<le> n"
  shows "(R \<union> Id) ^^ n = R\<^sup>*"
proof
  show "(R \<union> Id) ^^ n \<subseteq> R\<^sup>*"
    by (auto dest!: relpow_imp_rtrancl simp: rtrancl_reflcl)
  have up: "(R \<union> Id) ^^ m \<subseteq> (R \<union> Id) ^^ k" if "m \<le> k" for m k
    using that by (induction k) (auto simp: le_Suc_eq)
  have mono: "R ^^ m \<subseteq> (R \<union> Id) ^^ m" for m by (induction m) auto
  show "R\<^sup>* \<subseteq> (R \<union> Id) ^^ n"
    using up mono assms unfolding rtrancl_finite_eq_relpow [OF assms(1)] by (blast intro: order_trans)
qed

section \<open>Must-alias\<close>

text \<open>The direct must-aliases: copies whose target is not a phi function.\<close>

definition direct_copies :: "constraint_extractor \<Rightarrow> (string \<times> string) set" where
  "direct_copies ex = {(t, s). CopyC t s \<in> set (ex_constraints ex) \<and> t \<notin> ex_phi_targets ex}"

definition direct_map :: "(string set \<Rightarrow> string list) \<Rightarrow> solver \<Rightarrow> string \<rightharpoonup> string set" where
  "direct_map enum sv =
     fold (\<lambda>target d.
         if target \<in> sv_phi_targets sv then d
         else fold (\<lambda>source d. entry_insert source target (entry_insert target source d))
                (get_list (sv_copy_constraints sv) target) d)
       (enum (dom (sv_copy_constraints sv))) Map.empty"

lemma direct_map_rel:
  "map_rel (direct_map enum sv) =
     (\<Union>t \<in> set (enum (dom (sv_copy_constraints sv))) - sv_phi_targets sv.
        \<Union>s \<in> set (get_list (sv_copy_constraints sv) t). {(t, s), (s, t)})"
proof -
  have inner: "map_rel (fold (\<lambda>s d. entry_insert s t (entry_insert t s d)) ss d) =
      map_rel d \<union> (\<Union>s \<in> set ss. {(t, s), (s, t)})" for t ss d
    by (rule fold_collect [where h = map_rel]) auto
  have "map_rel (direct_map enum sv) = map_rel Map.empty \<union>
      (\<Union>t \<in> set (enum (dom (sv_copy_constraints sv))). if t \<in> sv_phi_targets sv then {}
        else \<Union>s \<in> set (get_list (sv_copy_constraints sv) t). {(t, s), (s, t)})"
    unfolding direct_map_def by (rule fold_collect [where h = map_rel]) (simp add: inner)
  then show ?thesis by (auto split: if_splits)
qed

lemma direct_map_dom: "finite (dom (direct_map enum sv))"
  unfolding direct_map_def
proof (rule fold_invariant [where P = "\<lambda>d. finite (dom d)"])
  fix t d assume d: "finite (dom (d :: string \<rightharpoonup> string set))"
  have "finite (dom (fold (\<lambda>source d. entry_insert source t (entry_insert t source d)) ss d))" for ss
    by (rule fold_invariant [where P = "\<lambda>d. finite (dom d)"]) (use d in simp_all)
  with d show "finite (dom (if t \<in> sv_phi_targets sv then d
      else fold (\<lambda>source d. entry_insert source t (entry_insert t source d))
             (get_list (sv_copy_constraints sv) t) d))" by simp
qed simp

lemma finite_copies: "finite {(t, s). CopyC t s \<in> set cs}"
proof -
  have "{(t, s). CopyC t s \<in> set cs} \<subseteq> (\<lambda>c. case c of CopyC t s \<Rightarrow> (t, s) | _ \<Rightarrow> ([], [])) ` set cs"
    by force
  then show ?thesis by (rule finite_subset) simp
qed

lemma card_copies: "card {(t, s). CopyC t s \<in> set cs} \<le> length cs"
proof -
  have "{(t, s). CopyC t s \<in> set cs} \<subseteq> (\<lambda>c. case c of CopyC t s \<Rightarrow> (t, s) | _ \<Rightarrow> ([], [])) ` set cs"
    by force
  then have "card {(t, s). CopyC t s \<in> set cs} \<le> card ((\<lambda>c. case c of CopyC t s \<Rightarrow> (t, s) | _ \<Rightarrow> ([], [])) ` set cs)"
    by (rule card_mono [rotated]) simp
  also have "\<dots> \<le> length cs" using card_image_le [of "set cs"] card_length [of cs] by (meson List.finite_set order_trans)
  finally show ?thesis .
qed

lemma must_alias_rel:
  assumes enum: "enumerates enum" and idx: "indexed (ex_constraints ex) sv"
    and phi: "sv_phi_targets sv = ex_phi_targets ex"
    and size: "2 * length (ex_constraints ex) \<le> 2 ^ max_iterations"
  shows "map_rel (ai_must_alias (compute_must_alias enum sv info)) =
    map_rel (ai_must_alias info) \<union> ((direct_copies ex \<union> (direct_copies ex)\<inverse>)\<^sup>* - Id)"
proof -
  let ?E = "direct_copies ex" and ?d = "direct_map enum sv"
  have copies: "?E \<subseteq> {(t, s). CopyC t s \<in> set (ex_constraints ex)}" by (auto simp: direct_copies_def)
  have "t \<in> fst ` {(t, s). CopyC t s \<in> set (ex_constraints ex)}" if "sv_copy_constraints sv t \<noteq> None" for t
  proof -
    from idx that obtain s where "CopyC t s \<in> set (ex_constraints ex)" unfolding indexed_def by blast
    then have "(t, s) \<in> {(t, s). CopyC t s \<in> set (ex_constraints ex)}" by simp
    then show ?thesis by (rule image_eqI [rotated]) simp
  qed
  then have "{t. sv_copy_constraints sv t \<noteq> None} \<subseteq> fst ` {(t, s). CopyC t s \<in> set (ex_constraints ex)}"
    by blast
  then have fin_dom: "finite (dom (sv_copy_constraints sv))"
    unfolding dom_def by (rule finite_subset) (simp add: finite_copies)
  have in_dom: "t \<in> dom (sv_copy_constraints sv)" if "s \<in> set (get_list (sv_copy_constraints sv) t)" for s t
    using that by (cases "sv_copy_constraints sv t") (auto simp: get_list_def)
  have copy: "set (get_list (sv_copy_constraints sv) t) = {s. CopyC t s \<in> set (ex_constraints ex)}" for t
    using idx unfolding indexed_def by blast
  have copy_in_dom: "t \<in> dom (sv_copy_constraints sv)" if "CopyC t s \<in> set (ex_constraints ex)" for s t
    using in_dom [of s t] that unfolding copy by simp
  have rel: "map_rel ?d = ?E \<union> ?E\<inverse>"
  proof (intro set_eqI iffI)
    fix p assume "p \<in> map_rel ?d"
    then show "p \<in> ?E \<union> ?E\<inverse>"
      unfolding direct_map_rel enumeratesD [OF enum fin_dom] phi copy direct_copies_def by auto
  next
    fix p assume "p \<in> ?E \<union> ?E\<inverse>"
    then obtain t s where c: "CopyC t s \<in> set (ex_constraints ex)" and t: "t \<notin> ex_phi_targets ex"
      and p: "p \<in> {(t, s), (s, t)}" unfolding direct_copies_def by auto
    from copy_in_dom [OF c] t have "t \<in> dom (sv_copy_constraints sv) - ex_phi_targets ex" by simp
    with c p show "p \<in> map_rel ?d"
      unfolding direct_map_rel enumeratesD [OF enum fin_dom] phi copy by blast
  qed
  have fin: "finite (map_rel ?d)" unfolding rel using finite_subset [OF copies finite_copies] by simp
  have "card (map_rel ?d) \<le> card ?E + card (?E\<inverse>)" unfolding rel by (rule card_Un_le)
  also have "card (?E\<inverse>) = card ?E" by (rule card_inverse)
  also have "card ?E \<le> length (ex_constraints ex)"
    using card_mono [OF finite_copies copies] card_copies order_trans by blast
  finally have card: "card (map_rel ?d) \<le> 2 ^ max_iterations" using size by simp
  let ?vars = "enum (dom ?d \<union> (\<Union>k \<in> dom ?d. get_set ?d k))"
  have "finite (dom ?d \<union> (\<Union>k \<in> dom ?d. get_set ?d k))"
    using direct_map_dom finite_get_set [OF fin] by simp
  from enumeratesD [OF enum this] have vars: "dom ?d \<subseteq> set ?vars" by blast
  have "x \<in> dom ?d" if "y \<in> get_set ?d x" for x y
    using that by (cases "?d x") (auto simp: get_set_def)
  then have "Domain (map_rel ?d) \<subseteq> set ?vars" using vars by (auto simp: map_rel_def)
  then have inv: "closure_inv ?vars ?d"
    unfolding closure_inv_def using fin direct_map_dom sym_Un_converse [of ?E] unfolding rel by blast
  let ?t = "transitive_closure enum ?d"
  have t: "closure_inv ?vars ?t" "map_rel ?t \<union> Id = (map_rel ?d \<union> Id) ^^ (2 ^ max_iterations)"
    using closure_rounds_rel [OF enum inv, of max_iterations] by (simp_all add: transitive_closure_def Let_def)
  then have star: "map_rel ?t \<union> Id = (?E \<union> ?E\<inverse>)\<^sup>*"
    using relpow_reflcl [OF fin card] by (simp add: rel)
  have fin_t: "finite (dom ?t)" "finite (get_set ?t a)" for a
    using t(1) finite_get_set by (auto simp: closure_inv_def)
  have "x \<in> dom ?t" if "y \<in> get_set ?t x" for x y
    using that by (cases "?t x") (auto simp: get_set_def)
  then have "{(t, s). t \<in> set (enum (dom ?t)) \<and> s \<in> set (enum (get_set ?t t))} = map_rel ?t"
    unfolding enumeratesD [OF enum fin_t(1)] enumeratesD [OF enum fin_t(2)] map_rel_def by blast
  moreover have "sym (map_rel ?t)" using t(1) by (simp add: closure_inv_def)
  then have "sym_pairs (map_rel ?t) = map_rel ?t - Id" unfolding sym_pairs_def by (auto simp: sym_def)
  moreover have "compute_must_alias enum sv info =
      fold (\<lambda>var. fold (\<lambda>alias. add_must_alias var alias) (enum (get_set ?t var))) (enum (dom ?t)) info"
    by (simp add: compute_must_alias_def direct_map_def Let_def)
  ultimately have "map_rel (ai_must_alias (compute_must_alias enum sv info)) =
      map_rel (ai_must_alias info) \<union> (map_rel ?t - Id)"
    by (simp only: must_rel_fold_sources)
  also have "map_rel ?t - Id = (?E \<union> ?E\<inverse>)\<^sup>* - Id" using star by blast
  finally show ?thesis .
qed

section \<open>The reported aliases\<close>

lemma copy_dom_finite:
  assumes "indexed cs sv"
  shows "finite (dom (sv_copy_constraints sv))"
proof -
  have "t \<in> fst ` {(t, s). CopyC t s \<in> set cs}" if "sv_copy_constraints sv t \<noteq> None" for t
  proof -
    from assms that obtain s where "CopyC t s \<in> set cs" unfolding indexed_def by blast
    then have "(t, s) \<in> {(t, s). CopyC t s \<in> set cs}" by simp
    then show ?thesis by (rule image_eqI [rotated]) simp
  qed
  then show ?thesis
    unfolding dom_def by (intro finite_subset [OF _ finite_imageI [OF finite_copies]]) blast
qed

text \<open>The allocation sites recorded again are already in the points-to sets of a solution.\<close>

definition alloc_indexed :: "alias_constraint list \<Rightarrow> solver \<Rightarrow> bool" where
  "alloc_indexed cs sv \<longleftrightarrow>
     finite (dom (sv_alloc_sites sv)) \<and> (\<forall>t site. sv_alloc_sites sv t = Some site \<longrightarrow> AllocC t site \<in> set cs)"

lemma alloc_indexed_new:
  assumes "enumerates enum" and "finite (ex_parameters ex)"
  shows "alloc_indexed (ex_constraints ex) (solver_new enum ex)"
    "sv_phi_targets (solver_new enum ex) = ex_phi_targets ex"
proof -
  have step: "alloc_indexed (cs @ [c]) (index_constraint c sv)" if "alloc_indexed cs sv" for cs c sv
    using that by (cases c) (auto simp: alloc_indexed_def)
  have "alloc_indexed (cs @ ds) (fold index_constraint ds sv)" if "alloc_indexed cs sv" for cs ds sv
    using that
  proof (induction ds arbitrary: cs sv)
    case (Cons d ds)
    from Cons.IH [OF step [OF Cons.prems, of d]] show ?case by simp
  qed simp
  from this [of "[]" "solver_empty ex" "ex_constraints ex"]
  have idx: "alloc_indexed (ex_constraints ex) (index_constraints (ex_constraints ex) (solver_empty ex))"
    by (simp add: index_constraints_def alloc_indexed_def solver_empty_def)
  have phi: "sv_phi_targets (fold index_constraint cs sv) = sv_phi_targets sv" for cs sv
  proof (induction cs arbitrary: sv)
    case (Cons c cs)
    then show ?case by (cases c) simp_all
  qed simp
  have alloc: "same_index sv (initialize_alloc c sv)" for c sv
    by (cases c) (simp_all add: add_to_worklist_def same_index_def)
  have param: "same_index sv (initialize_parameter p sv)" for p sv
    by (simp add: initialize_parameter_def add_to_worklist_def same_index_def)
  have fold_same: "same_index sv (fold f xs sv)" if "\<And>x s. same_index s (f x s)" for f :: "'x \<Rightarrow> solver \<Rightarrow> solver" and xs sv
    by (rule fold_invariant [where P = "same_index sv"]) (use that same_index_trans in \<open>auto simp: same_index_def\<close>)
  have "same_index (index_constraints (ex_constraints ex) (solver_empty ex)) (solver_new enum ex)"
    unfolding solver_new_def initialize_parameters_def initialize_allocs_def
    by (rule same_index_trans [OF fold_same fold_same]) (rule alloc param)+
  with idx phi [of "ex_constraints ex" "solver_empty ex"]
  show "alloc_indexed (ex_constraints ex) (solver_new enum ex)" "sv_phi_targets (solver_new enum ex) = ex_phi_targets ex"
    by (simp_all add: alloc_indexed_def same_index_def index_constraints_def solver_empty_def)
qed

lemma record_allocs_points_to:
  assumes "\<forall>t \<in> set ts. loc_format (the (A t)) \<in> get_set (ai_points_to info) t"
  shows "get_set (ai_points_to (fold (\<lambda>t. record_alloc_site (t, the (A t))) ts info)) v = get_set (ai_points_to info) v"
  using assms
proof (induction ts arbitrary: info)
  case (Cons t ts)
  have "get_set (ai_points_to (record_alloc_site (t, the (A t)) info)) v = get_set (ai_points_to info) v" for v
    using Cons.prems
    by (auto simp: record_alloc_site_def add_points_to_def add_allocation_site_def Let_def insert_absorb
        split: abstract_location.split)
  with Cons show ?case by simp
qed simp

theorem compute_alias_reports:
  assumes enum: "enumerates enum" and fin: "finite (ex_parameters ex)"
    and size: "2 * length (ex_constraints ex) \<le> 2 ^ max_iterations"
    and r: "compute_alias enum ex name = Inr info"
  shows "solution ex (get_points_to info)" "solution ex P \<Longrightarrow> get_points_to info v \<subseteq> P v"
    and "may_alias_check info a b \<longleftrightarrow>
      a = b \<or> get_points_to info a \<inter> get_points_to info b \<noteq> {} \<or>
      CopyC a b \<in> set (ex_constraints ex) \<or> CopyC b a \<in> set (ex_constraints ex) \<or>
      (a \<in> ex_parameters ex \<and> b \<in> ex_parameters ex)"
    and "must_alias_check info a b \<longleftrightarrow> (a, b) \<in> (direct_copies ex \<union> (direct_copies ex)\<inverse>)\<^sup>*"
proof -
  obtain sv where sv: "solve enum (solver_new enum ex) = Inr sv" and info: "info = build_alias_info enum sv name"
    using r by (auto simp: compute_alias_def split: sum.splits)
  note sol = solve_least_solution [OF enum fin sv]
  note new = solver_new_inv(3) [OF enum fin] and alloc = alloc_indexed_new [OF enum fin]
  have params: "sv_parameters sv = ex_parameters ex" "sv_phi_targets sv = ex_phi_targets ex"
    "sv_alloc_sites sv = sv_alloc_sites (solver_new enum ex)"
    using sol(6) new alloc(2) by (simp_all add: same_index_def)
  let ?i0 = "(info_new name)\<lparr>ai_points_to := sv_points_to sv\<rparr>"
  let ?i1 = "fold (\<lambda>t. record_alloc_site (t, the (sv_alloc_sites sv t))) (enum (dom (sv_alloc_sites sv))) ?i0"
  have i: "info = add_parameter_aliasing enum sv (compute_must_alias enum sv (compute_may_alias enum sv ?i1))"
    by (simp add: info build_alias_info_def Let_def)
  have sites: "loc_format site \<in> pts sv t" if "sv_alloc_sites sv t = Some site" for t site
    using that alloc(1) sol(1) params(3) by (fastforce simp: alloc_indexed_def solution_def)
  have "finite (dom (sv_alloc_sites sv))" using alloc(1) params(3) by (simp add: alloc_indexed_def)
  then have "get_set (ai_points_to ?i1) v = pts sv v" for v
    using record_allocs_points_to [of "enum (dom (sv_alloc_sites sv))" "sv_alloc_sites sv" ?i0 v]
      enumeratesD [OF enum] sites by fastforce
  then have points: "get_points_to info = get_set (sv_points_to sv)"
    by (simp add: get_points_to_def i fun_eq_iff)
  show "solution ex (get_points_to info)" "solution ex P \<Longrightarrow> get_points_to info v \<subseteq> P v"
    unfolding points using sol(1,2) by blast+
  have may1: "map_rel (ai_may_alias ?i1) = {}" and must1: "map_rel (ai_must_alias ?i1) = {}"
    by (simp_all add: fold_frame info_new_def)
  have copy: "set (get_list (sv_copy_constraints sv) t) = {s. CopyC t s \<in> set (ex_constraints ex)}" for t
    using sol(3) unfolding indexed_def by blast
  have "map_rel (ai_may_alias info) =
      {(a, b). a \<noteq> b \<and> pts sv a \<inter> pts sv b \<noteq> {}} \<union>
      sym_pairs {(t, s). CopyC t s \<in> set (ex_constraints ex)} \<union>
      {(p, q). p \<noteq> q \<and> p \<in> ex_parameters ex \<and> q \<in> ex_parameters ex}"
    using compute_may_alias_rel [OF enum _ copy_dom_finite [OF sol(3)], of ?i1]
      add_parameter_aliasing_rel [OF enum, of sv] sol(5) params fin may1
    by (simp add: i solver_ok_def copy)
  then have may: "b \<in> get_set (ai_may_alias info) a \<longleftrightarrow> a \<noteq> b \<and>
      (pts sv a \<inter> pts sv b \<noteq> {} \<or> CopyC a b \<in> set (ex_constraints ex) \<or> CopyC b a \<in> set (ex_constraints ex) \<or>
       (a \<in> ex_parameters ex \<and> b \<in> ex_parameters ex))" for a b
    unfolding map_rel_iff [symmetric] by (auto simp: sym_pairs_def)
  have overlap: "(case (ai_points_to info a, ai_points_to info b) of (Some s, Some t) \<Rightarrow> s \<inter> t \<noteq> {} | _ \<Rightarrow> False) \<longleftrightarrow>
      get_points_to info a \<inter> get_points_to info b \<noteq> {}"
    by (auto simp: get_points_to_def get_set_def split: option.split)
  show "may_alias_check info a b \<longleftrightarrow>
      a = b \<or> get_points_to info a \<inter> get_points_to info b \<noteq> {} \<or>
      CopyC a b \<in> set (ex_constraints ex) \<or> CopyC b a \<in> set (ex_constraints ex) \<or>
      (a \<in> ex_parameters ex \<and> b \<in> ex_parameters ex)"
    unfolding may_alias_check_def may overlap unfolding points by auto
  have "map_rel (ai_must_alias info) = (direct_copies ex \<union> (direct_copies ex)\<inverse>)\<^sup>* - Id"
    using must_alias_rel [OF enum sol(3) params(2) size, of "compute_may_alias enum sv ?i1"] must1
    by (simp add: i)
  then have must: "b \<in> get_set (ai_must_alias info) a \<longleftrightarrow> a \<noteq> b \<and> (a, b) \<in> (direct_copies ex \<union> (direct_copies ex)\<inverse>)\<^sup>*"
    for a b unfolding map_rel_iff [symmetric] by auto
  have "sym ((direct_copies ex \<union> (direct_copies ex)\<inverse>)\<^sup>*)" by (intro sym_rtrancl sym_Un_converse)
  then show "must_alias_check info a b \<longleftrightarrow> (a, b) \<in> (direct_copies ex \<union> (direct_copies ex)\<inverse>)\<^sup>*"
    unfolding must_alias_check_def must by (auto dest: symD)
qed

end
