(* ===== verification/Alias_Properties.thy ===== *)
theory Alias_Properties
  imports Alias_Results "HOL-Library.Char_ord" "HOL-Library.List_Lexorder"
begin

text \<open>
  The properties of the alias analysis of \<open>alias/\<close>. \<open>enum\<close> lists a hash set in the order the code
  happens to iterate it; every claim holds for each such order. \<open>solution ex P\<close> says that the
  points-to sets \<open>P\<close> satisfy the constraints of Andersen's analysis as the code reads them.
\<close>

section \<open>A sample for the witnesses\<close>

text \<open>\<open>a = alloc; b = a; b.f = a; x = b.f\<close>\<close>

definition sample_extractor :: constraint_extractor where
  "sample_extractor = \<lparr>ex_constraints = [AllocC ''a'' (LocAlloc 1), CopyC ''b'' ''a'',
       FieldStoreC ''b'' ''f'' ''a'', FieldLoadC ''x'' ''b'' ''f''],
     ex_allocation_sites = {LocAlloc 1}, ex_phi_targets = {}, ex_parameters = {}\<rparr>"

lemma enumerates_strings: "enumerates (sorted_list_of_set :: string set \<Rightarrow> string list)"
  by (simp add: enumerates_def)

lemma sample_extractor_parameters: "finite (ex_parameters sample_extractor)"
  by (simp add: sample_extractor_def)

section \<open>The solver\<close>

text \<open>
  C3: when the fixed-point iteration ends, its points-to sets are the least solution of the
  constraints.
\<close>

theorem solve_computes_least:
  assumes "enumerates enum" and "finite (ex_parameters ex)"
    and "solve enum (solver_new enum ex) = Inr sv"
  shows "solution ex (get_set (sv_points_to sv)) \<and>
    (\<forall>P. solution ex P \<longrightarrow> (\<forall>v. get_set (sv_points_to sv) v \<subseteq> P v))"
  using solve_least_solution [OF assms] by blast

lemma sample_solved: "\<exists>sv. solve sorted_list_of_set (solver_new sorted_list_of_set sample_extractor) = Inr sv"
proof -
  have "case solve sorted_list_of_set (solver_new sorted_list_of_set sample_extractor) of
      Inl e \<Rightarrow> False | Inr sv \<Rightarrow> True" by code_simp
  then show ?thesis by (auto split: sum.splits)
qed

lemma solve_computes_least_witness: "\<exists>P. solution sample_extractor P"
  using sample_solved solve_computes_least [OF enumerates_strings sample_extractor_parameters] by blast

text \<open>
  the only error of the solver is the iteration limit, reported after exactly 101 rounds.
\<close>

theorem solve_error:
  "solve enum sv = Inl (AliasIterationLimit 101) \<or> (\<exists>sv'. solve enum sv = Inr sv' \<and> sv_iterations sv' \<le> 100)"
proof (cases "solve enum sv")
  case (Inl e)
  then show ?thesis using solve_loop_error [of enum "sv\<lparr>sv_iterations := 0\<rparr>" e]
    by (simp add: solve_def max_iterations_def)
next
  case (Inr sv')
  then show ?thesis using solve_loop_iterations [of "sv\<lparr>sv_iterations := 0\<rparr>" enum sv']
    by (simp add: solve_def max_iterations_def)
qed

text \<open>
  A loop that walks a linked list, \<open>x1 = phi(x0, x2); x2 = x1.next\<close> with \<open>x0\<close> allocated.
\<close>

definition list_walk :: constraint_extractor where
  "list_walk = \<lparr>ex_constraints = [AllocC ''x0'' (LocAlloc 1), CopyC ''x1'' ''x0'', CopyC ''x1'' ''x2'',
       FieldLoadC ''x2'' ''x1'' ''next''],
     ex_allocation_sites = {LocAlloc 1}, ex_phi_targets = {''x1''}, ex_parameters = {}\<rparr>"

text \<open>
  C16: truncating deep field chains does not bound them (the suffix is appended again and again), so
  the analysis of such a loop has no finite solution and always ends in the iteration limit.
\<close>

theorem list_walk_diverges:
  assumes enum: "enumerates enum"
  shows "compute_alias enum list_walk f = Inl (AliasIterationLimit 101)"
proof (cases "solve enum (solver_new enum list_walk)")
  case (Inl e)
  then have "e = AliasIterationLimit 101"
    using solve_loop_error [of enum "(solver_new enum list_walk)\<lparr>sv_iterations := 0\<rparr>" e]
    by (simp add: solve_def max_iterations_def)
  with Inl show ?thesis by (simp add: compute_alias_def)
next
  case (Inr sv)
  have params: "finite (ex_parameters list_walk)" by (simp add: list_walk_def)
  note sol = solve_least_solution [OF enum params Inr]
  have "finite (pts sv ''x1'')" using sol(5) by (simp add: solver_ok_def)
  moreover have "create_field_location loc ''next'' \<in> pts sv ''x1''" if "loc \<in> pts sv ''x1''" for loc
    using sol(1) that unfolding solution_def list_walk_def by (auto simp: has_load_def)
  moreover have "pts sv ''x1'' \<noteq> {}"
    using sol(1) unfolding solution_def list_walk_def by (auto simp: has_load_def)
  ultimately have False by (rule no_finite_field_closure)
  then show ?thesis ..
qed

lemma list_walk_diverges_witness:
  "compute_alias sorted_list_of_set list_walk ''f'' = Inl (AliasIterationLimit 101)"
  by (rule list_walk_diverges [OF enumerates_strings])

section \<open>The reported aliases\<close>

text \<open>
  C7: two variables are reported as possible aliases exactly when they are equal, their points-to
  sets meet, one is copied to the other, or both are parameters.
\<close>

theorem may_alias_exact:
  assumes "enumerates enum" and "finite (ex_parameters ex)"
    and "2 * length (ex_constraints ex) \<le> 2 ^ max_iterations"
    and "compute_alias enum ex name = Inr info"
  shows "may_alias_check info a b \<longleftrightarrow>
    a = b \<or> get_points_to info a \<inter> get_points_to info b \<noteq> {} \<or>
    CopyC a b \<in> set (ex_constraints ex) \<or> CopyC b a \<in> set (ex_constraints ex) \<or>
    (a \<in> ex_parameters ex \<and> b \<in> ex_parameters ex)"
  by (rule compute_alias_reports(3) [OF assms])

lemma sample_alias: "\<exists>info. compute_alias sorted_list_of_set sample_extractor ''f'' = Inr info"
  using sample_solved by (auto simp: compute_alias_def)

lemma sample_extractor_size: "2 * length (ex_constraints sample_extractor) \<le> 2 ^ max_iterations"
  by (simp add: sample_extractor_def max_iterations_def)

lemma may_alias_exact_witness:
  "\<exists>info. compute_alias sorted_list_of_set sample_extractor ''f'' = Inr info \<and> may_alias_check info ''a'' ''b''"
  using sample_alias may_alias_exact [OF enumerates_strings sample_extractor_parameters sample_extractor_size]
  by (auto simp: sample_extractor_def)

text \<open>
  C8: two variables are reported as certain aliases exactly when a chain of copies into variables
  that are not phi targets connects them, in either direction: the closure loop, limited to 100
  rounds, reaches its fixpoint for every program of at most 2 to the 99 constraints.
\<close>

theorem must_alias_exact:
  assumes "enumerates enum" and "finite (ex_parameters ex)"
    and "2 * length (ex_constraints ex) \<le> 2 ^ max_iterations"
    and "compute_alias enum ex name = Inr info"
  shows "must_alias_check info a b \<longleftrightarrow> (a, b) \<in> (direct_copies ex \<union> (direct_copies ex)\<inverse>)\<^sup>*"
  by (rule compute_alias_reports(4) [OF assms])

lemma must_alias_exact_witness:
  "\<exists>info. compute_alias sorted_list_of_set sample_extractor ''f'' = Inr info \<and> must_alias_check info ''a'' ''b''"
proof -
  have "(''b'', ''a'') \<in> direct_copies sample_extractor"
    by (simp add: direct_copies_def sample_extractor_def)
  then have "(''a'', ''b'') \<in> (direct_copies sample_extractor \<union> (direct_copies sample_extractor)\<inverse>)\<^sup>*" by blast
  then show ?thesis
    using sample_alias must_alias_exact [OF enumerates_strings sample_extractor_parameters sample_extractor_size]
    by blast
qed

text \<open>
  the points-to sets that are reported are the least solution, and a load does not read what was
  stored: for \<open>b.f = a; x = b.f\<close> the sets of \<open>x\<close> and \<open>a\<close> are disjoint, so that \<open>x\<close> and \<open>a\<close>, which name
  the same object, are not reported as aliases.
\<close>

theorem load_after_store_not_aliased:
  assumes enum: "enumerates enum" and r: "compute_alias enum sample_extractor f = Inr info"
  shows "get_points_to info ''x'' = {''alloc_1.f''} \<and> get_points_to info ''a'' = {''alloc_1''} \<and>
    \<not> may_alias_check info ''x'' ''a''"
proof -
  let ?P = "(\<lambda>v. {})(''a'' := {''alloc_1''}, ''b'' := {''alloc_1''}, ''x'' := {''alloc_1.f''}, ''alloc_1.f'' := {''alloc_1''})"
  note reports = compute_alias_reports [OF enum sample_extractor_parameters sample_extractor_size r]
  have loc: "decimal (Suc 0) = ''1''" "create_field_location ''alloc_1'' ''f'' = ''alloc_1.f''"
    by code_simp+
  have sol: "solution sample_extractor ?P"
    by (auto simp: solution_def sample_extractor_def has_load_def loc)
  have a: "''alloc_1'' \<in> get_points_to info ''a''" and b: "get_points_to info ''a'' \<subseteq> get_points_to info ''b''"
    and x: "\<And>l. l \<in> get_points_to info ''b'' \<Longrightarrow> create_field_location l ''f'' \<in> get_points_to info ''x''"
    using reports(1) by (simp_all add: solution_def sample_extractor_def has_load_def loc)
  from a b have "''alloc_1.f'' \<in> get_points_to info ''x''" using x [of "''alloc_1''"] loc(2) by auto
  with a have "''alloc_1'' \<in> get_points_to info ''a'' \<and> ''alloc_1.f'' \<in> get_points_to info ''x''" by simp
  with reports(2) [OF sol, of "''a''"] reports(2) [OF sol, of "''x''"]
  have "get_points_to info ''x'' = {''alloc_1.f''}" "get_points_to info ''a'' = {''alloc_1''}" by auto
  moreover from this have "\<not> may_alias_check info ''x'' ''a''"
    unfolding reports(3) by (simp add: sample_extractor_def)
  ultimately show ?thesis by blast
qed

lemma load_after_store_not_aliased_witness:
  "\<exists>info. compute_alias sorted_list_of_set sample_extractor ''f'' = Inr info \<and> \<not> may_alias_check info ''x'' ''a''"
  using sample_alias load_after_store_not_aliased [OF enumerates_strings] by blast

end
