(* ===== verification/Slice.thy ===== *)
theory Slice
  imports Cfg "HOL-Library.Product_Lexorder"
begin

text \<open>
  \<open>pdg/slice.rs\<close>: backward and forward slices of a program dependence graph, as node sets, as line
  sets and as the rich slice with its code lines and dependency edges. Building the graph from the
  source (\<open>get_pdg_context\<close>) and reading the source file are inputs of the model.
\<close>

section \<open>The dependence graph\<close>

datatype dependence_type = Control | Data

record pdg_node =
  pn_id :: nat
  pn_node_type :: string
  pn_lines :: "nat \<times> nat"
  pn_definitions :: "string list"
  pn_uses :: "string list"

record pdg_edge =
  pe_source :: nat
  pe_target :: nat
  pe_dep_type :: dependence_type
  pe_label :: string

text \<open>\<open>PdgInfo\<close> without the control and data flow graphs it was built from, which no slice reads.\<close>

record pdg_info =
  pdg_function :: string
  pdg_nodes :: "pdg_node list"
  pdg_edges :: "pdg_edge list"

datatype slice_direction = Backward | Forward

section \<open>The traversal\<close>

definition find_nodes_for_line :: "pdg_info \<Rightarrow> nat \<Rightarrow> nat list" where
  "find_nodes_for_line pdg line =
     map pn_id (filter (\<lambda>n. fst (pn_lines n) \<le> line \<and> line \<le> snd (pn_lines n)) (pdg_nodes pdg))"

definition should_follow_edge :: "pdg_edge \<Rightarrow> string option \<Rightarrow> bool" where
  "should_follow_edge e variable =
     (case variable of
        None \<Rightarrow> True
      | Some var \<Rightarrow> (case pe_dep_type e of Control \<Rightarrow> True | Data \<Rightarrow> pe_label e = var))"

definition adjacent_nodes :: "pdg_info \<Rightarrow> slice_direction \<Rightarrow> string option \<Rightarrow> nat \<Rightarrow> nat list" where
  "adjacent_nodes pdg direction variable node_id =
     (case direction of
        Backward \<Rightarrow> map pe_source (filter (\<lambda>e. should_follow_edge e variable)
                      (filter (\<lambda>e. pe_target e = node_id) (pdg_edges pdg)))
      | Forward \<Rightarrow> map pe_target (filter (\<lambda>e. should_follow_edge e variable)
                      (filter (\<lambda>e. pe_source e = node_id) (pdg_edges pdg))))"

definition edge_ends :: "pdg_info \<Rightarrow> nat set" where
  "edge_ends pdg = pe_source ` set (pdg_edges pdg) \<union> pe_target ` set (pdg_edges pdg)"

lemma finite_edge_ends [simp]: "finite (edge_ends pdg)"
  by (simp add: edge_ends_def)

lemma adjacent_nodes_ends: "set (adjacent_nodes pdg direction variable b) \<subseteq> edge_ends pdg"
  by (auto simp: adjacent_nodes_def edge_ends_def split: slice_direction.split)

text \<open>The work list is a vector popped at its end; the model keeps the end at the head of the list.\<close>

function slice_loop ::
  "pdg_info \<Rightarrow> slice_direction \<Rightarrow> string option \<Rightarrow> nat set \<Rightarrow> nat list \<Rightarrow> nat set" where
  "slice_loop pdg direction variable visited [] = visited"
| "slice_loop pdg direction variable visited (node_id # worklist) =
     (if node_id \<in> visited then slice_loop pdg direction variable visited worklist
      else
        (let visited = insert node_id visited
         in slice_loop pdg direction variable visited
              (fold (\<lambda>adj wl. if adj \<notin> visited then adj # wl else wl)
                (adjacent_nodes pdg direction variable node_id) worklist)))"
  by pat_completeness auto

lemma push_new: "fold (\<lambda>a wl. if a \<notin> V then a # wl else wl) as wl = rev (filter (\<lambda>a. a \<notin> V) as) @ wl"
  by (induction as arbitrary: wl) simp_all

termination slice_loop
proof (relation "measures [\<lambda>(pdg, d, x, v, wl). card ((set wl \<union> edge_ends pdg) - v), \<lambda>(pdg, d, x, v, wl). length wl]")
  fix pdg :: pdg_info and d :: slice_direction and x :: "string option" and V b wl
  let ?M = "measures [\<lambda>(pdg, d, x, v, wl). card ((set wl \<union> edge_ends pdg) - v), \<lambda>(pdg, d, x, v, wl). length wl]"
  have "card ((set wl \<union> edge_ends pdg) - V) \<le> card ((set (b # wl) \<union> edge_ends pdg) - V)"
    by (rule card_mono) auto
  then show "b \<in> V \<Longrightarrow> ((pdg, d, x, V, wl), (pdg, d, x, V, b # wl)) \<in> ?M" by (auto simp: le_less)
  fix V' assume new: "b \<notin> V" and V': "V' = insert b V"
  let ?wl = "rev (filter (\<lambda>a. a \<notin> V') (adjacent_nodes pdg d x b)) @ wl"
  have "card ((set ?wl \<union> edge_ends pdg) - V') < card ((set (b # wl) \<union> edge_ends pdg) - V)"
    by (rule psubset_card_mono) (use new V' subsetD [OF adjacent_nodes_ends] in auto)
  then show "((pdg, d, x, V', fold (\<lambda>a wl. if a \<notin> V' then a # wl else wl) (adjacent_nodes pdg d x b) wl),
      (pdg, d, x, V, b # wl)) \<in> ?M"
    unfolding push_new by simp
qed simp

definition compute_slice :: "pdg_info \<Rightarrow> nat list \<Rightarrow> slice_direction \<Rightarrow> string option \<Rightarrow> nat set" where
  "compute_slice pdg start_nodes direction variable =
     slice_loop pdg direction variable {} (rev start_nodes)"

definition node_by_id :: "pdg_info \<Rightarrow> nat \<Rightarrow> pdg_node option" where
  "node_by_id pdg node_id = find (\<lambda>n. pn_id n = node_id) (pdg_nodes pdg)"

definition nodes_to_lines :: "pdg_info \<Rightarrow> nat set \<Rightarrow> nat set" where
  "nodes_to_lines pdg node_ids =
     (\<Union>node_id \<in> node_ids. case node_by_id pdg node_id of
        None \<Rightarrow> {}
      | Some n \<Rightarrow> set (filter (\<lambda>line. 0 < line) [fst (pn_lines n)..<Suc (snd (pn_lines n))]))"

text \<open>\<open>pdg_result\<close> is the outcome of \<open>get_pdg_context\<close>.\<close>

definition get_slice ::
  "('e + pdg_info) \<Rightarrow> nat \<Rightarrow> slice_direction \<Rightarrow> string option \<Rightarrow> 'e + nat set" where
  "get_slice pdg_result line direction variable =
     (case pdg_result of
        Inl e \<Rightarrow> Inl e
      | Inr pdg \<Rightarrow>
          (let start_nodes = find_nodes_for_line pdg line
           in if start_nodes = [] then Inr {}
              else Inr (nodes_to_lines pdg (compute_slice pdg start_nodes direction variable))))"

section \<open>The rich slice\<close>

record slice_node =
  sn_line :: nat
  sn_code :: string
  sn_node_type :: string
  sn_definitions :: "string list"
  sn_uses :: "string list"
  sn_dep_type :: "string option"
  sn_dep_label :: "string option"

record slice_edge =
  se_from :: nat
  se_to :: nat
  se_dep_type :: string
  se_label :: string

record rich_slice =
  rs_nodes :: "slice_node list"
  rs_edges :: "slice_edge list"

definition push_missing :: "string \<Rightarrow> string list \<Rightarrow> string list" where
  "push_missing d ds = (if d \<in> set ds then ds else ds @ [d])"

text \<open>
  One line of one visited node; \<open>trim_end\<close> removes trailing white space. A missing source line gives
  the empty string.
\<close>

definition merge_line ::
  "(string \<Rightarrow> string) \<Rightarrow> string list \<Rightarrow> pdg_node \<Rightarrow> nat \<Rightarrow> (nat \<rightharpoonup> slice_node) \<Rightarrow> (nat \<rightharpoonup> slice_node)" where
  "merge_line trim_end source_lines node l line_map =
     (if l = 0 then line_map
      else
        (let code = (if l - 1 < length source_lines then trim_end (source_lines ! (l - 1)) else []);
             entry = (case line_map l of
                        Some entry \<Rightarrow> entry
                      | None \<Rightarrow> \<lparr>sn_line = l, sn_code = code, sn_node_type = pn_node_type node,
                          sn_definitions = [], sn_uses = [], sn_dep_type = None, sn_dep_label = None\<rparr>)
         in line_map(l \<mapsto> entry\<lparr>sn_definitions := fold push_missing (pn_definitions node) (sn_definitions entry),
              sn_uses := fold push_missing (pn_uses node) (sn_uses entry)\<rparr>)))"

definition merge_node ::
  "(string \<Rightarrow> string) \<Rightarrow> string list \<Rightarrow> pdg_node \<Rightarrow> (nat \<rightharpoonup> slice_node) \<Rightarrow> (nat \<rightharpoonup> slice_node)" where
  "merge_node trim_end source_lines node line_map =
     fold (merge_line trim_end source_lines node) [fst (pn_lines node)..<Suc (snd (pn_lines node))] line_map"

definition node_id_to_line :: "pdg_info \<Rightarrow> nat \<Rightarrow> nat option" where
  "node_id_to_line pdg node_id =
     (case map_option (\<lambda>n. fst (pn_lines n)) (node_by_id pdg node_id) of
        Some l \<Rightarrow> if 0 < l then Some l else None
      | None \<Rightarrow> None)"

definition dep_str :: "dependence_type \<Rightarrow> string" where
  "dep_str t = (case t of Data \<Rightarrow> ''data'' | Control \<Rightarrow> ''control'')"

definition annotate_node :: "pdg_edge \<Rightarrow> nat \<Rightarrow> (nat \<rightharpoonup> slice_node) \<Rightarrow> (nat \<rightharpoonup> slice_node)" where
  "annotate_node e l line_map =
     (case line_map l of
        None \<Rightarrow> line_map
      | Some node \<Rightarrow>
          if sn_dep_type node = None then
            line_map(l \<mapsto> node\<lparr>sn_dep_type := Some (dep_str (pe_dep_type e)),
              sn_dep_label := (if pe_label e \<noteq> [] then Some (pe_label e) else sn_dep_label node)\<rparr>)
          else line_map)"

definition slice_edge_step ::
  "pdg_info \<Rightarrow> nat set \<Rightarrow> pdg_edge \<Rightarrow> slice_edge list \<times> (nat \<rightharpoonup> slice_node) \<Rightarrow>
     slice_edge list \<times> (nat \<rightharpoonup> slice_node)" where
  "slice_edge_step pdg visited e = (\<lambda>(edges, line_map).
     if pe_source e \<in> visited \<and> pe_target e \<in> visited then
       (case (node_id_to_line pdg (pe_source e), node_id_to_line pdg (pe_target e)) of
          (Some from_line, Some to_line) \<Rightarrow>
            (edges @ [\<lparr>se_from = from_line, se_to = to_line, se_dep_type = dep_str (pe_dep_type e),
               se_label = pe_label e\<rparr>], annotate_node e to_line line_map)
        | _ \<Rightarrow> (edges, line_map))
     else (edges, line_map))"

text \<open>\<open>dedup_by\<close> on a vector: an element equal to the last one kept is dropped.\<close>

fun dedup :: "'a list \<Rightarrow> 'a list" where
  "dedup (x # y # xs) = (if x = y then dedup (x # xs) else x # dedup (y # xs))"
| "dedup xs = xs"

text \<open>\<open>enum\<close> lists the keys of the hash map in its iteration order.\<close>

definition get_slice_rich ::
  "(string \<Rightarrow> string) \<Rightarrow> (nat set \<Rightarrow> nat list) \<Rightarrow> ('e + pdg_info) \<Rightarrow> string list \<Rightarrow> nat \<Rightarrow>
     slice_direction \<Rightarrow> string option \<Rightarrow> 'e + rich_slice" where
  "get_slice_rich trim_end enum pdg_result source_lines line direction variable =
     (case pdg_result of
        Inl e \<Rightarrow> Inl e
      | Inr pdg \<Rightarrow>
          (let start_nodes = find_nodes_for_line pdg line
           in if start_nodes = [] then Inr \<lparr>rs_nodes = [], rs_edges = []\<rparr>
              else
                (let visited = compute_slice pdg start_nodes direction variable;
                     visited_nodes = filter (\<lambda>n. pn_id n \<in> visited) (pdg_nodes pdg);
                     line_map = fold (merge_node trim_end source_lines) visited_nodes Map.empty;
                     (edges, line_map) = fold (slice_edge_step pdg visited) (pdg_edges pdg) ([], line_map);
                     edges = dedup (sort_key (\<lambda>e. (se_from e, se_to e)) edges)
                 in Inr \<lparr>rs_nodes = sort_key sn_line (map (\<lambda>l. the (line_map l)) (enum (dom line_map))), rs_edges = edges\<rparr>)))"


section \<open>What the traversal reaches\<close>

text \<open>The steps the traversal takes from a node.\<close>

definition follows :: "pdg_info \<Rightarrow> slice_direction \<Rightarrow> string option \<Rightarrow> (nat \<times> nat) set" where
  "follows pdg direction variable =
     {(a, b). \<exists>e \<in> set (pdg_edges pdg). should_follow_edge e variable \<and>
        (a, b) = (case direction of Forward \<Rightarrow> (pe_source e, pe_target e) | Backward \<Rightarrow> (pe_target e, pe_source e))}"

lemma set_adjacent_nodes: "set (adjacent_nodes pdg d x a) = {b. (a, b) \<in> follows pdg d x}"
  by (auto simp: adjacent_nodes_def follows_def split: slice_direction.split)

lemma follows_converse: "follows pdg Backward x = (follows pdg Forward x)\<inverse>"
  by (auto simp: follows_def)

lemma follows_mono: "follows pdg d (Some v) \<subseteq> follows pdg d None"
  by (auto simp: follows_def should_follow_edge_def)

lemma slice_loop_reach:
  assumes "V \<union> set wl \<subseteq> (follows pdg d x)\<^sup>* `` S" and "S \<subseteq> V \<union> set wl"
    and "\<forall>a \<in> V. \<forall>b. (a, b) \<in> follows pdg d x \<longrightarrow> b \<in> V \<union> set wl"
  shows "slice_loop pdg d x V wl = (follows pdg d x)\<^sup>* `` S"
  using assms
proof (induction pdg d x V wl rule: slice_loop.induct)
  case (1 pdg d x V)
  have "b \<in> V" if "(a, b) \<in> (follows pdg d x)\<^sup>*" "a \<in> S" for a b
    using that by (induction) (use 1 in auto)
  with 1 show ?case by auto
next
  case (2 pdg d x V a wl)
  show ?case
  proof (cases "a \<in> V")
    case True
    with 2 show ?thesis by (simp add: insert_absorb)
  next
    case False
    let ?wl = "rev (filter (\<lambda>b. b \<notin> insert a V) (adjacent_nodes pdg d x a)) @ wl"
    have "set (adjacent_nodes pdg d x a) \<subseteq> (follows pdg d x)\<^sup>* `` S"
      using "2.prems"(1) by (auto simp: set_adjacent_nodes intro: rtrancl_into_rtrancl)
    then have "insert a V \<union> set ?wl \<subseteq> (follows pdg d x)\<^sup>* `` S" using "2.prems"(1) by auto
    moreover have "S \<subseteq> insert a V \<union> set ?wl" using "2.prems"(2) by auto
    moreover have "\<forall>c \<in> insert a V. \<forall>b. (c, b) \<in> follows pdg d x \<longrightarrow> b \<in> insert a V \<union> set ?wl"
      using "2.prems"(3) by (auto simp: set_adjacent_nodes)
    ultimately have "slice_loop pdg d x (insert a V) ?wl = (follows pdg d x)\<^sup>* `` S"
      by (rule "2.IH"(2) [OF False refl, unfolded push_new])
    with False show ?thesis by (simp add: Let_def push_new)
  qed
qed

lemma compute_slice_eq: "compute_slice pdg ns d x = (follows pdg d x)\<^sup>* `` set ns"
  unfolding compute_slice_def by (rule slice_loop_reach) auto

lemma nodes_to_lines_iff:
  "l \<in> nodes_to_lines pdg ids \<longleftrightarrow>
     (\<exists>i \<in> ids. \<exists>n. node_by_id pdg i = Some n \<and> 0 < l \<and> fst (pn_lines n) \<le> l \<and> l \<le> snd (pn_lines n))"
proof -
  have "l \<in> (case node_by_id pdg i of None \<Rightarrow> {}
      | Some n \<Rightarrow> set (filter (\<lambda>line. 0 < line) [fst (pn_lines n)..<Suc (snd (pn_lines n))])) \<longleftrightarrow>
      (\<exists>n. node_by_id pdg i = Some n \<and> 0 < l \<and> fst (pn_lines n) \<le> l \<and> l \<le> snd (pn_lines n))" for i
    by (cases "node_by_id pdg i") auto
  then show ?thesis by (simp add: nodes_to_lines_def)
qed

lemma get_slice_eq:
  "get_slice (Inr pdg) line d x = Inr (nodes_to_lines pdg (compute_slice pdg (find_nodes_for_line pdg line) d x))"
  by (simp add: get_slice_def Let_def compute_slice_eq nodes_to_lines_def)

section \<open>The lines of the rich slice\<close>

text \<open>Every entry of the line map sits under its own line.\<close>

definition keyed :: "(nat \<rightharpoonup> slice_node) \<Rightarrow> bool" where
  "keyed m \<longleftrightarrow> (\<forall>l n. m l = Some n \<longrightarrow> sn_line n = l)"

lemma merge_line_keyed:
  "keyed m \<Longrightarrow> keyed (merge_line t ls node l m) \<and> dom (merge_line t ls node l m) = dom m \<union> ({l} - {0})"
  by (auto simp: merge_line_def keyed_def Let_def split: option.splits if_splits)

lemma merge_lines_keyed:
  "keyed m \<Longrightarrow> keyed (fold (merge_line t ls node) xs m) \<and>
     dom (fold (merge_line t ls node) xs m) = dom m \<union> (set xs - {0})"
  by (induction xs arbitrary: m) (use merge_line_keyed in \<open>auto simp: domIff\<close>)

lemma merge_nodes_keyed:
  "keyed m \<Longrightarrow> keyed (fold (merge_node t ls) ns m) \<and>
     dom (fold (merge_node t ls) ns m) =
       dom m \<union> {l. 0 < l \<and> (\<exists>n \<in> set ns. fst (pn_lines n) \<le> l \<and> l \<le> snd (pn_lines n))}"
proof (induction ns arbitrary: m)
  case (Cons n ns)
  have n: "keyed (merge_node t ls n m)"
    "dom (merge_node t ls n m) = dom m \<union> {l. 0 < l \<and> fst (pn_lines n) \<le> l \<and> l \<le> snd (pn_lines n)}"
    using merge_lines_keyed [OF Cons.prems, of t ls n "[fst (pn_lines n)..<Suc (snd (pn_lines n))]"]
    by (auto simp: merge_node_def)
  from Cons.IH [OF n(1)] n(2) show ?case by auto
qed simp

lemma annotate_keyed: "keyed m \<Longrightarrow> keyed (annotate_node e l m) \<and> dom (annotate_node e l m) = dom m"
  by (auto simp: annotate_node_def keyed_def split: option.splits)

text \<open>The edges that are kept lie between lines of visited nodes.\<close>

definition edge_in_slice :: "pdg_info \<Rightarrow> nat set \<Rightarrow> slice_edge \<Rightarrow> bool" where
  "edge_in_slice pdg visited e \<longleftrightarrow>
     (\<exists>p \<in> set (pdg_edges pdg). pe_source p \<in> visited \<and> pe_target p \<in> visited \<and>
        node_id_to_line pdg (pe_source p) = Some (se_from e) \<and>
        node_id_to_line pdg (pe_target p) = Some (se_to e) \<and>
        se_dep_type e = dep_str (pe_dep_type p) \<and> se_label e = pe_label p)"

lemma slice_edge_step_keyed:
  assumes "keyed m"
  shows "keyed (snd (slice_edge_step pdg V p (es, m))) \<and> dom (snd (slice_edge_step pdg V p (es, m))) = dom m"
  using annotate_keyed [OF assms] assms by (auto simp: slice_edge_step_def split: option.splits)

lemma slice_edge_step_edges:
  assumes "p \<in> set (pdg_edges pdg)"
  shows "set (fst (slice_edge_step pdg V p (es, m))) = set es \<union>
    {e. pe_source p \<in> V \<and> pe_target p \<in> V \<and> node_id_to_line pdg (pe_source p) = Some (se_from e) \<and>
        node_id_to_line pdg (pe_target p) = Some (se_to e) \<and>
        se_dep_type e = dep_str (pe_dep_type p) \<and> se_label e = pe_label p}"
  by (auto simp: slice_edge_step_def split: option.splits)

lemma slice_edges_fold:
  assumes "keyed m" and "set ps \<subseteq> set (pdg_edges pdg)"
  shows "keyed (snd (fold (slice_edge_step pdg V) ps (es, m))) \<and>
    dom (snd (fold (slice_edge_step pdg V) ps (es, m))) = dom m \<and>
    set (fst (fold (slice_edge_step pdg V) ps (es, m))) = set es \<union>
      {e. \<exists>p \<in> set ps. pe_source p \<in> V \<and> pe_target p \<in> V \<and>
         node_id_to_line pdg (pe_source p) = Some (se_from e) \<and> node_id_to_line pdg (pe_target p) = Some (se_to e) \<and>
         se_dep_type e = dep_str (pe_dep_type p) \<and> se_label e = pe_label p}"
  using assms
proof (induction ps arbitrary: es m)
  case (Cons p ps)
  obtain es' m' where step: "slice_edge_step pdg V p (es, m) = (es', m')" by force
  from slice_edge_step_keyed [OF Cons.prems(1), of pdg V p es] step
  have m': "keyed m'" "dom m' = dom m" by simp_all
  from slice_edge_step_edges [of p pdg V es m] Cons.prems(2) step
  have es': "set es' = set es \<union> {e. pe_source p \<in> V \<and> pe_target p \<in> V \<and>
      node_id_to_line pdg (pe_source p) = Some (se_from e) \<and>
        node_id_to_line pdg (pe_target p) = Some (se_to e) \<and>
        se_dep_type e = dep_str (pe_dep_type p) \<and> se_label e = pe_label p}" by simp
  from Cons.IH [OF m'(1)] Cons.prems(2) m'(2) show ?case by (auto simp: step es')
qed simp

lemma set_dedup [simp]: "set (dedup xs) = set xs"
  by (induction xs rule: dedup.induct) auto

lemma sorted_dedup: "sorted (map f xs) \<Longrightarrow> sorted (map f (dedup xs))"
  by (induction xs rule: dedup.induct) auto

text \<open>With unique node numbers, the nodes of a set and their numbers give the same lines.\<close>

lemma node_by_id_iff:
  assumes "distinct (map pn_id (pdg_nodes pdg))"
  shows "node_by_id pdg i = Some n \<longleftrightarrow> n \<in> set (pdg_nodes pdg) \<and> pn_id n = i"
proof -
  have "find (\<lambda>n. pn_id n = i) ns = Some n \<longleftrightarrow> n \<in> set ns \<and> pn_id n = i" if "distinct (map pn_id ns)" for ns
    using that by (induction ns) force+
  with assms show ?thesis by (simp add: node_by_id_def)
qed

lemma get_slice_rich_props:
  assumes enum: "enumerates enum" and ids: "distinct (map pn_id (pdg_nodes pdg))"
    and r: "get_slice_rich trim_end enum (Inr pdg) ls line d x = Inr rs"
    and lines: "get_slice (Inr pdg) line d x = Inr L"
  shows "sn_line ` set (rs_nodes rs) = L" and "sorted (map sn_line (rs_nodes rs))" "distinct (map sn_line (rs_nodes rs))"
    and "set (rs_edges rs) = {e. edge_in_slice pdg (compute_slice pdg (find_nodes_for_line pdg line) d x) e}"
    and "sorted (map (\<lambda>e. (se_from e, se_to e)) (rs_edges rs))"
proof -
  let ?start = "find_nodes_for_line pdg line"
  let ?V = "compute_slice pdg ?start d x"
  let ?m1 = "fold (merge_node trim_end ls) (filter (\<lambda>n. pn_id n \<in> ?V) (pdg_nodes pdg)) Map.empty"
  obtain es m where fold: "fold (slice_edge_step pdg ?V) (pdg_edges pdg) ([], ?m1) = (es, m)" by force
  let ?nodes = "if ?start = [] then [] else sort_key sn_line (map (\<lambda>l. the (m l)) (enum (dom m)))"
  let ?edges = "if ?start = [] then [] else dedup (sort_key (\<lambda>e. (se_from e, se_to e)) es)"
  have rs: "rs_nodes rs = ?nodes" "rs_edges rs = ?edges" using r fold by (auto simp: get_slice_rich_def Let_def)
  have L: "L = (if ?start = [] then {} else nodes_to_lines pdg ?V)" using lines by (auto simp: get_slice_def Let_def)
  have "keyed ?m1" and "dom ?m1 = {l. 0 < l \<and> (\<exists>n \<in> set (filter (\<lambda>n. pn_id n \<in> ?V) (pdg_nodes pdg)).
      fst (pn_lines n) \<le> l \<and> l \<le> snd (pn_lines n))}"
    using merge_nodes_keyed [of Map.empty trim_end ls "filter (\<lambda>n. pn_id n \<in> ?V) (pdg_nodes pdg)"]
    by (simp_all add: keyed_def)
  moreover from this(2) have "dom ?m1 = nodes_to_lines pdg ?V"
    unfolding set_eq_iff nodes_to_lines_iff node_by_id_iff [OF ids] by auto
  ultimately have m: "keyed m" "dom m = nodes_to_lines pdg ?V"
    and es: "set es = {e. edge_in_slice pdg ?V e}"
    using slice_edges_fold [of ?m1 "pdg_edges pdg" pdg ?V "[]"] fold by (auto simp: edge_in_slice_def)
  have "finite (set (pdg_nodes pdg))" by simp
  then have "finite (nodes_to_lines pdg ?V)"
  proof -
    have "nodes_to_lines pdg ?V \<subseteq> (\<Union>n \<in> set (pdg_nodes pdg). {fst (pn_lines n)..snd (pn_lines n)})"
      by (auto simp: nodes_to_lines_iff node_by_id_iff [OF ids])
    then show ?thesis by (rule finite_subset) simp
  qed
  with m have en: "set (enum (dom m)) = dom m" "distinct (enum (dom m))" using enum by (simp_all add: enumerates_def)
  have key: "map sn_line (map (\<lambda>l. the (m l)) (enum (dom m))) = enum (dom m)"
    using m(1) en(1) by (auto simp: keyed_def intro!: map_idI)
  have "sn_line ` set (map (\<lambda>l. the (m l)) (enum (dom m))) = dom m" using key en(1) by (metis set_map)
  with L m(2) rs(1) show "sn_line ` set (rs_nodes rs) = L" by simp
  show "sorted (map sn_line (rs_nodes rs))" unfolding rs by simp
  have "distinct (map sn_line (sort_key sn_line (map (\<lambda>l. the (m l)) (enum (dom m)))))"
    unfolding distinct_map set_sort using en(2) key by (metis distinct_map distinct_sort)
  then show "distinct (map sn_line (rs_nodes rs))" unfolding rs by simp
  have "?start = [] \<Longrightarrow> {e. edge_in_slice pdg ?V e} = {}" by (simp add: edge_in_slice_def compute_slice_eq)
  then show "set (rs_edges rs) = {e. edge_in_slice pdg ?V e}" unfolding rs using es by simp
  show "sorted (map (\<lambda>e. (se_from e, se_to e)) (rs_edges rs))" unfolding rs by (simp add: sorted_dedup)
qed

end
