(* ===== verification/Round_Robin.thy ===== *)
theory Round_Robin
  imports Prelude
begin

text \<open>
  The round-robin solver shared by the reaching-definitions analyses of \<open>dfg/reaching.rs\<close>: the IN and
  OUT sets of the blocks are recomputed in a fixed order until a round changes nothing, at most a
  given number of times. The locale states what a gen/kill problem promises; inside it the solver is
  shown to compute the facts that flow along the edges.
\<close>

section \<open>The solver\<close>

type_synonym 'd flow_sets = "block_id \<rightharpoonup> 'd set"

text \<open>The body of the inner loop for one block.\<close>

definition update_block ::
  "(block_id \<rightharpoonup> block_id list) \<Rightarrow> 'd flow_sets \<Rightarrow> 'd flow_sets \<Rightarrow> block_id \<Rightarrow>
     'd flow_sets \<times> 'd flow_sets \<times> bool \<Rightarrow> 'd flow_sets \<times> 'd flow_sets \<times> bool" where
  "update_block preds gen kill b = (\<lambda>(rin, rout, changed).
     (let new_in = (\<Union>p \<in> set (get_list preds b). get_set rout p);
          in_minus_kill = new_in - get_set kill b;
          new_out = get_set gen b \<union> in_minus_kill;
          (rin, changed) = (if new_in \<noteq> get_set rin b then (rin(b \<mapsto> new_in), True) else (rin, changed));
          (rout, changed) = (if new_out \<noteq> get_set rout b then (rout(b \<mapsto> new_out), True) else (rout, changed))
      in (rin, rout, changed)))"

text \<open>The outer loop: \<open>fuel\<close> rounds are left, \<open>n\<close> were made.\<close>

fun flow_rounds ::
  "(block_id \<rightharpoonup> block_id list) \<Rightarrow> 'd flow_sets \<Rightarrow> 'd flow_sets \<Rightarrow> block_id list \<Rightarrow> nat \<Rightarrow> nat \<Rightarrow>
     'd flow_sets \<times> 'd flow_sets \<Rightarrow> ('d flow_sets \<times> 'd flow_sets) \<times> nat" where
  "flow_rounds preds gen kill order 0 n s = (s, n)"
| "flow_rounds preds gen kill order (Suc fuel) n s =
     (let (rin, rout, changed) = fold (update_block preds gen kill) order (fst s, snd s, False)
      in if changed then flow_rounds preds gen kill order fuel (n + 1) (rin, rout) else ((rin, rout), n + 1))"

section \<open>The facts that flow\<close>

text \<open>
  \<open>d\<close> leaves \<open>b\<close>: it is generated there, or it leaves a predecessor of a processed block that does
  not kill it.
\<close>

inductive leaves ::
  "(block_id \<rightharpoonup> block_id list) \<Rightarrow> 'd flow_sets \<Rightarrow> 'd flow_sets \<Rightarrow> block_id set \<Rightarrow> 'd \<Rightarrow> block_id \<Rightarrow> bool"
  for preds gen kill B d where
  generated: "d \<in> get_set gen b \<Longrightarrow> leaves preds gen kill B d b"
| passed: "\<lbrakk>leaves preds gen kill B d p; p \<in> set (get_list preds b); b \<in> B; d \<notin> get_set kill b\<rbrakk> \<Longrightarrow>
    leaves preds gen kill B d b"

definition enters ::
  "(block_id \<rightharpoonup> block_id list) \<Rightarrow> 'd flow_sets \<Rightarrow> 'd flow_sets \<Rightarrow> block_id set \<Rightarrow> 'd \<Rightarrow> block_id \<Rightarrow> bool" where
  "enters preds gen kill B d b \<longleftrightarrow> b \<in> B \<and> (\<exists>p \<in> set (get_list preds b). leaves preds gen kill B d p)"

text \<open>The blocks a fact leaves after at most \<open>n\<close> steps.\<close>

fun leaves_within ::
  "(block_id \<rightharpoonup> block_id list) \<Rightarrow> 'd flow_sets \<Rightarrow> 'd flow_sets \<Rightarrow> block_id set \<Rightarrow> 'd \<Rightarrow> nat \<Rightarrow> block_id set" where
  "leaves_within preds gen kill B d 0 = {b. d \<in> get_set gen b}"
| "leaves_within preds gen kill B d (Suc n) = leaves_within preds gen kill B d n \<union>
     {b \<in> B. d \<notin> get_set kill b \<and> (\<exists>p \<in> set (get_list preds b). p \<in> leaves_within preds gen kill B d n)}"

locale gen_kill_problem =
  fixes preds :: "block_id \<rightharpoonup> block_id list" and gen kill :: "'d flow_sets" and order :: "block_id list"
begin

abbreviation Leaves :: "'d \<Rightarrow> block_id \<Rightarrow> bool" where
  "Leaves \<equiv> leaves preds gen kill (set order)"

abbreviation Enters :: "'d \<Rightarrow> block_id \<Rightarrow> bool" where
  "Enters \<equiv> enters preds gen kill (set order)"

abbreviation Within :: "'d \<Rightarrow> nat \<Rightarrow> block_id set" where
  "Within \<equiv> leaves_within preds gen kill (set order)"

text \<open>
  The invariant of the loops: OUT is computed from IN, IN is below the OUT sets of the predecessors,
  and only processed blocks have a non-empty IN.
\<close>

definition flow_inv :: "'d flow_sets \<times> 'd flow_sets \<Rightarrow> bool" where
  "flow_inv s \<longleftrightarrow>
     (\<forall>b. get_set (snd s) b = get_set gen b \<union> (get_set (fst s) b - get_set kill b) \<and>
          get_set (fst s) b \<subseteq> (\<Union>p \<in> set (get_list preds b). get_set (snd s) p) \<and>
          (get_set (fst s) b \<noteq> {} \<longrightarrow> b \<in> set order) \<and> (\<forall>d \<in> get_set (snd s) b. Leaves d b))"

definition new_in :: "'d flow_sets \<Rightarrow> block_id \<Rightarrow> 'd set" where
  "new_in rout b = (\<Union>p \<in> set (get_list preds b). get_set rout p)"

lemma update_block_eq:
  fixes rin rout b
  defines "N \<equiv> new_in rout b"
  defines "Q \<equiv> get_set gen b \<union> (N - get_set kill b)"
  shows "update_block preds gen kill b (rin, rout, ch) =
    (if N \<noteq> get_set rin b then rin(b \<mapsto> N) else rin, if Q \<noteq> get_set rout b then rout(b \<mapsto> Q) else rout,
     ch \<or> N \<noteq> get_set rin b \<or> Q \<noteq> get_set rout b)"
  by (simp add: update_block_def Let_def N_def Q_def new_in_def)

lemma get_set_put:
  "get_set (if v \<noteq> get_set m b then m(b \<mapsto> v) else m) = (get_set m)(b := v)" for m :: "'d flow_sets"
  by (auto simp: get_set_def fun_eq_iff)

lemma fun_upd_same_iff: "(get_set m)(b := v) = get_set m \<longleftrightarrow> v = get_set m b" for m :: "'d flow_sets"
  by (auto simp: fun_eq_iff)

lemma update_block_sets:
  assumes "update_block preds gen kill b (rin, rout, ch) = (rin', rout', ch')"
  shows "get_set rin' = (get_set rin)(b := new_in rout b)"
    and "get_set rout' = (get_set rout)(b := get_set gen b \<union> (new_in rout b - get_set kill b))"
    and "ch' \<longleftrightarrow> ch \<or> get_set rin' \<noteq> get_set rin \<or> get_set rout' \<noteq> get_set rout"
proof -
  let ?N = "new_in rout b"
  let ?Q = "get_set gen b \<union> (?N - get_set kill b)"
  have r: "rin' = (if ?N \<noteq> get_set rin b then rin(b \<mapsto> ?N) else rin)"
    "rout' = (if ?Q \<noteq> get_set rout b then rout(b \<mapsto> ?Q) else rout)"
    "ch' \<longleftrightarrow> ch \<or> ?N \<noteq> get_set rin b \<or> ?Q \<noteq> get_set rout b"
    using assms unfolding update_block_eq prod.inject by blast+
  show 1: "get_set rin' = (get_set rin)(b := ?N)" unfolding r(1) by (rule get_set_put)
  show 2: "get_set rout' = (get_set rout)(b := ?Q)" unfolding r(2) by (rule get_set_put)
  show "ch' \<longleftrightarrow> ch \<or> get_set rin' \<noteq> get_set rin \<or> get_set rout' \<noteq> get_set rout"
    unfolding 1 2 fun_upd_same_iff r(3) ..
qed

lemma new_in_mono: "(\<And>p. get_set rout p \<subseteq> get_set rout' p) \<Longrightarrow> new_in rout b \<subseteq> new_in rout' b"
  unfolding new_in_def by blast

text \<open>One block: the invariant is kept, the sets grow.\<close>

lemma update_block_inv:
  assumes inv: "flow_inv (rin, rout)" and b: "b \<in> set order"
    and u: "update_block preds gen kill b (rin, rout, ch) = (rin', rout', ch')"
  shows "flow_inv (rin', rout')" "get_set rin c \<subseteq> get_set rin' c" "get_set rout c \<subseteq> get_set rout' c"
proof -
  note sets = update_block_sets [OF u]
  have I: "get_set rout c = get_set gen c \<union> (get_set rin c - get_set kill c)" "get_set rin c \<subseteq> new_in rout c"
    "get_set rin c \<noteq> {} \<Longrightarrow> c \<in> set order" "d \<in> get_set rout c \<Longrightarrow> Leaves d c" for c d
    using inv unfolding flow_inv_def new_in_def fst_conv snd_conv by blast+
  show rin: "get_set rin c \<subseteq> get_set rin' c" for c
    using I(2) [of b] by (cases "c = b") (simp_all add: sets)
  show rout: "get_set rout c \<subseteq> get_set rout' c" for c using I(1,2) [of c] by (auto simp: sets)
  have out: "get_set rout' c = get_set gen c \<union> (get_set rin' c - get_set kill c)" for c by (simp add: sets I(1))
  have "get_set rin' c \<subseteq> new_in rout c" for c using I(2) [of c] by (simp add: sets)
  then have "get_set rin' c \<subseteq> new_in rout' c" for c using new_in_mono [OF rout] by blast
  moreover have "c \<in> set order" if "get_set rin' c \<noteq> {}" for c
    using that b I(3) by (auto simp: sets split: if_splits)
  moreover have "Leaves d c" if "d \<in> get_set rout' c" for d c
  proof (cases "c = b")
    case True
    with that have "d \<in> get_set gen b \<or> (d \<notin> get_set kill b \<and> (\<exists>p \<in> set (get_list preds b). Leaves d p))"
      using I(4) by (auto simp: sets new_in_def)
    then show ?thesis using True b by (auto intro: leaves.intros)
  qed (use that I(4) in \<open>simp add: sets\<close>)
  ultimately show "flow_inv (rin', rout')" using out unfolding flow_inv_def new_in_def fst_conv snd_conv by blast
qed

text \<open>One round.\<close>

lemma round_inv:
  assumes "flow_inv (rin, rout)" and "set bs \<subseteq> set order"
    and "fold (update_block preds gen kill) bs (rin, rout, ch) = (rin', rout', ch')"
  shows "flow_inv (rin', rout')" "get_set rin c \<subseteq> get_set rin' c" "get_set rout c \<subseteq> get_set rout' c"
    and "b \<in> set bs \<Longrightarrow> new_in rout b \<subseteq> get_set rin' b"
    and "ch' \<longleftrightarrow> ch \<or> get_set rin' \<noteq> get_set rin \<or> get_set rout' \<noteq> get_set rout"
proof -
  have "flow_inv (rin', rout') \<and> (\<forall>c. get_set rin c \<subseteq> get_set rin' c \<and> get_set rout c \<subseteq> get_set rout' c) \<and>
      (\<forall>b \<in> set bs. new_in rout b \<subseteq> get_set rin' b) \<and>
      (ch' \<longleftrightarrow> ch \<or> get_set rin' \<noteq> get_set rin \<or> get_set rout' \<noteq> get_set rout)"
    using assms
  proof (induction bs arbitrary: rin rout ch)
    case (Cons b bs)
    obtain rin1 rout1 ch1 where u: "update_block preds gen kill b (rin, rout, ch) = (rin1, rout1, ch1)"
      by (cases "update_block preds gen kill b (rin, rout, ch)")
    have bo: "b \<in> set order" using Cons.prems(2) by simp
    note one = update_block_inv [OF Cons.prems(1) bo u] and sets = update_block_sets [OF u]
    have rest: "fold (update_block preds gen kill) bs (rin1, rout1, ch1) = (rin', rout', ch')"
      using Cons.prems(3) u by simp
    have bs: "set bs \<subseteq> set order" using Cons.prems(2) by simp
    note IH = Cons.IH [OF one(1) bs rest]
    have mono: "get_set rin c \<subseteq> get_set rin' c" "get_set rout c \<subseteq> get_set rout' c" for c
      using IH one(2,3) by (blast intro: subset_trans)+
    have b: "new_in rout b \<subseteq> get_set rin' b" using IH sets(1) by (metis fun_upd_same)
    have others: "\<forall>a \<in> set bs. new_in rout a \<subseteq> get_set rin' a"
      using IH new_in_mono [of rout rout1, OF one(3)] by blast
    have ch: "ch' \<longleftrightarrow> ch \<or> get_set rin' \<noteq> get_set rin \<or> get_set rout' \<noteq> get_set rout"
    proof -
      have "get_set rin' = get_set rin \<Longrightarrow> get_set rin1 = get_set rin"
        using IH one(2) by (metis order_antisym_conv ext)
      moreover have "get_set rout' = get_set rout \<Longrightarrow> get_set rout1 = get_set rout"
        using IH one(3) by (metis order_antisym_conv ext)
      ultimately show ?thesis using IH sets(3) by metis
    qed
    show ?case using IH mono b others ch by simp
  qed simp
  then show "flow_inv (rin', rout')" "get_set rin c \<subseteq> get_set rin' c" "get_set rout c \<subseteq> get_set rout' c"
    and "b \<in> set bs \<Longrightarrow> new_in rout b \<subseteq> get_set rin' b"
    and "ch' \<longleftrightarrow> ch \<or> get_set rin' \<noteq> get_set rin \<or> get_set rout' \<noteq> get_set rout" by blast+
qed

text \<open>How much is known to be there after \<open>k\<close> rounds.\<close>

definition complete :: "nat \<Rightarrow> 'd flow_sets \<times> 'd flow_sets \<Rightarrow> bool" where
  "complete k s \<longleftrightarrow>
     (\<forall>d. \<forall>b \<in> Within d k. d \<in> get_set (snd s) b) \<and>
     (\<forall>d. \<forall>j < k. \<forall>b \<in> set order. \<forall>p \<in> set (get_list preds b). p \<in> Within d j \<longrightarrow> d \<in> get_set (fst s) b)"

definition exact :: "'d flow_sets \<times> 'd flow_sets \<Rightarrow> bool" where
  "exact s \<longleftrightarrow> (\<forall>d b. (d \<in> get_set (snd s) b \<longleftrightarrow> Leaves d b) \<and> (d \<in> get_set (fst s) b \<longleftrightarrow> Enters d b))"

lemma within_leaves: "b \<in> Within d k \<Longrightarrow> Leaves d b"
  by (induction k arbitrary: b) (auto intro: leaves.intros)

lemma within_mono: "j \<le> k \<Longrightarrow> Within d j \<subseteq> Within d k"
  by (induction k) (auto simp: le_Suc_eq)

text \<open>Every step that adds a block adds a processed one, so the growth ends within the number of blocks.\<close>

lemma within_stable:
  assumes "Within d (Suc k) = Within d k"
  shows "Leaves d b \<longleftrightarrow> b \<in> Within d k"
proof
  assume "Leaves d b"
  then show "b \<in> Within d k"
  proof induction
    case (generated b)
    then have "b \<in> Within d 0" by simp
    then show ?case using within_mono [of 0 k d] by blast
  next
    case (passed p b)
    then have "b \<in> Within d (Suc k)" by auto
    then show ?case unfolding assms .
  qed
qed (rule within_leaves)

lemma within_card:
  "Within d (Suc k) \<noteq> Within d k \<Longrightarrow> Suc k \<le> card ((Within d (Suc k) - Within d 0) \<inter> set order)"
proof (induction k)
  case 0
  then have "(Within d (Suc 0) - Within d 0) \<inter> set order \<noteq> {}" by auto
  then have "0 < card ((Within d (Suc 0) - Within d 0) \<inter> set order)" by (simp add: card_gt_0_iff)
  then show ?case by simp
next
  case (Suc k)
  have "Within d (Suc k) \<noteq> Within d k"
  proof
    assume "Within d (Suc k) = Within d k"
    then have "Within d (Suc (Suc k)) = Within d (Suc k)" by auto
    with Suc.prems show False by simp
  qed
  with Suc.IH have "Suc k \<le> card ((Within d (Suc k) - Within d 0) \<inter> set order)" by simp
  also have "\<dots> < card ((Within d (Suc (Suc k)) - Within d 0) \<inter> set order)"
  proof (rule psubset_card_mono)
    obtain b where "b \<in> Within d (Suc (Suc k))" "b \<notin> Within d (Suc k)" "b \<in> set order"
      using Suc.prems by auto
    moreover from this(2) have "b \<notin> Within d 0" using within_mono [of 0 "Suc k" d] by blast
    moreover have "Within d (Suc k) \<subseteq> Within d (Suc (Suc k))" by (rule within_mono) simp
    ultimately show "(Within d (Suc k) - Within d 0) \<inter> set order \<subset>
        (Within d (Suc (Suc k)) - Within d 0) \<inter> set order" by blast
  qed simp
  finally show ?case by simp
qed

lemma leaves_within_card: "Leaves d b \<longleftrightarrow> b \<in> Within d (card (set order))"
proof (rule within_stable, rule ccontr)
  assume "Within d (Suc (card (set order))) \<noteq> Within d (card (set order))"
  from within_card [OF this]
  have "Suc (card (set order)) \<le> card ((Within d (Suc (card (set order))) - Within d 0) \<inter> set order)" .
  also have "\<dots> \<le> card (set order)" by (rule card_mono) auto
  finally show False by simp
qed

lemma closed_exact:
  assumes inv: "flow_inv (rin, rout)" and closed: "\<And>b. b \<in> set order \<Longrightarrow> new_in rout b \<subseteq> get_set rin b"
  shows "exact (rin, rout)"
proof -
  have I: "get_set rout c = get_set gen c \<union> (get_set rin c - get_set kill c)" "get_set rin c \<subseteq> new_in rout c"
    "get_set rin c \<noteq> {} \<Longrightarrow> c \<in> set order" "d \<in> get_set rout c \<Longrightarrow> Leaves d c" for c d
    using inv unfolding flow_inv_def new_in_def fst_conv snd_conv by blast+
  have out: "d \<in> get_set rout b" if "Leaves d b" for d b
    using that
  proof induction
    case (generated b)
    then show ?case using I(1) by blast
  next
    case (passed p b)
    then have "d \<in> new_in rout b" by (auto simp: new_in_def)
    with closed [OF passed(3)] passed(4) show ?case using I(1) [of b] by blast
  qed
  have "d \<in> get_set rin b \<longleftrightarrow> Enters d b" for d b
  proof
    assume d: "d \<in> get_set rin b"
    then have "b \<in> set order" using I(3) by blast
    moreover from d I(2) obtain p where "p \<in> set (get_list preds b)" "d \<in> get_set rout p"
      unfolding new_in_def by blast
    ultimately show "Enters d b" using I(4) unfolding enters_def by blast
  next
    assume "Enters d b"
    then obtain p where "b \<in> set order" "p \<in> set (get_list preds b)" "d \<in> get_set rout p"
      using out unfolding enters_def by blast
    with closed show "d \<in> get_set rin b" unfolding new_in_def by blast
  qed
  with I(4) out show ?thesis unfolding exact_def fst_conv snd_conv by blast
qed

lemma complete_exact:
  assumes inv: "flow_inv s" and k: "card (set order) < k" "complete k s"
  shows "exact s"
proof (cases s)
  case (Pair rin rout)
  have "new_in rout b \<subseteq> get_set rin b" if b: "b \<in> set order" for b
  proof
    fix d assume "d \<in> new_in rout b"
    then obtain p where p: "p \<in> set (get_list preds b)" "d \<in> get_set rout p" by (auto simp: new_in_def)
    with inv have "Leaves d p" unfolding Pair flow_inv_def by simp
    then have "p \<in> Within d (card (set order))" by (simp add: leaves_within_card)
    with k b p(1) show "d \<in> get_set rin b" unfolding Pair complete_def fst_conv by blast
  qed
  with inv show ?thesis unfolding Pair by (intro closed_exact)
qed

lemma complete_round:
  assumes inv: "flow_inv (rin, rout)" and c: "complete k (rin, rout)"
    and r: "fold (update_block preds gen kill) order (rin, rout, ch) = (rin', rout', ch')"
  shows "complete (Suc k) (rin', rout')"
proof -
  note round = round_inv [OF inv subset_refl r]
  have out: "get_set rout' b = get_set gen b \<union> (get_set rin' b - get_set kill b)" for b
    using round(1) unfolding flow_inv_def by simp
  have rin': "d \<in> get_set rin' b" if "b \<in> set order" "p \<in> set (get_list preds b)" "p \<in> Within d k" for d b p
  proof -
    have "d \<in> get_set rout p" using c that(3) unfolding complete_def by simp
    then have "d \<in> new_in rout b" using that(2) by (auto simp: new_in_def)
    with round(4) that(1) show ?thesis by blast
  qed
  have "d \<in> get_set rout' b" if "b \<in> Within d (Suc k)" for d b
  proof (cases "b \<in> Within d k")
    case True
    with c have "d \<in> get_set rout b" unfolding complete_def by simp
    with round(3) show ?thesis by blast
  next
    case False
    with that rin' out show ?thesis by auto
  qed
  moreover have "d \<in> get_set rin' b" if "j < Suc k" "b \<in> set order" "p \<in> set (get_list preds b)" "p \<in> Within d j" for d j b p
    using rin' [OF that(2,3)] within_mono [of j k d] that(1,4) by auto
  ultimately show ?thesis unfolding complete_def fst_conv snd_conv by blast
qed

text \<open>
  The solver keeps the invariant; it is exact when the number of rounds is above the number of
  processed blocks, and whenever it stopped before the last round.
\<close>

lemma flow_rounds_inv:
  "flow_inv s \<Longrightarrow> flow_rounds preds gen kill order fuel n s = (s', m) \<Longrightarrow> flow_inv s' \<and> m \<le> n + fuel"
proof (induction fuel arbitrary: n s)
  case (Suc fuel)
  obtain rin rout where s: "s = (rin, rout)" by (cases s)
  obtain rin' rout' ch where r: "fold (update_block preds gen kill) order (rin, rout, False) = (rin', rout', ch)"
    by (cases "fold (update_block preds gen kill) order (rin, rout, False)")
  note inv = round_inv(1) [OF Suc.prems(1) [unfolded s] subset_refl r]
  show ?case
  proof (cases ch)
    case True
    with Suc.prems(2) r s have "flow_rounds preds gen kill order fuel (n + 1) (rin', rout') = (s', m)" by simp
    from Suc.IH [OF inv this] show ?thesis by simp
  next
    case False
    with Suc.prems(2) r s inv show ?thesis by auto
  qed
qed simp

lemma flow_rounds_exact:
  "flow_inv s \<Longrightarrow> complete k s \<Longrightarrow> flow_rounds preds gen kill order fuel n s = (s', m) \<Longrightarrow>
     card (set order) < k + fuel \<or> m < n + fuel \<Longrightarrow> exact s'"
proof (induction fuel arbitrary: n s k)
  case 0
  then show ?case using complete_exact [of s k] by auto
next
  case (Suc fuel)
  obtain rin rout where s: "s = (rin, rout)" by (cases s)
  obtain rin' rout' ch where r: "fold (update_block preds gen kill) order (rin, rout, False) = (rin', rout', ch)"
    by (cases "fold (update_block preds gen kill) order (rin, rout, False)")
  note round = round_inv [OF Suc.prems(1) [unfolded s] subset_refl r]
  show ?case
  proof (cases ch)
    case True
    with Suc.prems(3) r s have rest: "flow_rounds preds gen kill order fuel (n + 1) (rin', rout') = (s', m)" by simp
    show ?thesis
      by (rule Suc.IH [OF round(1) complete_round [OF Suc.prems(1,2) [unfolded s] r] rest]) (use Suc.prems(4) in auto)
  next
    case False
    with Suc.prems(3) r s have s': "s' = (rin', rout')" by simp
    from False round(5) have same: "get_set rin' = get_set rin" "get_set rout' = get_set rout" by simp_all
    have "new_in rout' b \<subseteq> get_set rin' b" if "b \<in> set order" for b
      using round(4) [OF that] unfolding new_in_def same(2) .
    with round(1) show ?thesis unfolding s' by (rule closed_exact)
  qed
qed

end

end
