(* ===== verification/Reaching.thy ===== *)
theory Reaching
  imports Cfg Round_Robin
begin

text \<open>
  The reaching-definitions analyses of \<open>dfg/reaching.rs\<close>: the block-ordered solver, the reverse
  postorder solver and the bit-vector solver, with the generated and killed definitions of a block.
\<close>

section \<open>Variable references\<close>

datatype ref_type = RefDefinition | RefUpdate | RefUse

datatype var_ref_context =
  AugmentedAssignment | MultipleAssignment | WalrusOperator | ComprehensionScope | MatchBinding
| GlobalNonlocal | Destructuring | ClosureCapture | OptionalChain | ShortDeclaration | MultipleReturn
| BlankIdentifier | DeferCapture | Shadowing | PatternBinding | OwnershipMove | MatchArmBinding

record var_ref =
  vr_name :: string
  vr_ref_type :: ref_type
  vr_line :: nat
  vr_column :: nat
  vr_context :: "var_ref_context option"
  vr_group_id :: "nat option"

record def_id =
  ref_index :: nat
  def_line :: nat

definition is_def :: "var_ref \<Rightarrow> bool" where
  "is_def r \<longleftrightarrow> vr_ref_type r = RefDefinition \<or> vr_ref_type r = RefUpdate"

text \<open>The definitions among the references, with their position.\<close>

definition collect_defs :: "var_ref list \<Rightarrow> (def_id \<times> var_ref) list" where
  "collect_defs refs =
     map (\<lambda>(i, r). (\<lparr>ref_index = i, def_line = vr_line r\<rparr>, r)) (filter (\<lambda>(i, r). is_def r) (enumerate 0 refs))"

definition in_lines :: "nat \<Rightarrow> cfg_block \<Rightarrow> bool" where
  "in_lines line b \<longleftrightarrow> fst (blk_lines b) \<le> line \<and> line \<le> snd (blk_lines b)"

text \<open>The first block that contains a line.\<close>

definition line_block :: "cfg_info \<Rightarrow> nat \<Rightarrow> block_id option" where
  "line_block cfg line = map_option blk_id (find (in_lines line) (cfg_blocks cfg))"

section \<open>The block that owns a definition\<close>

text \<open>The size \<open>end - start + 1\<close> is an unsigned 32-bit number.\<close>

definition better_block :: "nat \<Rightarrow> cfg_block \<Rightarrow> (block_id \<times> nat) option \<Rightarrow> (block_id \<times> nat) option" where
  "better_block line b best =
     (if in_lines line b then
        (let size = (snd (blk_lines b) - fst (blk_lines b) + 1) mod 2 ^ 32
         in case best of
              None \<Rightarrow> Some (blk_id b, size)
            | Some (best_id, best_size) \<Rightarrow>
                if best_size < size \<or> (size = best_size \<and> best_id < blk_id b) then Some (blk_id b, size) else best)
      else best)"

definition best_block :: "cfg_info \<Rightarrow> nat \<Rightarrow> block_id option" where
  "best_block cfg line = map_option fst (fold (better_block line) (cfg_blocks cfg) None)"

definition def_to_block :: "cfg_info \<Rightarrow> (def_id \<times> var_ref) list \<Rightarrow> (def_id \<rightharpoonup> block_id)" where
  "def_to_block cfg defs =
     fold (\<lambda>(d, r) m. case best_block cfg (vr_line r) of
             Some b \<Rightarrow> m(d \<mapsto> b)
           | None \<Rightarrow> m(d \<mapsto> (case cfg_blocks cfg of [] \<Rightarrow> 0 | b # bs \<Rightarrow> blk_id b))) defs Map.empty"

section \<open>Generated and killed definitions\<close>

definition last_def_step ::
  "(def_id \<Rightarrow> var_ref \<Rightarrow> bool) \<Rightarrow> def_id \<times> var_ref \<Rightarrow> (string \<rightharpoonup> def_id) \<times> def_id set \<Rightarrow>
     (string \<rightharpoonup> def_id) \<times> def_id set" where
  "last_def_step belongs = (\<lambda>(d, r) (last_def, kill).
     if belongs d r then
       (last_def(vr_name r \<mapsto> d), (case last_def (vr_name r) of Some prev \<Rightarrow> insert prev kill | None \<Rightarrow> kill))
     else (last_def, kill))"

definition block_gen_kill ::
  "(def_id \<Rightarrow> var_ref \<Rightarrow> bool) \<Rightarrow> (def_id \<times> var_ref) list \<Rightarrow> def_id set \<times> def_id set" where
  "block_gen_kill belongs defs =
     (let (last_def, kill) = fold (last_def_step belongs) defs (Map.empty, {});
          gen = set (map_values (map (vr_name \<circ> snd) defs) last_def);
          kill = fold (\<lambda>(d, r) kill. if last_def (vr_name r) \<noteq> None \<and> \<not> belongs d r then insert d kill else kill)
                   defs kill
      in (gen, kill))"

definition gen_kill_maps ::
  "(cfg_block \<Rightarrow> def_id \<Rightarrow> var_ref \<Rightarrow> bool) \<Rightarrow> cfg_info \<Rightarrow> (def_id \<times> var_ref) list \<Rightarrow>
     def_id flow_sets \<times> def_id flow_sets" where
  "gen_kill_maps belongs cfg defs =
     fold (\<lambda>b (gen, kill).
             (let (block_gen, block_kill) = block_gen_kill (belongs b) defs
              in (gen(blk_id b \<mapsto> block_gen), kill(blk_id b \<mapsto> block_kill))))
       (cfg_blocks cfg) (Map.empty, Map.empty)"

definition initial_sets :: "cfg_info \<Rightarrow> def_id flow_sets \<Rightarrow> def_id flow_sets \<times> def_id flow_sets" where
  "initial_sets cfg gen =
     fold (\<lambda>b (rin, rout). (rin(blk_id b \<mapsto> {}), rout(blk_id b \<mapsto> get_set gen (blk_id b))))
       (cfg_blocks cfg) (Map.empty, Map.empty)"

definition fresh_predecessors :: "cfg_info \<Rightarrow> (block_id \<rightharpoonup> block_id list)" where
  "fresh_predecessors cfg =
     fold (\<lambda>e m. entry_push (edge_to e) (edge_from e) m) (cfg_edges cfg)
       (fold (\<lambda>b m. m(blk_id b \<mapsto> [])) (cfg_blocks cfg) Map.empty)"

definition fresh_successors :: "cfg_info \<Rightarrow> (block_id \<rightharpoonup> block_id list)" where
  "fresh_successors cfg =
     fold (\<lambda>e m. entry_push (edge_from e) (edge_to e) m) (cfg_edges cfg)
       (fold (\<lambda>b m. m(blk_id b \<mapsto> [])) (cfg_blocks cfg) Map.empty)"

section \<open>The block-ordered analysis\<close>

record reaching_definitions =
  reaching_in :: "def_id flow_sets"
  reaching_out :: "def_id flow_sets"

definition owned_by :: "(def_id \<rightharpoonup> block_id) \<Rightarrow> cfg_block \<Rightarrow> def_id \<Rightarrow> var_ref \<Rightarrow> bool" where
  "owned_by owner b d r \<longleftrightarrow> owner d = Some (blk_id b)"

definition compute_reaching_definitions :: "cfg_info \<Rightarrow> var_ref list \<Rightarrow> reaching_definitions" where
  "compute_reaching_definitions cfg refs =
     (if cfg_blocks cfg = [] then \<lparr>reaching_in = Map.empty, reaching_out = Map.empty\<rparr>
      else
        (let predecessors = fresh_predecessors cfg;
             defs = collect_defs refs;
             owner = def_to_block cfg defs;
             (gen, kill) = gen_kill_maps (owned_by owner) cfg defs;
             ((rin, rout), iterations) =
               flow_rounds predecessors gen kill (map blk_id (cfg_blocks cfg)) 100 0 (initial_sets cfg gen)
         in \<lparr>reaching_in = rin, reaching_out = rout\<rparr>))"

definition definitions_reaching_line ::
  "(def_id set \<Rightarrow> def_id list) \<Rightarrow> reaching_definitions \<Rightarrow> cfg_info \<Rightarrow> var_ref list \<Rightarrow> nat \<Rightarrow> string option \<Rightarrow>
     def_id list" where
  "definitions_reaching_line enum reaching cfg refs line variable =
     (case line_block cfg line of
        None \<Rightarrow> []
      | Some block_id \<Rightarrow>
          (case reaching_in reaching block_id of
             None \<Rightarrow> []
           | Some rin \<Rightarrow>
               filter (\<lambda>d. case variable of
                         Some var_name \<Rightarrow> ref_index d < length refs \<and> vr_name (refs ! ref_index d) = var_name
                       | None \<Rightarrow> True) (enum rin)))"

section \<open>The reverse-postorder analysis\<close>

text \<open>
  \<open>compute_rpo\<close> is a recursive search; the model processes the list of the successors that are still
  to be visited.
\<close>

partial_function (option) rpo_dfs ::
  "(block_id \<rightharpoonup> block_id list) \<Rightarrow> block_id list \<Rightarrow> block_id set \<Rightarrow> block_id list \<Rightarrow>
     (block_id set \<times> block_id list) option" where
  "rpo_dfs successors ids visited postorder =
     (case ids of
        [] \<Rightarrow> Some (visited, postorder)
      | b # ids \<Rightarrow>
          if b \<in> visited then rpo_dfs successors ids visited postorder
          else Option.bind (rpo_dfs successors (get_list successors b) (insert b visited) postorder)
                 (\<lambda>(visited, postorder). rpo_dfs successors ids visited (postorder @ [b])))"

declare rpo_dfs.simps [code]

definition compute_rpo :: "cfg_info \<Rightarrow> block_id list option" where
  "compute_rpo cfg =
     (case rpo_dfs (fresh_successors cfg) [entry_block cfg] {} [] of
        None \<Rightarrow> None
      | Some (visited, postorder) \<Rightarrow> Some (rev postorder))"

record reaching_with_stats =
  rws_reaching :: reaching_definitions
  rws_iterations :: nat

definition compute_reaching_definitions_rpo :: "cfg_info \<Rightarrow> var_ref list \<Rightarrow> reaching_with_stats option" where
  "compute_reaching_definitions_rpo cfg refs =
     (if cfg_blocks cfg = [] then
        Some \<lparr>rws_reaching = \<lparr>reaching_in = Map.empty, reaching_out = Map.empty\<rparr>, rws_iterations = 0\<rparr>
      else
        (let predecessors = fresh_predecessors cfg;
             defs = collect_defs refs;
             (gen, kill) = gen_kill_maps (\<lambda>b d r. in_lines (vr_line r) b) cfg defs
         in case compute_rpo cfg of
              None \<Rightarrow> None
            | Some rpo \<Rightarrow>
                (let ((rin, rout), iterations) = flow_rounds predecessors gen kill rpo 100 0 (initial_sets cfg gen)
                 in Some \<lparr>rws_reaching = \<lparr>reaching_in = rin, reaching_out = rout\<rparr>, rws_iterations = iterations\<rparr>)))"

section \<open>The bit-vector analysis\<close>

record dense_def_mapping =
  def_to_bit :: "def_id \<rightharpoonup> nat"
  bit_to_def :: "def_id list"
  num_defs :: nat

definition create_dense_def_mapping :: "var_ref list \<Rightarrow> dense_def_mapping" where
  "create_dense_def_mapping refs =
     (let (d2b, b2d) =
            fold (\<lambda>(index, r) (d2b, b2d).
                   (let d = \<lparr>ref_index = index, def_line = vr_line r\<rparr>
                    in if is_def r \<and> d2b d = None then (d2b(d \<mapsto> length b2d), b2d @ [d]) else (d2b, b2d)))
              (enumerate 0 refs) (Map.empty, [])
      in \<lparr>def_to_bit = d2b, bit_to_def = b2d, num_defs = length b2d\<rparr>)"

type_synonym bits = "bool list"

definition last_bit_step ::
  "(var_ref \<Rightarrow> bool) \<Rightarrow> var_ref \<times> nat \<Rightarrow> (string \<rightharpoonup> nat) \<times> bits \<Rightarrow> (string \<rightharpoonup> nat) \<times> bits" where
  "last_bit_step belongs = (\<lambda>(r, bit_pos) (last_def, kill).
     if belongs r then
       (last_def(vr_name r \<mapsto> bit_pos),
        (case last_def (vr_name r) of Some prev \<Rightarrow> kill[prev := True] | None \<Rightarrow> kill))
     else (last_def, kill))"

definition block_gen_kill_bits :: "nat \<Rightarrow> (var_ref \<Rightarrow> bool) \<Rightarrow> (var_ref \<times> nat) list \<Rightarrow> bits \<times> bits" where
  "block_gen_kill_bits n belongs defs =
     (let (last_def, kill) = fold (last_bit_step belongs) defs (Map.empty, replicate n False);
          gen = fold (\<lambda>bit_pos gen. gen[bit_pos := True])
                  (map_values (map (vr_name \<circ> fst) defs) last_def) (replicate n False);
          kill = fold (\<lambda>(r, bit_pos) kill.
                    if last_def (vr_name r) \<noteq> None \<and> \<not> belongs r then kill[bit_pos := True] else kill) defs kill
      in (gen, kill))"

type_synonym bit_sets = "block_id \<rightharpoonup> bits"

definition get_bits :: "nat \<Rightarrow> bit_sets \<Rightarrow> block_id \<Rightarrow> bits" where
  "get_bits n m b = (case m b of None \<Rightarrow> replicate n False | Some v \<Rightarrow> v)"

definition gen_kill_bit_maps :: "nat \<Rightarrow> cfg_info \<Rightarrow> (var_ref \<times> nat) list \<Rightarrow> bit_sets \<times> bit_sets" where
  "gen_kill_bit_maps n cfg defs =
     fold (\<lambda>b (gen, kill).
             (let (block_gen, block_kill) = block_gen_kill_bits n (\<lambda>r. in_lines (vr_line r) b) defs
              in (gen(blk_id b \<mapsto> block_gen), kill(blk_id b \<mapsto> block_kill))))
       (cfg_blocks cfg) (Map.empty, Map.empty)"

definition initial_bits :: "nat \<Rightarrow> cfg_info \<Rightarrow> bit_sets \<Rightarrow> bit_sets \<times> bit_sets" where
  "initial_bits n cfg gen =
     fold (\<lambda>b (ins, outs). (ins(blk_id b \<mapsto> replicate n False), outs(blk_id b \<mapsto> get_bits n gen (blk_id b))))
       (cfg_blocks cfg) (Map.empty, Map.empty)"

text \<open>The two \<open>unwrap\<close> panic, \<open>None\<close>, for a block that is not in the graph.\<close>

definition update_block_bits ::
  "nat \<Rightarrow> (block_id \<rightharpoonup> block_id list) \<Rightarrow> bit_sets \<Rightarrow> bit_sets \<Rightarrow> block_id \<Rightarrow> bit_sets \<times> bit_sets \<times> bool \<Rightarrow>
     (bit_sets \<times> bit_sets \<times> bool) option" where
  "update_block_bits n preds gen kill b = (\<lambda>(ins, outs, changed).
     (let new_in = fold (\<lambda>p new_in. case outs p of Some pred_out \<Rightarrow> map2 (\<or>) new_in pred_out | None \<Rightarrow> new_in)
                     (get_list preds b) (replicate n False);
          in_minus_kill = map2 (\<and>) new_in (map Not (get_bits n kill b));
          new_out = map2 (\<or>) (get_bits n gen b) in_minus_kill
      in case (ins b, outs b) of
           (Some old_in, Some old_out) \<Rightarrow>
             (let (ins, changed) = (if new_in \<noteq> old_in then (ins(b \<mapsto> new_in), True) else (ins, changed));
                  (outs, changed) = (if new_out \<noteq> old_out then (outs(b \<mapsto> new_out), True) else (outs, changed))
              in Some (ins, outs, changed))
         | _ \<Rightarrow> None))"

fun bit_rounds ::
  "nat \<Rightarrow> (block_id \<rightharpoonup> block_id list) \<Rightarrow> bit_sets \<Rightarrow> bit_sets \<Rightarrow> block_id list \<Rightarrow> nat \<Rightarrow> nat \<Rightarrow>
     bit_sets \<times> bit_sets \<Rightarrow> ((bit_sets \<times> bit_sets) \<times> nat) option" where
  "bit_rounds n preds gen kill order 0 k s = Some (s, k)"
| "bit_rounds n preds gen kill order (Suc fuel) k s =
     (case fold_opt (update_block_bits n preds gen kill) order (fst s, snd s, False) of
        None \<Rightarrow> None
      | Some (ins, outs, changed) \<Rightarrow>
          if changed then bit_rounds n preds gen kill order fuel (k + 1) (ins, outs)
          else Some ((ins, outs), k + 1))"

record bit_vector_reaching =
  bv_mapping :: dense_def_mapping
  bv_in_sets :: bit_sets
  bv_out_sets :: bit_sets
  bv_iterations :: nat

definition compute_reaching_definitions_bitvec :: "cfg_info \<Rightarrow> var_ref list \<Rightarrow> bit_vector_reaching option" where
  "compute_reaching_definitions_bitvec cfg refs =
     (let mapping = create_dense_def_mapping refs;
          n = num_defs mapping
      in if cfg_blocks cfg = [] \<or> n = 0 then
           Some \<lparr>bv_mapping = mapping, bv_in_sets = Map.empty, bv_out_sets = Map.empty, bv_iterations = 0\<rparr>
         else
           (let predecessors = fresh_predecessors cfg;
                defs = map (\<lambda>(d, r). (r, the (def_to_bit mapping d))) (collect_defs refs);
                (gen, kill) = gen_kill_bit_maps n cfg defs
            in case compute_rpo cfg of
                 None \<Rightarrow> None
               | Some rpo \<Rightarrow>
                   (case bit_rounds n predecessors gen kill rpo 100 0 (initial_bits n cfg gen) of
                      None \<Rightarrow> None
                    | Some ((ins, outs), iterations) \<Rightarrow>
                        Some \<lparr>bv_mapping = mapping, bv_in_sets = ins, bv_out_sets = outs,
                          bv_iterations = iterations\<rparr>)))"

definition bits_to_defs :: "dense_def_mapping \<Rightarrow> bits \<Rightarrow> def_id set" where
  "bits_to_defs mapping bv =
     set (map (\<lambda>(i, bit). bit_to_def mapping ! i)
       (filter (\<lambda>(i, bit). bit \<and> i < length (bit_to_def mapping)) (enumerate 0 bv)))"

definition to_standard :: "bit_vector_reaching \<Rightarrow> reaching_definitions" where
  "to_standard r =
     \<lparr>reaching_in = (\<lambda>b. map_option (bits_to_defs (bv_mapping r)) (bv_in_sets r b)),
      reaching_out = (\<lambda>b. map_option (bits_to_defs (bv_mapping r)) (bv_out_sets r b))\<rparr>"

end
