(* ===== verification/Reaching_Correct.thy ===== *)
theory Reaching_Correct
  imports Reaching
begin

text \<open>
  What the reaching-definitions analyses compute: the generated and killed definitions of a block,
  the definitions that reach a block as paths in the graph, and the agreement of the three solvers.
\<close>

section \<open>The collected definitions\<close>

abbreviation ascending :: "(def_id \<times> var_ref) list \<Rightarrow> bool" where
  "ascending defs \<equiv> sorted_wrt (\<lambda>x y. ref_index (fst x) < ref_index (fst y)) defs"

lemma set_collect_defs:
  "(d, r) \<in> set (collect_defs refs) \<longleftrightarrow>
     ref_index d < length refs \<and> r = refs ! ref_index d \<and> def_line d = vr_line r \<and> is_def r"
  by (cases d) (auto simp: collect_defs_def in_set_enumerate_eq image_iff Bex_def)

lemma ascending_collect_defs: "ascending (collect_defs refs)"
proof -
  have "sorted_wrt (\<lambda>x y. fst x < fst y) (enumerate k xs)" for k and xs :: "var_ref list"
    by (induction xs arbitrary: k) (auto simp: in_set_enumerate_eq)
  then have "sorted_wrt (\<lambda>x y. fst x < fst y) (filter (\<lambda>(i, r). is_def r) (enumerate 0 refs))"
    by (rule sorted_wrt_filter)
  then show ?thesis
    unfolding collect_defs_def sorted_wrt_map by (rule sorted_wrt_mono_rel [rotated]) auto
qed

lemma ascending_fun:
  assumes "ascending xs" and "(d, r) \<in> set xs" and "(d, r') \<in> set xs"
  shows "r = r'"
proof (rule ccontr)
  assume "r \<noteq> r'"
  from assms obtain i j where ij: "i < length xs" "xs ! i = (d, r)" "j < length xs" "xs ! j = (d, r')"
    by (auto simp: in_set_conv_nth)
  with \<open>r \<noteq> r'\<close> have "i < j \<or> j < i" by (metis Pair_inject nat_neq_iff)
  with ij sorted_wrt_nth_less [OF assms(1), of i j] sorted_wrt_nth_less [OF assms(1), of j i] show False by auto
qed

section \<open>Generated and killed definitions\<close>

text \<open>A later definition of the same variable that belongs to the block.\<close>

definition later_def ::
  "(def_id \<Rightarrow> var_ref \<Rightarrow> bool) \<Rightarrow> (def_id \<times> var_ref) list \<Rightarrow> def_id \<Rightarrow> var_ref \<Rightarrow> bool" where
  "later_def belongs defs d r \<longleftrightarrow>
     (\<exists>(d', r') \<in> set defs. belongs d' r' \<and> vr_name r' = vr_name r \<and> ref_index d < ref_index d')"

definition defines_var ::
  "(def_id \<Rightarrow> var_ref \<Rightarrow> bool) \<Rightarrow> (def_id \<times> var_ref) list \<Rightarrow> string \<Rightarrow> bool" where
  "defines_var belongs defs n \<longleftrightarrow> (\<exists>(d, r) \<in> set defs. belongs d r \<and> vr_name r = n)"

lemma later_def_snoc:
  "later_def belongs (xs @ [(d', r')]) d r \<longleftrightarrow>
     later_def belongs xs d r \<or> (belongs d' r' \<and> vr_name r' = vr_name r \<and> ref_index d < ref_index d')"
  by (auto simp: later_def_def)

lemma last_defs:
  assumes "ascending xs" and "fold (last_def_step belongs) xs (Map.empty, {}) = (last_def, kill)"
  shows "last_def n = Some d \<longleftrightarrow>
      (\<exists>r. (d, r) \<in> set xs \<and> belongs d r \<and> vr_name r = n \<and> \<not> later_def belongs xs d r)"
    and "d \<in> kill \<longleftrightarrow> (\<exists>r. (d, r) \<in> set xs \<and> belongs d r \<and> later_def belongs xs d r)"
    and "last_def n \<noteq> None \<longleftrightarrow> defines_var belongs xs n"
proof -
  have "(\<forall>n d. last_def n = Some d \<longleftrightarrow>
      (\<exists>r. (d, r) \<in> set xs \<and> belongs d r \<and> vr_name r = n \<and> \<not> later_def belongs xs d r)) \<and>
    (\<forall>d. d \<in> kill \<longleftrightarrow> (\<exists>r. (d, r) \<in> set xs \<and> belongs d r \<and> later_def belongs xs d r)) \<and>
    (\<forall>n. last_def n \<noteq> None \<longleftrightarrow> defines_var belongs xs n)"
    using assms
  proof (induction xs arbitrary: last_def kill rule: rev_induct)
    case Nil
    then show ?case by (auto simp: defines_var_def)
  next
    case (snoc x xs)
    obtain d1 r1 where x: "x = (d1, r1)" by (cases x)
    obtain last0 kill0 where s: "fold (last_def_step belongs) xs (Map.empty, {}) = (last0, kill0)" by fastforce
    from snoc.prems(1) have asc: "ascending xs" and below: "\<And>d r. (d, r) \<in> set xs \<Longrightarrow> ref_index d < ref_index d1"
      by (auto simp: sorted_wrt_append x)
    note IH = snoc.IH [OF asc s]
    have step: "last_def_step belongs (d1, r1) (last0, kill0) = (last_def, kill)" using snoc.prems(2) s x by simp
    have not_later: "\<not> later_def belongs (xs @ [(d1, r1)]) d1 r1"
      unfolding later_def_def using below by (fastforce dest: less_asym)
    show ?case
    proof (cases "belongs d1 r1")
      case False
      with step have eq: "last_def = last0" "kill = kill0" by (simp_all add: last_def_step_def)
      have same: "later_def belongs (xs @ [(d1, r1)]) d r \<longleftrightarrow> later_def belongs xs d r" for d r
        using False by (simp add: later_def_snoc)
      have "defines_var belongs (xs @ [(d1, r1)]) n \<longleftrightarrow> defines_var belongs xs n" for n
        using False by (auto simp: defines_var_def)
      with IH False show ?thesis unfolding eq x same by auto
    next
      case True
      let ?n = "vr_name r1"
      from step True have last: "last_def = last0(?n \<mapsto> d1)"
        and kill: "kill = (case last0 ?n of Some prev \<Rightarrow> insert prev kill0 | None \<Rightarrow> kill0)"
        by (simp_all add: last_def_step_def)
      have later: "later_def belongs (xs @ [(d1, r1)]) d r \<longleftrightarrow> later_def belongs xs d r \<or> vr_name r = ?n"
        if "(d, r) \<in> set xs" for d r
        using True below [OF that] by (auto simp: later_def_snoc)
      have 1: "last_def n = Some d \<longleftrightarrow> (\<exists>r. (d, r) \<in> set (xs @ [x]) \<and> belongs d r \<and> vr_name r = n \<and>
          \<not> later_def belongs (xs @ [x]) d r)" for n d
      proof (cases "n = ?n")
        case True
        have "(\<exists>r. (d, r) \<in> set (xs @ [x]) \<and> belongs d r \<and> vr_name r = n \<and> \<not> later_def belongs (xs @ [x]) d r) \<longleftrightarrow> d = d1"
          using \<open>belongs d1 r1\<close> not_later later True by (auto simp: x)
        then show ?thesis using True last by auto
      next
        case False
        then show ?thesis using IH later by (auto simp: last x)
      qed
      have 2: "d \<in> kill \<longleftrightarrow> (\<exists>r. (d, r) \<in> set (xs @ [x]) \<and> belongs d r \<and> later_def belongs (xs @ [x]) d r)" for d
      proof -
        have "(\<exists>r. (d, r) \<in> set (xs @ [x]) \<and> belongs d r \<and> later_def belongs (xs @ [x]) d r) \<longleftrightarrow>
            (\<exists>r. (d, r) \<in> set xs \<and> belongs d r \<and> (later_def belongs xs d r \<or> vr_name r = ?n))"
          using not_later later by (auto simp: x)
        also have "\<dots> \<longleftrightarrow> d \<in> kill0 \<or> last0 ?n = Some d" using IH by blast
        finally show ?thesis unfolding kill by (auto split: option.split)
      qed
      have "last0 n \<noteq> None \<longleftrightarrow> defines_var belongs xs n" for n using IH by blast
      moreover have "defines_var belongs (xs @ [x]) n \<longleftrightarrow> n = ?n \<or> defines_var belongs xs n" for n
        using True by (auto simp: x defines_var_def)
      ultimately have 3: "last_def n \<noteq> None \<longleftrightarrow> defines_var belongs (xs @ [x]) n" for n
        unfolding last by (cases "n = ?n") simp_all
      from 1 2 3 show ?thesis by blast
    qed
  qed
  then show "last_def n = Some d \<longleftrightarrow>
      (\<exists>r. (d, r) \<in> set xs \<and> belongs d r \<and> vr_name r = n \<and> \<not> later_def belongs xs d r)"
    and "d \<in> kill \<longleftrightarrow> (\<exists>r. (d, r) \<in> set xs \<and> belongs d r \<and> later_def belongs xs d r)"
    and "last_def n \<noteq> None \<longleftrightarrow> defines_var belongs xs n" by blast+
qed

lemma block_gen_kill_eq:
  assumes asc: "ascending defs" and r: "block_gen_kill belongs defs = (gen, kill)"
  shows "d \<in> gen \<longleftrightarrow> (\<exists>r. (d, r) \<in> set defs \<and> belongs d r \<and> \<not> later_def belongs defs d r)"
    and "d \<in> kill \<longleftrightarrow> (\<exists>r. (d, r) \<in> set defs \<and>
      (if belongs d r then later_def belongs defs d r else defines_var belongs defs (vr_name r)))"
proof -
  obtain last_def kill0 where s: "fold (last_def_step belongs) defs (Map.empty, {}) = (last_def, kill0)" by fastforce
  note last = last_defs [OF asc s]
  have "fold (\<lambda>(d, r) kill. if last_def (vr_name r) \<noteq> None \<and> \<not> belongs d r then insert d kill else kill) xs k =
      k \<union> {d. \<exists>r. (d, r) \<in> set xs \<and> last_def (vr_name r) \<noteq> None \<and> \<not> belongs d r}" for xs k
    by (induction xs arbitrary: k) (auto split: if_splits)
  with r s have gen: "gen = set (map_values (map (vr_name \<circ> snd) defs) last_def)"
    and kill: "kill = kill0 \<union> {d. \<exists>r. (d, r) \<in> set defs \<and> last_def (vr_name r) \<noteq> None \<and> \<not> belongs d r}"
    by (simp_all add: block_gen_kill_def Let_def)
  have "dom last_def \<subseteq> set (map (vr_name \<circ> snd) defs)"
  proof
    fix n assume "n \<in> dom last_def"
    then have "defines_var belongs defs n" unfolding last(3) [symmetric] by (simp add: domIff)
    then show "n \<in> set (map (vr_name \<circ> snd) defs)" unfolding defines_var_def by force
  qed
  then have "gen = ran last_def" unfolding gen by (rule set_map_values)
  then show "d \<in> gen \<longleftrightarrow> (\<exists>r. (d, r) \<in> set defs \<and> belongs d r \<and> \<not> later_def belongs defs d r)"
    using last(1) by (auto simp: ran_def)
  show "d \<in> kill \<longleftrightarrow> (\<exists>r. (d, r) \<in> set defs \<and>
      (if belongs d r then later_def belongs defs d r else defines_var belongs defs (vr_name r)))"
    unfolding kill using last(2) [of d] last(3) by (auto split: if_splits)
qed

section \<open>The maps of the blocks\<close>

text \<open>A map filled by a loop over the blocks; a later block with the same id overwrites the entry.\<close>

definition block_map :: "(cfg_block \<Rightarrow> 'v) \<Rightarrow> cfg_block list \<Rightarrow> (block_id \<rightharpoonup> 'v)" where
  "block_map f bs = fold (\<lambda>b m. m(blk_id b \<mapsto> f b)) bs Map.empty"

lemma block_map_simps [simp]:
  "block_map f [] = Map.empty" "block_map f (bs @ [b]) = (block_map f bs)(blk_id b \<mapsto> f b)"
  by (simp_all add: block_map_def del: fun_upd_apply)

lemma block_map_None: "block_map f bs c = None \<longleftrightarrow> c \<notin> blk_id ` set bs"
  by (induction bs rule: rev_induct) auto

lemma block_map_Some:
  "distinct (map blk_id bs) \<Longrightarrow> b \<in> set bs \<Longrightarrow> block_map f bs (blk_id b) = Some (f b)"
proof (induction bs rule: rev_induct)
  case (snoc a bs)
  have "blk_id a \<notin> blk_id ` set bs" using snoc.prems(1) by simp
  then have "b \<in> set bs \<Longrightarrow> blk_id b \<noteq> blk_id a" by (metis image_eqI)
  with snoc show ?case by (cases "b \<in> set bs") auto
qed simp

lemma block_map_id: "block_map (\<lambda>b. h (blk_id b)) bs c = (if c \<in> blk_id ` set bs then Some (h c) else None)"
  by (induction bs rule: rev_induct) auto

lemma block_map_cong: "(\<And>b. b \<in> set bs \<Longrightarrow> f b = g b) \<Longrightarrow> block_map f bs = block_map g bs"
  by (induction bs rule: rev_induct) auto

lemma map_option_block_map: "map_option g (block_map f bs c) = block_map (\<lambda>b. g (f b)) bs c"
  by (induction bs rule: rev_induct) auto

lemma fold_two_maps:
  "fold (\<lambda>b (m, m'). (m(blk_id b \<mapsto> f b), m'(blk_id b \<mapsto> g b))) bs (Map.empty, Map.empty) =
     (block_map f bs, block_map g bs)"
  by (induction bs rule: rev_induct) simp_all

abbreviation block_ids :: "cfg_info \<Rightarrow> block_id list" where
  "block_ids cfg \<equiv> map blk_id (cfg_blocks cfg)"

lemma gen_kill_maps_eq:
  "gen_kill_maps belongs cfg defs =
     (block_map (\<lambda>b. fst (block_gen_kill (belongs b) defs)) (cfg_blocks cfg),
      block_map (\<lambda>b. snd (block_gen_kill (belongs b) defs)) (cfg_blocks cfg))"
  unfolding gen_kill_maps_def fold_two_maps [symmetric] by (simp add: case_prod_beta Let_def)

lemma gen_kill_maps_block:
  assumes "distinct (block_ids cfg)" and "gen_kill_maps belongs cfg defs = (gen, kill)"
    and "b \<in> set (cfg_blocks cfg)" and "block_gen_kill (belongs b) defs = (g, k)"
  shows "get_set gen (blk_id b) = g" and "get_set kill (blk_id b) = k"
  using assms(2,4) by (auto simp: gen_kill_maps_eq get_set_def block_map_Some [OF assms(1,3)])

lemma get_set_other: "c \<notin> set (block_ids cfg) \<Longrightarrow> get_set (block_map f (cfg_blocks cfg)) c = {}"
  using block_map_None [of f "cfg_blocks cfg" c] by (simp add: get_set_def)

lemma gen_kill_maps_other:
  assumes "gen_kill_maps belongs cfg defs = (gen, kill)" and "c \<notin> set (block_ids cfg)"
  shows "get_set gen c = {}" and "get_set kill c = {}"
  using assms(1) by (auto simp: gen_kill_maps_eq get_set_other [OF assms(2)])

lemma initial_sets_eq:
  "initial_sets cfg gen =
     (block_map (\<lambda>b. {}) (cfg_blocks cfg), block_map (\<lambda>b. get_set gen (blk_id b)) (cfg_blocks cfg))"
  unfolding initial_sets_def fold_two_maps ..

lemma get_set_initial:
  assumes "initial_sets cfg gen = (rin, rout)" and "\<And>c. c \<notin> set (block_ids cfg) \<Longrightarrow> get_set gen c = {}"
  shows "get_set rin c = {}" and "get_set rout c = get_set gen c"
proof -
  have "rin = block_map (\<lambda>b. {}) (cfg_blocks cfg)"
    and "rout = block_map (\<lambda>b. get_set gen (blk_id b)) (cfg_blocks cfg)"
    using assms(1) by (simp_all add: initial_sets_eq)
  then show "get_set rin c = {}" "get_set rout c = get_set gen c"
    using assms(2) [of c] by (simp_all add: get_set_def block_map_id [of "\<lambda>_. {}"] block_map_id [of "\<lambda>c. get_set gen c", unfolded get_set_def])
qed

lemma get_list_fresh:
  "get_list (fresh_predecessors cfg) b = map edge_from (filter (\<lambda>e. edge_to e = b) (cfg_edges cfg))"
  "get_list (fresh_successors cfg) b = succs_of cfg b"
proof -
  have 1: "get_list (block_map (\<lambda>b. []) (cfg_blocks cfg)) b = []"
    by (simp add: get_list_def block_map_id [of "\<lambda>_. []"])
  show "get_list (fresh_predecessors cfg) b = map edge_from (filter (\<lambda>e. edge_to e = b) (cfg_edges cfg))"
    "get_list (fresh_successors cfg) b = succs_of cfg b"
    unfolding fresh_predecessors_def fresh_successors_def succs_of_eq block_map_def [symmetric]
    by (simp_all add: 1)
qed

lemma set_fresh_predecessors: "set (get_list (fresh_predecessors cfg) b) = {p. (p, b) \<in> flow cfg}"
  by (auto simp: get_list_fresh flow_def)

section \<open>Paths of a definition\<close>

text \<open>
  The blocks that define a variable, the edges that do not run into one of them, and the definitions
  that reach the start of a block: the last definition of its variable in some block, a path from
  there through blocks that do not define the variable, and an edge into the block.
\<close>

definition defining_blocks ::
  "(cfg_block \<Rightarrow> def_id \<Rightarrow> var_ref \<Rightarrow> bool) \<Rightarrow> cfg_info \<Rightarrow> (def_id \<times> var_ref) list \<Rightarrow> string \<Rightarrow> block_id set" where
  "defining_blocks belongs cfg defs n = {blk_id b | b. b \<in> set (cfg_blocks cfg) \<and> defines_var (belongs b) defs n}"

definition clear_edges :: "cfg_info \<Rightarrow> block_id set \<Rightarrow> block_id set \<Rightarrow> (block_id \<times> block_id) set" where
  "clear_edges cfg B D = {(p, q) \<in> flow cfg. q \<in> B \<and> q \<notin> D}"

definition reaches_end ::
  "(cfg_block \<Rightarrow> def_id \<Rightarrow> var_ref \<Rightarrow> bool) \<Rightarrow> cfg_info \<Rightarrow> (def_id \<times> var_ref) list \<Rightarrow> block_id set \<Rightarrow>
     def_id \<Rightarrow> block_id \<Rightarrow> bool" where
  "reaches_end belongs cfg defs B d p \<longleftrightarrow>
     (\<exists>r b. (d, r) \<in> set defs \<and> b \<in> set (cfg_blocks cfg) \<and> belongs b d r \<and> \<not> later_def (belongs b) defs d r \<and>
        (blk_id b, p) \<in> (clear_edges cfg B (defining_blocks belongs cfg defs (vr_name r)))\<^sup>*)"

definition reaches_start ::
  "(cfg_block \<Rightarrow> def_id \<Rightarrow> var_ref \<Rightarrow> bool) \<Rightarrow> cfg_info \<Rightarrow> (def_id \<times> var_ref) list \<Rightarrow> block_id set \<Rightarrow>
     def_id \<Rightarrow> block_id \<Rightarrow> bool" where
  "reaches_start belongs cfg defs B d b \<longleftrightarrow> b \<in> B \<and> (\<exists>p. (p, b) \<in> flow cfg \<and> reaches_end belongs cfg defs B d p)"

lemma later_defines: "later_def belongs defs d r \<Longrightarrow> defines_var belongs defs (vr_name r)"
  unfolding later_def_def defines_var_def by fastforce

lemma gen_iff:
  assumes "distinct (block_ids cfg)" and asc: "ascending defs" and m: "gen_kill_maps belongs cfg defs = (gen, kill)"
  shows "d \<in> get_set gen c \<longleftrightarrow> (\<exists>r b. (d, r) \<in> set defs \<and> b \<in> set (cfg_blocks cfg) \<and> blk_id b = c \<and>
      belongs b d r \<and> \<not> later_def (belongs b) defs d r)"
proof (cases "c \<in> set (block_ids cfg)")
  case True
  then obtain b where b: "b \<in> set (cfg_blocks cfg)" "blk_id b = c" by auto
  obtain g k where gk: "block_gen_kill (belongs b) defs = (g, k)" by (cases "block_gen_kill (belongs b) defs")
  have "b' = b" if "b' \<in> set (cfg_blocks cfg)" "blk_id b' = c" for b'
    using assms(1) b that by (auto simp: distinct_map dest: inj_onD)
  with gen_kill_maps_block(1) [OF assms(1) m b(1) gk] block_gen_kill_eq(1) [OF asc gk, of d] b show ?thesis by blast
next
  case False
  then have "\<nexists>b. b \<in> set (cfg_blocks cfg) \<and> blk_id b = c" by auto
  with gen_kill_maps_other [OF m False] show ?thesis by blast
qed

lemma kill_iff:
  assumes "distinct (block_ids cfg)" and asc: "ascending defs" and m: "gen_kill_maps belongs cfg defs = (gen, kill)"
  shows "d \<in> get_set kill c \<longleftrightarrow> (\<exists>r. (d, r) \<in> set defs \<and> c \<in> defining_blocks belongs cfg defs (vr_name r) \<and>
      d \<notin> get_set gen c)"
proof (cases "c \<in> set (block_ids cfg)")
  case True
  then obtain b where b: "b \<in> set (cfg_blocks cfg)" "blk_id b = c" by auto
  obtain g k where gk: "block_gen_kill (belongs b) defs = (g, k)" by (cases "block_gen_kill (belongs b) defs")
  have same: "b' = b" if "b' \<in> set (cfg_blocks cfg)" "blk_id b' = c" for b'
    using assms(1) b that by (auto simp: distinct_map dest: inj_onD)
  have D: "c \<in> defining_blocks belongs cfg defs n \<longleftrightarrow> defines_var (belongs b) defs n" for n
    unfolding defining_blocks_def mem_Collect_eq using b same by blast
  have gen: "d \<in> get_set gen c \<longleftrightarrow> belongs b d r \<and> \<not> later_def (belongs b) defs d r"
    if "(d, r) \<in> set defs" for r
  proof -
    have "r' = r" if "(d, r') \<in> set defs" for r' using ascending_fun [OF asc that \<open>(d, r) \<in> set defs\<close>] .
    with gen_iff [OF assms, of d c] that b same show ?thesis by blast
  qed
  have kill: "d \<in> get_set kill c \<longleftrightarrow> (\<exists>r. (d, r) \<in> set defs \<and>
      (if belongs b d r then later_def (belongs b) defs d r else defines_var (belongs b) defs (vr_name r)))"
    using gen_kill_maps_block(2) [OF assms(1) m b(1) gk] block_gen_kill_eq(2) [OF asc gk, of d] b(2) by simp
  have "(if belongs b d r then later_def (belongs b) defs d r else defines_var (belongs b) defs (vr_name r)) \<longleftrightarrow>
      defines_var (belongs b) defs (vr_name r) \<and> d \<notin> get_set gen c" if "(d, r) \<in> set defs" for r
    using later_defines [of "belongs b" defs d r] gen [OF that] by auto
  with kill D show ?thesis by blast
next
  case False
  then have "c \<notin> defining_blocks belongs cfg defs n" for n by (auto simp: defining_blocks_def)
  with gen_kill_maps_other [OF m False] show ?thesis by blast
qed

text \<open>The facts that flow along the edges are the definitions with a clear path.\<close>

lemma leaves_eq:
  assumes "distinct (block_ids cfg)" and "ascending defs" and "gen_kill_maps belongs cfg defs = (gen, kill)"
  shows "leaves (fresh_predecessors cfg) gen kill B d c \<longleftrightarrow> reaches_end belongs cfg defs B d c"
proof
  note gen = gen_iff [OF assms] and kill = kill_iff [OF assms]
  show "reaches_end belongs cfg defs B d c" if "leaves (fresh_predecessors cfg) gen kill B d c"
    using that
  proof induction
    case (generated b)
    then show ?case unfolding gen reaches_end_def by blast
  next
    case (passed p b)
    show ?case
    proof (cases "d \<in> get_set gen b")
      case True
      then show ?thesis unfolding gen reaches_end_def by blast
    next
      case False
      from passed(5) obtain r o' where o': "(d, r) \<in> set defs" "o' \<in> set (cfg_blocks cfg)" "belongs o' d r"
        "\<not> later_def (belongs o') defs d r"
        "(blk_id o', p) \<in> (clear_edges cfg B (defining_blocks belongs cfg defs (vr_name r)))\<^sup>*"
        unfolding reaches_end_def by blast
      have "b \<notin> defining_blocks belongs cfg defs (vr_name r)" using passed(4) False o'(1) unfolding kill by blast
      moreover have "(p, b) \<in> flow cfg" using passed(2) by (simp add: set_fresh_predecessors)
      ultimately have "(p, b) \<in> clear_edges cfg B (defining_blocks belongs cfg defs (vr_name r))"
        using passed(3) by (simp add: clear_edges_def)
      with o'(5) have "(blk_id o', b) \<in> (clear_edges cfg B (defining_blocks belongs cfg defs (vr_name r)))\<^sup>*"
        by (rule rtrancl_into_rtrancl)
      with o'(1-4) show ?thesis unfolding reaches_end_def by blast
    qed
  qed
  show "leaves (fresh_predecessors cfg) gen kill B d c" if "reaches_end belongs cfg defs B d c"
  proof -
    from that obtain r b where b: "(d, r) \<in> set defs" "b \<in> set (cfg_blocks cfg)" "belongs b d r"
      "\<not> later_def (belongs b) defs d r"
      and path: "(blk_id b, c) \<in> (clear_edges cfg B (defining_blocks belongs cfg defs (vr_name r)))\<^sup>*"
      unfolding reaches_end_def by blast
    from path show ?thesis
    proof induction
      case base
      have "d \<in> get_set gen (blk_id b)" unfolding gen using b by blast
      then show ?case by (rule leaves.generated)
    next
      case (step p q)
      have "d \<notin> get_set kill q"
      proof
        assume "d \<in> get_set kill q"
        then obtain r' where r': "(d, r') \<in> set defs" "q \<in> defining_blocks belongs cfg defs (vr_name r')"
          unfolding kill by blast
        from ascending_fun [OF assms(2) r'(1) b(1)] r'(2) step(2) show False by (simp add: clear_edges_def)
      qed
      with step show ?case by (auto simp: clear_edges_def set_fresh_predecessors intro: leaves.passed)
    qed
  qed
qed

text \<open>The solver on the model's own problem.\<close>

interpretation reaching: gen_kill_problem "fresh_predecessors cfg" gen kill order
  for cfg :: cfg_info and gen kill :: "def_id flow_sets" and order :: "block_id list" .

lemma flow_inv_initial:
  assumes "gen_kill_maps belongs cfg defs = (gen, kill)"
  shows "reaching.flow_inv cfg gen kill order (initial_sets cfg gen)"
    and "reaching.complete cfg gen kill order 0 (initial_sets cfg gen)"
proof -
  obtain rin rout where i: "initial_sets cfg gen = (rin, rout)" by (cases "initial_sets cfg gen")
  have sets: "get_set rin c = {}" "get_set rout c = get_set gen c" for c
    by (rule get_set_initial [OF i], erule gen_kill_maps_other(1) [OF assms])+
  show "reaching.flow_inv cfg gen kill order (initial_sets cfg gen)"
    unfolding i reaching.flow_inv_def by (auto simp: sets intro: leaves.generated)
  show "reaching.complete cfg gen kill order 0 (initial_sets cfg gen)"
    unfolding i reaching.complete_def by (simp add: sets)
qed

lemma solver_exact:
  assumes "distinct (block_ids cfg)" and "gen_kill_maps belongs cfg (collect_defs refs) = (gen, kill)"
    and "flow_rounds (fresh_predecessors cfg) gen kill order 100 0 (initial_sets cfg gen) = ((rin, rout), m)"
    and "card (set order) < 100 \<or> m < 100"
  shows "d \<in> get_set rout b \<longleftrightarrow> reaches_end belongs cfg (collect_defs refs) (set order) d b"
    and "d \<in> get_set rin b \<longleftrightarrow> reaches_start belongs cfg (collect_defs refs) (set order) d b"
proof -
  have "reaching.exact cfg gen kill order (rin, rout)"
    by (rule reaching.flow_rounds_exact [OF flow_inv_initial [OF assms(2)] assms(3)]) (use assms(4) in simp)
  then show "d \<in> get_set rout b \<longleftrightarrow> reaches_end belongs cfg (collect_defs refs) (set order) d b"
    "d \<in> get_set rin b \<longleftrightarrow> reaches_start belongs cfg (collect_defs refs) (set order) d b"
    unfolding reaching.exact_def reaches_start_def enters_def set_fresh_predecessors
      leaves_eq [OF assms(1) ascending_collect_defs assms(2)] by auto
qed

section \<open>The owner of a definition\<close>

definition block_size :: "cfg_block \<Rightarrow> nat" where
  "block_size b = (snd (blk_lines b) - fst (blk_lines b) + 1) mod 2 ^ 32"

definition not_better :: "cfg_block \<Rightarrow> cfg_block \<Rightarrow> bool" where
  "not_better b' b \<longleftrightarrow> block_size b' < block_size b \<or> (block_size b' = block_size b \<and> blk_id b' \<le> blk_id b)"

lemma better_block_apply:
  "better_block line b best =
     (if in_lines line b then
        (case best of
           None \<Rightarrow> Some (blk_id b, block_size b)
         | Some (i, sz) \<Rightarrow> if sz < block_size b \<or> (block_size b = sz \<and> i < blk_id b) then Some (blk_id b, block_size b) else best)
      else best)"
  unfolding better_block_def block_size_def [symmetric] Let_def ..

lemma best_block_fold:
  "case fold (better_block line) bs None of
     None \<Rightarrow> \<forall>b \<in> set bs. \<not> in_lines line b
   | Some (i, sz) \<Rightarrow> \<exists>b \<in> set bs. blk_id b = i \<and> block_size b = sz \<and> in_lines line b \<and>
       (\<forall>b' \<in> set bs. in_lines line b' \<longrightarrow> not_better b' b)"
proof (induction bs rule: rev_induct)
  case (snoc a bs)
  show ?case
  proof (cases "fold (better_block line) bs None")
    case None
    with snoc have "\<forall>b \<in> set bs. \<not> in_lines line b" by simp
    with None show ?thesis by (auto simp: better_block_apply [of line a None] not_better_def)
  next
    case (Some best)
    obtain i sz where best: "best = (i, sz)" by (cases best)
    with Some snoc obtain b where b: "b \<in> set bs" "blk_id b = i" "block_size b = sz" "in_lines line b"
      and max: "\<forall>b' \<in> set bs. in_lines line b' \<longrightarrow> not_better b' b" by auto
    show ?thesis
    proof (cases "in_lines line a \<and> \<not> not_better a b")
      case True
      then have step: "fold (better_block line) (bs @ [a]) None = Some (blk_id a, block_size a)"
        using Some best b by (auto simp: better_block_apply [of line a "Some (blk_id b, block_size b)"] not_better_def)
      have "not_better b' a" if "b' \<in> set bs" "in_lines line b'" for b'
        using max that True unfolding not_better_def by fastforce
      with step True show ?thesis by (auto simp: not_better_def)
    next
      case False
      then have step: "fold (better_block line) (bs @ [a]) None = Some (i, sz)"
        using Some best b by (auto simp: better_block_apply [of line a "Some (blk_id b, block_size b)"] not_better_def)
      have "\<exists>b \<in> set (bs @ [a]). blk_id b = i \<and> block_size b = sz \<and> in_lines line b \<and>
          (\<forall>b' \<in> set (bs @ [a]). in_lines line b' \<longrightarrow> not_better b' b)"
        by (rule bexI [of _ b]) (use False b max in auto)
      with step show ?thesis by simp
    qed
  qed
qed simp

lemma best_block_Some:
  assumes "best_block cfg line = Some i"
  shows "\<exists>b \<in> set (cfg_blocks cfg). blk_id b = i \<and> in_lines line b \<and>
    (\<forall>b' \<in> set (cfg_blocks cfg). in_lines line b' \<longrightarrow> not_better b' b)"
  using best_block_fold [where line = line and bs = "cfg_blocks cfg"] assms by (auto simp: best_block_def)

lemma best_block_None: "best_block cfg line = None \<longleftrightarrow> (\<forall>b \<in> set (cfg_blocks cfg). \<not> in_lines line b)"
  using best_block_fold [where line = line and bs = "cfg_blocks cfg"] by (auto simp: best_block_def split: option.splits)

lemma best_block_only:
  assumes "b \<in> set (cfg_blocks cfg)" and "in_lines line b"
    and "\<And>b'. b' \<in> set (cfg_blocks cfg) \<Longrightarrow> in_lines line b' \<Longrightarrow> b' = b"
  shows "best_block cfg line = Some (blk_id b)"
proof (cases "best_block cfg line")
  case None
  with assms(1,2) show ?thesis by (simp add: best_block_None)
next
  case (Some i)
  from best_block_Some [OF Some] obtain c where "c \<in> set (cfg_blocks cfg)" "blk_id c = i" "in_lines line c" by blast
  with assms(3) [of c] Some show ?thesis by simp
qed

text \<open>Every definition has an owner: the best block around it, or the first block.\<close>

lemma def_to_block_eq:
  assumes "(d, r) \<in> set (collect_defs refs)"
  shows "def_to_block cfg (collect_defs refs) d =
    Some (case best_block cfg (vr_line r) of Some b \<Rightarrow> b
      | None \<Rightarrow> (case cfg_blocks cfg of [] \<Rightarrow> 0 | b # bs \<Rightarrow> blk_id b))"
proof -
  let ?f = "\<lambda>r. case best_block cfg (vr_line r) of Some b \<Rightarrow> b
      | None \<Rightarrow> (case cfg_blocks cfg of [] \<Rightarrow> 0 | b # bs \<Rightarrow> blk_id b)"
  have step: "(\<lambda>(d, r) m. case best_block cfg (vr_line r) of
             Some b \<Rightarrow> m(d \<mapsto> b)
           | None \<Rightarrow> m(d \<mapsto> (case cfg_blocks cfg of [] \<Rightarrow> 0 | b # bs \<Rightarrow> blk_id b))) =
      (\<lambda>(d, r) m. m(d \<mapsto> ?f r))"
    by (auto simp: fun_eq_iff split: option.split)
  have "fold (\<lambda>(d, r) m. m(d \<mapsto> ?f r)) defs m d = Some (?f r)"
    if "\<forall>r'. (d, r') \<in> set defs \<longrightarrow> r' = r" and "(d, r) \<in> set defs \<or> m d = Some (?f r)"
    for defs and m :: "def_id \<rightharpoonup> block_id"
    using that
  proof (induction defs arbitrary: m)
    case (Cons x xs)
    obtain d1 r1 where x: "x = (d1, r1)" by (cases x)
    have "(d, r) \<in> set xs \<or> (m(d1 \<mapsto> ?f r1)) d = Some (?f r)" using Cons.prems x by auto
    with Cons.IH [of "m(d1 \<mapsto> ?f r1)"] Cons.prems(1) show ?case by (simp add: x del: fun_upd_apply)
  qed simp
  with assms ascending_fun [OF ascending_collect_defs] show ?thesis
    unfolding def_to_block_def step by blast
qed

text \<open>Where every definition lies in exactly one block, both analyses give it to that block.\<close>

lemma owned_by_lines:
  assumes "(d, r) \<in> set (collect_defs refs)" and "b \<in> set (cfg_blocks cfg)" and "distinct (block_ids cfg)"
    and "length (filter (in_lines (vr_line r)) (cfg_blocks cfg)) = 1"
  shows "owned_by (def_to_block cfg (collect_defs refs)) b d r \<longleftrightarrow> in_lines (vr_line r) b"
proof -
  from assms(4) obtain c where "filter (in_lines (vr_line r)) (cfg_blocks cfg) = [c]"
    by (auto simp: length_Suc_conv)
  then have "set (filter (in_lines (vr_line r)) (cfg_blocks cfg)) = {c}" by simp
  then have c_iff: "b' \<in> set (cfg_blocks cfg) \<and> in_lines (vr_line r) b' \<longleftrightarrow> b' = c" for b'
    unfolding set_filter set_eq_iff by blast
  then have c: "c \<in> set (cfg_blocks cfg)" "in_lines (vr_line r) c"
    and only: "\<And>b'. b' \<in> set (cfg_blocks cfg) \<Longrightarrow> in_lines (vr_line r) b' \<Longrightarrow> b' = c" by blast+
  have "def_to_block cfg (collect_defs refs) d = Some (blk_id c)"
    by (simp add: def_to_block_eq [OF assms(1)] best_block_only [OF c only])
  then have "owned_by (def_to_block cfg (collect_defs refs)) b d r \<longleftrightarrow> blk_id c = blk_id b"
    by (simp add: owned_by_def)
  also have "\<dots> \<longleftrightarrow> c = b" using assms(2,3) c(1) by (auto simp: distinct_map dest: inj_onD)
  also have "\<dots> \<longleftrightarrow> in_lines (vr_line r) b" using assms(2) c only by blast
  finally show ?thesis .
qed

text \<open>What reaches a block depends on the owners of the definitions only.\<close>

lemma reaches_cong:
  assumes "\<And>d r b. (d, r) \<in> set defs \<Longrightarrow> b \<in> set (cfg_blocks cfg) \<Longrightarrow> belongs b d r \<longleftrightarrow> belongs' b d r"
  shows "reaches_end belongs cfg defs = reaches_end belongs' cfg defs"
    and "reaches_start belongs cfg defs = reaches_start belongs' cfg defs"
proof -
  have later: "later_def (belongs b) defs d r \<longleftrightarrow> later_def (belongs' b) defs d r" if "b \<in> set (cfg_blocks cfg)" for b d r
    unfolding later_def_def using assms that by fastforce
  have "defines_var (belongs b) defs n \<longleftrightarrow> defines_var (belongs' b) defs n" if "b \<in> set (cfg_blocks cfg)" for b n
    unfolding defines_var_def using assms that by fastforce
  then have blocks: "defining_blocks belongs cfg defs = defining_blocks belongs' cfg defs"
    unfolding defining_blocks_def by (intro ext Collect_cong) blast
  show "reaches_end belongs cfg defs = reaches_end belongs' cfg defs"
    unfolding reaches_end_def fun_eq_iff blocks using assms later by blast
  then show "reaches_start belongs cfg defs = reaches_start belongs' cfg defs"
    unfolding reaches_start_def fun_eq_iff by simp
qed

section \<open>The reverse postorder\<close>

text \<open>
  The recursive search ends and visits the blocks in the order of the search with an explicit stack,
  whatever part of the visited blocks the stack has left out.
\<close>

lemma rpo_dfs_stack:
  assumes U: "finite U" "targets cfg \<subseteq> U"
  shows "card (U - V) \<le> N \<Longrightarrow> set ids \<subseteq> U \<Longrightarrow>
    \<exists>V' P'. rpo_dfs (fresh_successors cfg) ids V P = Some (V', P') \<and> V \<subseteq> V' \<and>
      (\<forall>W st. W \<subseteq> V \<longrightarrow>
         rpo_loop cfg V (map (\<lambda>s. (s, False)) (filter (\<lambda>s. s \<notin> W) ids) @ st) P = rpo_loop cfg V' st P')"
proof (induction N arbitrary: ids V P)
  case (0 ids V P)
  with U(1) have "set ids \<subseteq> V" by auto
  then show ?case
  proof (induction ids)
    case Nil
    then show ?case by (simp add: rpo_dfs.simps)
  next
    case (Cons b ids)
    then have b: "b \<in> V" and ids: "set ids \<subseteq> V" by auto
    from Cons.IH [OF ids] obtain V' P' where r: "rpo_dfs (fresh_successors cfg) ids V P = Some (V', P')" "V \<subseteq> V'"
      and st: "\<And>W st. W \<subseteq> V \<Longrightarrow>
        rpo_loop cfg V (map (\<lambda>s. (s, False)) (filter (\<lambda>s. s \<notin> W) ids) @ st) P = rpo_loop cfg V' st P'" by blast
    show ?case
      by (rule exI [of _ V'], rule exI [of _ P']) (use b r st in \<open>simp add: rpo_dfs.simps [of _ "b # ids"]\<close>)
  qed
next
  case (Suc N ids V P)
  note outer = Suc.IH
  from Suc.prems show ?case
  proof (induction ids arbitrary: V P)
    case Nil
    then show ?case by (simp add: rpo_dfs.simps)
  next
    case (Cons b ids)
    show ?case
    proof (cases "b \<in> V")
      case True
      from Cons.IH [of V P] Cons.prems obtain V' P'
        where r: "rpo_dfs (fresh_successors cfg) ids V P = Some (V', P')" "V \<subseteq> V'"
        and st: "\<And>W st. W \<subseteq> V \<Longrightarrow>
          rpo_loop cfg V (map (\<lambda>s. (s, False)) (filter (\<lambda>s. s \<notin> W) ids) @ st) P = rpo_loop cfg V' st P'" by auto
      show ?thesis
        by (rule exI [of _ V'], rule exI [of _ P']) (use True r st in \<open>simp add: rpo_dfs.simps [of _ "b # ids"]\<close>)
    next
      case False
      have "U - insert b V \<subset> U - V" using False Cons.prems(2) by auto
      then have "card (U - insert b V) < card (U - V)" by (rule psubset_card_mono [rotated]) (use U(1) in simp)
      then have card: "card (U - insert b V) \<le> N" using Cons.prems(1) by simp
      have succs: "set (succs_of cfg b) \<subseteq> U" using U(2) by (auto simp: targets_def succs_of_eq)
      from outer [OF card succs, of P] obtain V1 P1
        where r1: "rpo_dfs (fresh_successors cfg) (succs_of cfg b) (insert b V) P = Some (V1, P1)" "insert b V \<subseteq> V1"
        and st1: "\<And>W st. W \<subseteq> insert b V \<Longrightarrow> rpo_loop cfg (insert b V)
          (map (\<lambda>s. (s, False)) (filter (\<lambda>s. s \<notin> W) (succs_of cfg b)) @ st) P = rpo_loop cfg V1 st P1" by blast
      have "card (U - V1) \<le> card (U - V)" by (rule card_mono) (use U(1) r1(2) in auto)
      then have card1: "card (U - V1) \<le> Suc N" using Cons.prems(1) by simp
      from Cons.IH [OF card1, of "P1 @ [b]"] Cons.prems(2) obtain V' P'
        where r: "rpo_dfs (fresh_successors cfg) ids V1 (P1 @ [b]) = Some (V', P')" "V1 \<subseteq> V'"
        and st: "\<And>W st. W \<subseteq> V1 \<Longrightarrow> rpo_loop cfg V1
          (map (\<lambda>s. (s, False)) (filter (\<lambda>s. s \<notin> W) ids) @ st) (P1 @ [b]) = rpo_loop cfg V' st P'" by auto
      have "rpo_dfs (fresh_successors cfg) (b # ids) V P = Some (V', P')"
        using False r(1) r1(1) by (simp add: rpo_dfs.simps [of _ "b # ids"] get_list_fresh)
      moreover have "rpo_loop cfg V (map (\<lambda>s. (s, False)) (filter (\<lambda>s. s \<notin> W) (b # ids)) @ st) P =
          rpo_loop cfg V' st P'" if W: "W \<subseteq> V" for W st
      proof -
        have "rpo_loop cfg V (map (\<lambda>s. (s, False)) (filter (\<lambda>s. s \<notin> W) (b # ids)) @ st) P =
            rpo_loop cfg (insert b V) (map (\<lambda>s. (s, False)) (filter (\<lambda>s. s \<notin> insert b V) (succs_of cfg b)) @
              (b, True) # map (\<lambda>s. (s, False)) (filter (\<lambda>s. s \<notin> W) ids) @ st) P"
          using False W by (auto simp: Let_def push_filter simp del: insert_iff)
        also have "\<dots> = rpo_loop cfg V1 (map (\<lambda>s. (s, False)) (filter (\<lambda>s. s \<notin> W) ids) @ st) (P1 @ [b])"
          by (subst st1) simp_all
        also have "\<dots> = rpo_loop cfg V' st P'" by (rule st) (use W r1(2) in auto)
        finally show ?thesis .
      qed
      moreover have "V \<subseteq> V'" using r(2) r1(2) by auto
      ultimately show ?thesis by blast
    qed
  qed
qed

lemma compute_rpo_eq:
  assumes "cfg_blocks cfg \<noteq> []"
  shows "compute_rpo cfg = Some (reverse_postorder cfg)"
proof -
  let ?U = "insert (entry_block cfg) (targets cfg)"
  from rpo_dfs_stack [of ?U cfg "{}" "card ?U" "[entry_block cfg]" "[]"] obtain V P
    where r: "rpo_dfs (fresh_successors cfg) [entry_block cfg] {} [] = Some (V, P)"
    and st: "\<And>W st. W \<subseteq> {} \<Longrightarrow> rpo_loop cfg {} (map (\<lambda>s. (s, False))
      (filter (\<lambda>s. s \<notin> W) [entry_block cfg]) @ st) [] = rpo_loop cfg V st P" by (auto simp: subset_insertI)
  from st [of "{}" "[]"] have "rpo_loop cfg {} [(entry_block cfg, False)] [] = P" by simp
  with assms r show ?thesis by (simp add: compute_rpo_def reverse_postorder_def)
qed

end
