(* ===== verification/Reaching_Bits.thy ===== *)
theory Reaching_Bits
  imports Reaching_Correct
begin

text \<open>
  The bit-vector solver of \<open>dfg/reaching.rs\<close> implements the solver on sets: the bit vectors are a
  representation of the sets of definitions, and every step of one solver is a step of the other.
\<close>

section \<open>The dense mapping\<close>

definition all_defs :: "var_ref list \<Rightarrow> def_id list" where
  "all_defs refs = map fst (collect_defs refs)"

lemma distinct_all_defs: "distinct (all_defs refs)"
proof -
  have "sorted_wrt (\<lambda>d d'. ref_index d < ref_index d') (all_defs refs)"
    unfolding all_defs_def sorted_wrt_map by (rule ascending_collect_defs)
  moreover have "sorted_wrt (\<lambda>d d'. ref_index d < ref_index d') ds \<Longrightarrow> distinct ds" for ds
    by (induction ds) auto
  ultimately show ?thesis by blast
qed

lemma set_all_defs: "d \<in> set (all_defs refs) \<longleftrightarrow> (\<exists>r. (d, r) \<in> set (collect_defs refs))"
  by (force simp: all_defs_def)

text \<open>The position of every element of a list.\<close>

definition positions :: "'a list \<Rightarrow> ('a \<rightharpoonup> nat)" where
  "positions ds = map_of (zip ds [0..<length ds])"

lemma positions_None: "positions ds d = None \<longleftrightarrow> d \<notin> set ds"
  by (simp add: positions_def map_of_zip_is_None)

lemma positions_nth: "distinct ds \<Longrightarrow> i < length ds \<Longrightarrow> positions ds (ds ! i) = Some i"
  by (simp add: positions_def map_of_zip_nth)

lemma positions_snoc: "d \<notin> set ds \<Longrightarrow> positions (ds @ [d]) = (positions ds)(d \<mapsto> length ds)"
  by (simp add: positions_def map_of_append fun_eq_iff map_add_def split: option.split)
    (metis map_of_zip_is_None length_map length_upt map_nth minus_nat.diff_0 option.distinct(1))

lemma dense_mapping_eq:
  "create_dense_def_mapping refs =
     \<lparr>def_to_bit = positions (all_defs refs), bit_to_def = all_defs refs, num_defs = length (all_defs refs)\<rparr>"
proof -
  let ?step = "\<lambda>(index, r) (d2b, b2d).
    (let d = \<lparr>ref_index = index, def_line = vr_line r\<rparr>
     in if is_def r \<and> d2b d = None then (d2b(d \<mapsto> length b2d), b2d @ [d]) else (d2b, b2d))"
  let ?D = "\<lambda>refs. all_defs refs"
  have "fold ?step (enumerate 0 refs) (Map.empty, []) = (positions (?D refs), ?D refs)"
  proof (induction refs rule: rev_induct)
    case Nil
    then show ?case by (simp add: all_defs_def collect_defs_def positions_def)
  next
    case (snoc r refs)
    let ?d = "\<lparr>ref_index = length refs, def_line = vr_line r\<rparr>"
    have enum: "enumerate 0 (refs @ [r]) = enumerate 0 refs @ [(length refs, r)]"
      by (simp add: enumerate_append_eq)
    have new: "?d \<notin> set (?D refs)" by (auto simp: all_defs_def dest!: set_collect_defs [THEN iffD1])
    have D: "?D (refs @ [r]) = ?D refs @ (if is_def r then [?d] else [])"
      by (simp add: all_defs_def collect_defs_def enum)
    show ?case unfolding enum fold_append o_apply snoc
      using new by (simp add: D positions_snoc Let_def positions_None fun_eq_iff)
  qed
  then show ?thesis by (simp add: create_dense_def_mapping_def Let_def)
qed

section \<open>Sets as bit vectors\<close>

definition bits_of :: "def_id list \<Rightarrow> def_id set \<Rightarrow> bits" where
  "bits_of ds S = map (\<lambda>d. d \<in> S) ds"

lemma length_bits_of [simp]: "length (bits_of ds S) = length ds"
  by (simp add: bits_of_def)

lemma bits_of_empty: "replicate (length ds) False = bits_of ds {}"
  by (simp add: bits_of_def map_replicate_const)

lemma bits_of_or: "map2 (\<or>) (bits_of ds S) (bits_of ds T) = bits_of ds (S \<union> T)"
  by (simp add: bits_of_def map2_map_map)

lemma bits_of_and_not: "map2 (\<and>) (bits_of ds S) (map Not (bits_of ds T)) = bits_of ds (S - T)"
  by (simp add: bits_of_def map2_map_map comp_def)

lemma bits_of_insert:
  "distinct ds \<Longrightarrow> i < length ds \<Longrightarrow> (bits_of ds S)[i := True] = bits_of ds (insert (ds ! i) S)"
  by (rule nth_equalityI) (auto simp: bits_of_def nth_list_update nth_eq_iff_index_eq)

lemma bits_of_inject: "S \<subseteq> set ds \<Longrightarrow> T \<subseteq> set ds \<Longrightarrow> bits_of ds S = bits_of ds T \<longleftrightarrow> S = T"
  by (auto simp: bits_of_def map_eq_conv)

lemma bits_to_defs_of:
  assumes "S \<subseteq> set (bit_to_def mapping)"
  shows "bits_to_defs mapping (bits_of (bit_to_def mapping) S) = S"
proof -
  have "bits_to_defs mapping (bits_of (bit_to_def mapping) S) =
      {bit_to_def mapping ! i | i. i < length (bit_to_def mapping) \<and> bit_to_def mapping ! i \<in> S}"
    by (auto simp: bits_to_defs_def bits_of_def in_set_enumerate_eq image_iff)
  also have "\<dots> = S" using assms by (auto simp: in_set_conv_nth subset_iff)
  finally show ?thesis .
qed

section \<open>The bits of a block\<close>

definition bit_index :: "def_id list \<Rightarrow> def_id \<Rightarrow> nat" where
  "bit_index ds d = the (positions ds d)"

lemma bit_index:
  assumes "distinct ds" and "d \<in> set ds"
  shows "bit_index ds d < length ds" and "ds ! bit_index ds d = d"
  using assms by (auto simp: bit_index_def in_set_conv_nth positions_nth)

lemma bits_of_add:
  "distinct ds \<Longrightarrow> d \<in> set ds \<Longrightarrow> (bits_of ds S)[bit_index ds d := True] = bits_of ds (insert d S)"
  by (simp add: bits_of_insert bit_index)

definition bit_map :: "def_id list \<Rightarrow> (string \<rightharpoonup> def_id) \<Rightarrow> (string \<rightharpoonup> nat)" where
  "bit_map ds m = (\<lambda>n. map_option (bit_index ds) (m n))"

lemma bit_map_simps [simp]:
  "bit_map ds Map.empty = Map.empty" "bit_map ds (m(n \<mapsto> d)) = (bit_map ds m)(n \<mapsto> bit_index ds d)"
  by (simp_all add: bit_map_def fun_eq_iff)

lemma bit_map_app: "bit_map ds m n = map_option (bit_index ds) (m n)"
  by (simp add: bit_map_def)

lemma last_bit_fold:
  assumes "distinct ds" and "fst ` set xs \<subseteq> set ds" and "ran ld \<subseteq> set ds"
    and "fold (last_def_step (\<lambda>d r. belongs r)) xs (ld, K) = (ld', K')"
  shows "fold (last_bit_step belongs) (map (\<lambda>(d, r). (r, bit_index ds d)) xs)
      (bit_map ds ld, bits_of ds K) = (bit_map ds ld', bits_of ds K') \<and>
    ran ld' \<subseteq> set ds"
  using assms(2-)
proof (induction xs arbitrary: ld K)
  case (Cons x xs)
  obtain d r where x: "x = (d, r)" by (cases x)
  have d: "d \<in> set ds" and xs: "fst ` set xs \<subseteq> set ds" using Cons.prems(1) by (auto simp: x)
  show ?case
  proof (cases "belongs r")
    case True
    let ?K = "case ld (vr_name r) of Some prev \<Rightarrow> insert prev K | None \<Rightarrow> K"
    have ran: "ran (ld(vr_name r \<mapsto> d)) \<subseteq> set ds"
      using Cons.prems(2) d by (auto simp: ran_def split: if_splits)
    have rest: "fold (last_def_step (\<lambda>d r. belongs r)) xs (ld(vr_name r \<mapsto> d), ?K) = (ld', K')"
      using Cons.prems(3) True by (simp add: x last_def_step_def)
    have "last_bit_step belongs (r, bit_index ds d) (bit_map ds ld, bits_of ds K) =
        (bit_map ds (ld(vr_name r \<mapsto> d)), bits_of ds ?K)"
      using True Cons.prems(2) assms(1)
      by (auto simp: last_bit_step_def bits_of_add bit_map_app ranI subset_iff split: option.split)
    with Cons.IH [OF xs ran rest] show ?thesis by (simp add: x del: fun_upd_apply)
  next
    case False
    with Cons show ?thesis by (simp add: x xs last_def_step_def last_bit_step_def)
  qed
qed simp

lemma fold_set_bits:
  "distinct ds \<Longrightarrow> set vs \<subseteq> set ds \<Longrightarrow>
     fold (\<lambda>i gen. gen[i := True]) (map (bit_index ds) vs) (bits_of ds S) = bits_of ds (S \<union> set vs)"
  by (induction vs arbitrary: S) (simp_all add: bits_of_add)

lemma fold_kill_bits:
  "distinct ds \<Longrightarrow> fst ` set xs \<subseteq> set ds \<Longrightarrow>
     fold (\<lambda>(r, i) kill. if P r then kill[i := True] else kill) (map (\<lambda>(d, r). (r, bit_index ds d)) xs) (bits_of ds K) =
     bits_of ds (fold (\<lambda>(d, r) kill. if P r then insert d kill else kill) xs K)"
  by (induction xs arbitrary: K) (auto simp: bits_of_add)

lemma block_gen_kill_bits_eq:
  assumes "distinct ds" and "fst ` set xs \<subseteq> set ds" and "block_gen_kill (\<lambda>d r. belongs r) xs = (gen, kill)"
  shows "block_gen_kill_bits (length ds) belongs (map (\<lambda>(d, r). (r, bit_index ds d)) xs) =
    (bits_of ds gen, bits_of ds kill)"
proof -
  obtain ld K where s: "fold (last_def_step (\<lambda>d r. belongs r)) xs (Map.empty, {}) = (ld, K)" by fastforce
  from last_bit_fold [OF assms(1,2) _ s]
  have last: "fold (last_bit_step belongs) (map (\<lambda>(d, r). (r, bit_index ds d)) xs) (Map.empty, bits_of ds {}) =
      (bit_map ds ld, bits_of ds K)" and ran: "ran ld \<subseteq> set ds"
    by auto
  have names: "vr_name \<circ> fst \<circ> (\<lambda>(d, r). (r, bit_index ds d)) = vr_name \<circ> snd"
    by (simp add: fun_eq_iff)
  have vals: "map_values ks (bit_map ds ld) = map (bit_index ds) (map_values ks ld)" for ks
    by (auto simp: map_values_def bit_map_app)
  have "set (map_values ks ld) \<subseteq> set ds" for ks
    using ran by (auto simp: map_values_def ran_def)
  then show ?thesis
    using assms(3)
    by (auto simp: block_gen_kill_bits_def block_gen_kill_def s bits_of_empty last names vals bit_map_app Let_def
        fold_set_bits [OF assms(1)] fold_kill_bits [OF assms(1,2)])
qed

section \<open>The rounds\<close>

text \<open>The representation of the IN and OUT maps, and the maps it is faithful for.\<close>

definition bit_sets_of :: "def_id list \<Rightarrow> def_id flow_sets \<Rightarrow> bit_sets" where
  "bit_sets_of ds m = (\<lambda>b. map_option (bits_of ds) (m b))"

definition within_defs :: "def_id list \<Rightarrow> def_id flow_sets \<Rightarrow> bool" where
  "within_defs ds m \<longleftrightarrow> (\<forall>b. get_set m b \<subseteq> set ds)"

lemma bit_sets_of_upd: "bit_sets_of ds (m(b \<mapsto> S)) = (bit_sets_of ds m)(b \<mapsto> bits_of ds S)"
  by (simp add: bit_sets_of_def fun_eq_iff)

lemma bit_sets_of_None: "bit_sets_of ds m b = None \<longleftrightarrow> m b = None"
  by (simp add: bit_sets_of_def)

lemma bit_sets_of_Some: "m b \<noteq> None \<Longrightarrow> bit_sets_of ds m b = Some (bits_of ds (get_set m b))"
  by (auto simp: bit_sets_of_def get_set_def)

lemma get_bits_of: "get_bits (length ds) (bit_sets_of ds m) b = bits_of ds (get_set m b)"
  by (auto simp: get_bits_def bit_sets_of_def get_set_def bits_of_empty split: option.split)

lemma bit_sets_of_block_map: "bit_sets_of ds (block_map f bs) = block_map (\<lambda>b. bits_of ds (f b)) bs"
  by (simp add: bit_sets_of_def map_option_block_map fun_eq_iff)

lemma fold_pred_bits:
  "fold (\<lambda>p new_in. case bit_sets_of ds m p of Some pred_out \<Rightarrow> map2 (\<or>) new_in pred_out | None \<Rightarrow> new_in)
     ps (bits_of ds S) = bits_of ds (S \<union> (\<Union>p \<in> set ps. get_set m p))"
proof (induction ps arbitrary: S)
  case (Cons p ps)
  have "(case bit_sets_of ds m p of Some pred_out \<Rightarrow> map2 (\<or>) (bits_of ds S) pred_out | None \<Rightarrow> bits_of ds S) =
      bits_of ds (S \<union> get_set m p)"
    by (simp add: bit_sets_of_def get_set_def bits_of_or split: option.split)
  with Cons show ?case by (simp add: Un_assoc)
qed simp

lemma update_block_bits_None:
  "rin b = None \<or> rout b = None \<Longrightarrow>
     update_block_bits n preds gen kill b (bit_sets_of ds rin, bit_sets_of ds rout, ch) = None"
  by (auto simp: update_block_bits_def Let_def bit_sets_of_def split: option.split)

lemma update_block_bits_eq:
  assumes rin: "within_defs ds rin" and rout: "within_defs ds rout" and gen: "within_defs ds gen"
    and b: "rin b \<noteq> None" "rout b \<noteq> None"
    and u: "update_block preds gen kill b (rin, rout, ch) = (rin', rout', ch')"
  shows "update_block_bits (length ds) preds (bit_sets_of ds gen) (bit_sets_of ds kill) b
      (bit_sets_of ds rin, bit_sets_of ds rout, ch) = Some (bit_sets_of ds rin', bit_sets_of ds rout', ch')"
    and "within_defs ds rin'" and "within_defs ds rout'" and "dom rin' = dom rin" and "dom rout' = dom rout"
proof -
  let ?N = "\<Union>p \<in> set (get_list preds b). get_set rout p"
  let ?Q = "get_set gen b \<union> (?N - get_set kill b)"
  have u': "rin' = (if ?N \<noteq> get_set rin b then rin(b \<mapsto> ?N) else rin)"
    "rout' = (if ?Q \<noteq> get_set rout b then rout(b \<mapsto> ?Q) else rout)"
    "ch' \<longleftrightarrow> ch \<or> ?N \<noteq> get_set rin b \<or> ?Q \<noteq> get_set rout b"
    using u by (simp_all add: update_block_def Let_def split: if_splits)
  have N: "?N \<subseteq> set ds" using rout by (auto simp: within_defs_def)
  have Q: "?Q \<subseteq> set ds" using N gen by (auto simp: within_defs_def)
  have same: "bits_of ds ?N = bits_of ds (get_set rin b) \<longleftrightarrow> ?N = get_set rin b"
    "bits_of ds ?Q = bits_of ds (get_set rout b) \<longleftrightarrow> ?Q = get_set rout b"
    using rin rout N Q by (simp_all add: bits_of_inject within_defs_def)
  have new: "fold (\<lambda>p new_in. case bit_sets_of ds rout p of Some pred_out \<Rightarrow> map2 (\<or>) new_in pred_out | None \<Rightarrow> new_in)
      (get_list preds b) (replicate (length ds) False) = bits_of ds ?N"
    unfolding bits_of_empty fold_pred_bits by simp
  have out: "map2 (\<or>) (bits_of ds (get_set gen b)) (map2 (\<and>) (bits_of ds ?N) (map Not (bits_of ds (get_set kill b)))) =
      bits_of ds ?Q"
    unfolding bits_of_and_not bits_of_or ..
  show "update_block_bits (length ds) preds (bit_sets_of ds gen) (bit_sets_of ds kill) b
      (bit_sets_of ds rin, bit_sets_of ds rout, ch) = Some (bit_sets_of ds rin', bit_sets_of ds rout', ch')"
    unfolding update_block_bits_def prod.case new get_bits_of Let_def out bit_sets_of_Some [where m = rin and b = b, OF b(1)]
      bit_sets_of_Some [where m = rout and b = b, OF b(2)] option.case same u'
    by (simp add: bit_sets_of_upd)
  show "within_defs ds rin'" "within_defs ds rout'"
    unfolding u'(1,2) using rin rout N Q by (simp_all add: within_defs_def)
  show "dom rin' = dom rin" "dom rout' = dom rout"
    unfolding u'(1,2) using b by (auto simp: dom_def)
qed

lemma round_bits:
  assumes "within_defs ds gen" and "within_defs ds rin" and "within_defs ds rout"
    and "set bs \<subseteq> dom rin" and "set bs \<subseteq> dom rout"
    and "fold (update_block preds gen kill) bs (rin, rout, ch) = (rin', rout', ch')"
  shows "fold_opt (update_block_bits (length ds) preds (bit_sets_of ds gen) (bit_sets_of ds kill)) bs
      (bit_sets_of ds rin, bit_sets_of ds rout, ch) = Some (bit_sets_of ds rin', bit_sets_of ds rout', ch') \<and>
    within_defs ds rin' \<and> within_defs ds rout' \<and> dom rin' = dom rin \<and> dom rout' = dom rout"
  using assms(2-)
proof (induction bs arbitrary: rin rout ch)
  case (Cons b bs)
  obtain rin1 rout1 ch1 where u: "update_block preds gen kill b (rin, rout, ch) = (rin1, rout1, ch1)"
    by (cases "update_block preds gen kill b (rin, rout, ch)")
  have b: "rin b \<noteq> None" "rout b \<noteq> None" using Cons.prems(3,4) by auto
  note one = update_block_bits_eq [OF Cons.prems(1,2) assms(1) b u]
  have rest: "fold (update_block preds gen kill) bs (rin1, rout1, ch1) = (rin', rout', ch')"
    using Cons.prems(5) u by simp
  have "set bs \<subseteq> dom rin1" "set bs \<subseteq> dom rout1" using Cons.prems(3,4) one(4,5) by auto
  from Cons.IH [OF one(2,3) this rest] one(1,4,5) show ?case by simp
qed simp

lemma bit_rounds_eq:
  assumes "within_defs ds gen" and "within_defs ds rin" and "within_defs ds rout"
    and "set order \<subseteq> dom rin" and "set order \<subseteq> dom rout"
    and "flow_rounds preds gen kill order fuel n (rin, rout) = ((rin', rout'), m)"
  shows "bit_rounds (length ds) preds (bit_sets_of ds gen) (bit_sets_of ds kill) order fuel n
      (bit_sets_of ds rin, bit_sets_of ds rout) = Some ((bit_sets_of ds rin', bit_sets_of ds rout'), m) \<and>
    within_defs ds rin' \<and> within_defs ds rout'"
  using assms(2-)
proof (induction fuel arbitrary: n rin rout)
  case (Suc fuel)
  obtain rin1 rout1 ch where r: "fold (update_block preds gen kill) order (rin, rout, False) = (rin1, rout1, ch)"
    by (cases "fold (update_block preds gen kill) order (rin, rout, False)")
  from round_bits [OF assms(1) Suc.prems(1-4) r]
  have one: "fold_opt (update_block_bits (length ds) preds (bit_sets_of ds gen) (bit_sets_of ds kill)) order
      (bit_sets_of ds rin, bit_sets_of ds rout, False) = Some (bit_sets_of ds rin1, bit_sets_of ds rout1, ch)"
    "within_defs ds rin1" "within_defs ds rout1" "set order \<subseteq> dom rin1" "set order \<subseteq> dom rout1"
    using Suc.prems(3,4) by auto
  show ?case
  proof (cases ch)
    case True
    then have "flow_rounds preds gen kill order fuel (n + 1) (rin1, rout1) = ((rin', rout'), m)"
      using Suc.prems(5) r by simp
    from Suc.IH [OF one(2-5) this] True one(1) show ?thesis by simp
  next
    case False
    with Suc.prems(5) r one show ?thesis by simp
  qed
qed simp

text \<open>A block that is not in the maps makes the first round panic.\<close>

lemma bit_rounds_panic:
  assumes "within_defs ds gen" and "within_defs ds rin" and "within_defs ds rout"
    and "dom rout = dom rin" and "\<not> set order \<subseteq> dom rin" and "0 < fuel"
  shows "bit_rounds (length ds) preds (bit_sets_of ds gen) (bit_sets_of ds kill) order fuel n
    (bit_sets_of ds rin, bit_sets_of ds rout) = None"
proof -
  from assms(5) obtain c where c: "c \<in> set order" "c \<notin> dom rin" by blast
  let ?first = "\<lambda>x. x \<notin> dom rin"
  from c obtain bs b bs' where order: "order = bs @ b # bs'" "b \<notin> dom rin" "\<forall>x \<in> set bs. x \<in> dom rin"
    using split_list_first_prop [of order ?first] by blast
  obtain rin1 rout1 ch where r: "fold (update_block preds gen kill) bs (rin, rout, False) = (rin1, rout1, ch)"
    by (cases "fold (update_block preds gen kill) bs (rin, rout, False)")
  have bs: "set bs \<subseteq> dom rin" "set bs \<subseteq> dom rout" using order(3) assms(4) by auto
  note prefix = round_bits [OF assms(1-3) bs r]
  then have "rin1 b = None" using order(2) by auto
  then have "update_block_bits (length ds) preds (bit_sets_of ds gen) (bit_sets_of ds kill) b
      (bit_sets_of ds rin1, bit_sets_of ds rout1, ch) = None"
    by (simp add: update_block_bits_None)
  moreover have "fold_opt f (xs @ ys) s = (case fold_opt f xs s of None \<Rightarrow> None | Some s \<Rightarrow> fold_opt f ys s)"
    for f :: "block_id \<Rightarrow> bit_sets \<times> bit_sets \<times> bool \<Rightarrow> _" and xs ys s
    by (induction xs arbitrary: s) (auto split: option.split)
  ultimately have "fold_opt (update_block_bits (length ds) preds (bit_sets_of ds gen) (bit_sets_of ds kill)) order
      (bit_sets_of ds rin, bit_sets_of ds rout, False) = None"
    using prefix by (simp add: order(1))
  with assms(6) show ?thesis by (cases fuel) simp_all
qed

section \<open>The two solvers agree\<close>

abbreviation by_lines :: "cfg_block \<Rightarrow> def_id \<Rightarrow> var_ref \<Rightarrow> bool" where
  "by_lines b d r \<equiv> in_lines (vr_line r) b"

lemma gen_kill_bit_maps_eq:
  assumes "gen_kill_maps by_lines cfg (collect_defs refs) = (gen, kill)"
  defines "ds \<equiv> all_defs refs"
  shows "gen_kill_bit_maps (length ds) cfg (map (\<lambda>(d, r). (r, bit_index ds d)) (collect_defs refs)) =
      (bit_sets_of ds gen, bit_sets_of ds kill)"
    and "within_defs ds gen"
proof -
  have sub: "fst ` set (collect_defs refs) \<subseteq> set ds" by (simp add: ds_def all_defs_def)
  have d: "distinct ds" unfolding ds_def by (rule distinct_all_defs)
  have block: "block_gen_kill_bits (length ds) (\<lambda>r. in_lines (vr_line r) b)
      (map (\<lambda>(d, r). (r, bit_index ds d)) (collect_defs refs)) =
      (bits_of ds (fst (block_gen_kill (by_lines b) (collect_defs refs))),
       bits_of ds (snd (block_gen_kill (by_lines b) (collect_defs refs))))" for b
    by (rule block_gen_kill_bits_eq [OF d sub]) simp
  show "gen_kill_bit_maps (length ds) cfg (map (\<lambda>(d, r). (r, bit_index ds d)) (collect_defs refs)) =
      (bit_sets_of ds gen, bit_sets_of ds kill)"
    using assms(1) unfolding gen_kill_bit_maps_def block gen_kill_maps_eq prod.inject Let_def prod.case fold_two_maps
    by (auto simp: bit_sets_of_block_map)
  have "get_set (block_map (\<lambda>b. fst (block_gen_kill (by_lines b) (collect_defs refs))) bs) c \<subseteq> set ds" for bs c
  proof (induction bs rule: rev_induct)
    case (snoc b bs)
    obtain g k where gk: "block_gen_kill (by_lines b) (collect_defs refs) = (g, k)"
      by (cases "block_gen_kill (by_lines b) (collect_defs refs)")
    have "g \<subseteq> set ds"
      using block_gen_kill_eq(1) [OF ascending_collect_defs gk] by (auto simp: ds_def set_all_defs)
    with snoc gk show ?case by (simp del: fun_upd_apply)
  qed simp
  then show "within_defs ds gen" using assms(1) by (auto simp: within_defs_def gen_kill_maps_eq)
qed

lemma initial_bits_eq:
  assumes "initial_sets cfg gen = (rin, rout)" and gen: "within_defs ds gen"
  shows "initial_bits (length ds) cfg (bit_sets_of ds gen) = (bit_sets_of ds rin, bit_sets_of ds rout)"
    and "within_defs ds rin" and "within_defs ds rout"
    and "dom rin = set (block_ids cfg)" and "dom rout = set (block_ids cfg)"
proof -
  have r: "rin = block_map (\<lambda>b. {}) (cfg_blocks cfg)"
    "rout = block_map (\<lambda>b. get_set gen (blk_id b)) (cfg_blocks cfg)"
    using assms(1) by (simp_all add: initial_sets_eq)
  show "initial_bits (length ds) cfg (bit_sets_of ds gen) = (bit_sets_of ds rin, bit_sets_of ds rout)"
    unfolding initial_bits_def get_bits_of bits_of_empty fold_two_maps bit_sets_of_block_map r ..
  show "within_defs ds rin" "within_defs ds rout"
    using gen unfolding within_defs_def r
    by (auto simp: get_set_def block_map_id [of "\<lambda>_. {}"] block_map_id [of "\<lambda>c. get_set gen c", unfolded get_set_def]
        split: if_splits)
  show "dom rin = set (block_ids cfg)" "dom rout = set (block_ids cfg)"
    unfolding r by (auto simp: dom_def block_map_None [unfolded not_Some_eq [symmetric], simplified])
qed

lemma bitvec_unfold:
  assumes "cfg_blocks cfg \<noteq> []" and "all_defs refs \<noteq> []"
    and "gen_kill_maps by_lines cfg (collect_defs refs) = (gen, kill)"
    and "initial_sets cfg gen = (rin, rout)"
  defines "ds \<equiv> all_defs refs"
  shows "compute_reaching_definitions_bitvec cfg refs =
    (case bit_rounds (length ds) (fresh_predecessors cfg) (bit_sets_of ds gen) (bit_sets_of ds kill)
        (reverse_postorder cfg) 100 0 (bit_sets_of ds rin, bit_sets_of ds rout) of
       None \<Rightarrow> None
     | Some ((ins, outs), iterations) \<Rightarrow>
         Some \<lparr>bv_mapping = create_dense_def_mapping refs, bv_in_sets = ins, bv_out_sets = outs,
           bv_iterations = iterations\<rparr>)"
proof -
  have n: "length ds \<noteq> 0" using assms(2) by (simp add: ds_def)
  note maps = gen_kill_bit_maps_eq [OF assms(3), folded ds_def]
  note init = initial_bits_eq(1) [OF assms(4) maps(2)]
  show ?thesis
    using assms(1) n unfolding dense_mapping_eq [of refs, folded ds_def]
    by (simp add: compute_reaching_definitions_bitvec_def Let_def dense_mapping_eq [of refs, folded ds_def]
        bit_index_def [symmetric] maps(1) init compute_rpo_eq)
qed

lemma rpo_unfold:
  assumes "cfg_blocks cfg \<noteq> []"
    and "gen_kill_maps by_lines cfg (collect_defs refs) = (gen, kill)"
    and "flow_rounds (fresh_predecessors cfg) gen kill (reverse_postorder cfg) 100 0 (initial_sets cfg gen) =
      ((rin', rout'), m)"
  shows "compute_reaching_definitions_rpo cfg refs =
    Some \<lparr>rws_reaching = \<lparr>reaching_in = rin', reaching_out = rout'\<rparr>, rws_iterations = m\<rparr>"
  using assms by (simp add: compute_reaching_definitions_rpo_def Let_def compute_rpo_eq)

lemma bitvec_rpo:
  assumes "cfg_blocks cfg \<noteq> []" and "all_defs refs \<noteq> []" and "set (reverse_postorder cfg) \<subseteq> set (block_ids cfg)"
  shows "\<exists>r s. compute_reaching_definitions_bitvec cfg refs = Some r \<and>
    compute_reaching_definitions_rpo cfg refs = Some s \<and>
    to_standard r = rws_reaching s \<and> bv_iterations r = rws_iterations s"
proof -
  let ?ds = "all_defs refs"
  obtain gen kill where m: "gen_kill_maps by_lines cfg (collect_defs refs) = (gen, kill)" by fastforce
  obtain rin rout where i: "initial_sets cfg gen = (rin, rout)" by fastforce
  obtain rin' rout' k where r: "flow_rounds (fresh_predecessors cfg) gen kill (reverse_postorder cfg) 100 0 (rin, rout) =
      ((rin', rout'), k)" by (metis surj_pair)
  note gen = gen_kill_bit_maps_eq(2) [OF m]
  note init = initial_bits_eq [OF i gen]
  have doms: "set (reverse_postorder cfg) \<subseteq> dom rin" "set (reverse_postorder cfg) \<subseteq> dom rout"
    unfolding init using assms(3) by simp_all
  note rounds = bit_rounds_eq [OF gen init(2,3) doms r]
  let ?m = "create_dense_def_mapping refs"
  have decode: "(\<lambda>b. map_option (bits_to_defs ?m) (bit_sets_of ?ds m b)) = m" if "within_defs ?ds m" for m
  proof
    fix b
    have "bits_to_defs ?m (bits_of ?ds (get_set m b)) = get_set m b"
      using that bits_to_defs_of [of "get_set m b" ?m] by (simp add: dense_mapping_eq within_defs_def)
    then show "map_option (bits_to_defs ?m) (bit_sets_of ?ds m b) = m b"
      by (cases "m b") (simp_all add: bit_sets_of_def get_set_def)
  qed
  show ?thesis
    using rounds decode
    by (simp add: bitvec_unfold [OF assms(1,2) m i] rpo_unfold [OF assms(1) m r [folded i]] to_standard_def)
qed

lemma bitvec_panic:
  assumes "cfg_blocks cfg \<noteq> []" and "all_defs refs \<noteq> []" and "\<not> set (reverse_postorder cfg) \<subseteq> set (block_ids cfg)"
  shows "compute_reaching_definitions_bitvec cfg refs = None"
proof -
  obtain gen kill where m: "gen_kill_maps by_lines cfg (collect_defs refs) = (gen, kill)" by fastforce
  obtain rin rout where i: "initial_sets cfg gen = (rin, rout)" by fastforce
  note gen = gen_kill_bit_maps_eq(2) [OF m]
  note init = initial_bits_eq [OF i gen]
  have "dom rout = dom rin" "\<not> set (reverse_postorder cfg) \<subseteq> dom rin" using assms(3) by (simp_all add: init(4,5))
  from bit_rounds_panic [OF gen init(2,3) this] show ?thesis by (simp add: bitvec_unfold [OF assms(1,2) m i])
qed

section \<open>Exactness of the analyses\<close>

lemma set_reverse_postorder:
  "cfg_blocks cfg \<noteq> [] \<Longrightarrow> set (reverse_postorder cfg) = reachable_blocks cfg"
  by (simp add: reverse_postorder_props(2) reachable_blocks_eq)

lemma block_ordered_exact:
  fixes refs :: "var_ref list"
  assumes "cfg_blocks cfg \<noteq> []" and "distinct (block_ids cfg)" and "length (cfg_blocks cfg) < 100"
  defines "owned \<equiv> owned_by (def_to_block cfg (collect_defs refs))"
  shows "d \<in> get_set (reaching_in (compute_reaching_definitions cfg refs)) b \<longleftrightarrow>
      reaches_start owned cfg (collect_defs refs) (set (block_ids cfg)) d b"
    and "d \<in> get_set (reaching_out (compute_reaching_definitions cfg refs)) b \<longleftrightarrow>
      reaches_end owned cfg (collect_defs refs) (set (block_ids cfg)) d b"
proof -
  obtain gen kill where m: "gen_kill_maps owned cfg (collect_defs refs) = (gen, kill)" by fastforce
  obtain rin rout k where r: "flow_rounds (fresh_predecessors cfg) gen kill (block_ids cfg) 100 0 (initial_sets cfg gen) =
      ((rin, rout), k)" by (metis surj_pair)
  have "card (set (block_ids cfg)) < 100" using card_length [of "block_ids cfg"] assms(3) by simp
  note exact = solver_exact [OF assms(2) m r disjI1 [OF this]]
  have "compute_reaching_definitions cfg refs = \<lparr>reaching_in = rin, reaching_out = rout\<rparr>"
    using assms(1) m r by (simp add: compute_reaching_definitions_def Let_def owned_def)
  with exact show "d \<in> get_set (reaching_in (compute_reaching_definitions cfg refs)) b \<longleftrightarrow>
      reaches_start owned cfg (collect_defs refs) (set (block_ids cfg)) d b"
    "d \<in> get_set (reaching_out (compute_reaching_definitions cfg refs)) b \<longleftrightarrow>
      reaches_end owned cfg (collect_defs refs) (set (block_ids cfg)) d b" by simp_all
qed

lemma rpo_total:
  assumes "cfg_blocks cfg \<noteq> []"
  shows "compute_reaching_definitions_rpo cfg refs \<noteq> None"
  using assms by (simp add: compute_reaching_definitions_rpo_def Let_def compute_rpo_eq case_prod_beta)

lemma rpo_exact:
  assumes "cfg_blocks cfg \<noteq> []" and "distinct (block_ids cfg)"
  shows "\<exists>s. compute_reaching_definitions_rpo cfg refs = Some s \<and> rws_iterations s \<le> 100 \<and>
    (card (reachable_blocks cfg) < 100 \<or> rws_iterations s < 100 \<longrightarrow>
      (\<forall>d b. (d \<in> get_set (reaching_in (rws_reaching s)) b \<longleftrightarrow>
          reaches_start by_lines cfg (collect_defs refs) (reachable_blocks cfg) d b) \<and>
        (d \<in> get_set (reaching_out (rws_reaching s)) b \<longleftrightarrow>
          reaches_end by_lines cfg (collect_defs refs) (reachable_blocks cfg) d b)))"
proof -
  obtain gen kill where m: "gen_kill_maps by_lines cfg (collect_defs refs) = (gen, kill)" by fastforce
  obtain rin rout k where r: "flow_rounds (fresh_predecessors cfg) gen kill (reverse_postorder cfg) 100 0
      (initial_sets cfg gen) = ((rin, rout), k)" by (metis surj_pair)
  have "k \<le> 100" using reaching.flow_rounds_inv [OF flow_inv_initial(1) [OF m] r] by simp
  moreover note exact = solver_exact [OF assms(2) m r, unfolded set_reverse_postorder [OF assms(1)]]
  ultimately show ?thesis by (simp add: rpo_unfold [OF assms(1) m r])
qed

lemma rpo_exact_sets:
  assumes "cfg_blocks cfg \<noteq> []" and "distinct (block_ids cfg)" and "card (reachable_blocks cfg) < 100"
    and "compute_reaching_definitions_rpo cfg refs = Some s"
  shows "d \<in> get_set (reaching_in (rws_reaching s)) b \<longleftrightarrow>
      reaches_start by_lines cfg (collect_defs refs) (reachable_blocks cfg) d b"
    and "d \<in> get_set (reaching_out (rws_reaching s)) b \<longleftrightarrow>
      reaches_end by_lines cfg (collect_defs refs) (reachable_blocks cfg) d b"
  using rpo_exact [OF assms(1,2), of refs] assms(3,4) by simp_all

end
