(* ===== verification/Dataflow_Properties.thy ===== *)
theory Dataflow_Properties
  imports Slice Reaching_Bits "HOL-Library.Char_ord" "HOL-Library.List_Lexorder"
begin

text \<open>
  The properties of the program slices and of the reaching-definitions analyses, with concrete graphs
  that show their hypotheses can hold.
\<close>

section \<open>Slices\<close>

definition slice_pdg :: pdg_info where
  "slice_pdg = \<lparr>pdg_function = ''f'',
     pdg_nodes =
       [\<lparr>pn_id = 0, pn_node_type = ''assignment'', pn_lines = (1, 1), pn_definitions = [''x''], pn_uses = []\<rparr>,
        \<lparr>pn_id = 1, pn_node_type = ''condition'', pn_lines = (2, 2), pn_definitions = [], pn_uses = [''x'']\<rparr>,
        \<lparr>pn_id = 2, pn_node_type = ''assignment'', pn_lines = (3, 4), pn_definitions = [''y''], pn_uses = [''x'']\<rparr>],
     pdg_edges =
       [\<lparr>pe_source = 0, pe_target = 1, pe_dep_type = Data, pe_label = ''x''\<rparr>,
        \<lparr>pe_source = 1, pe_target = 2, pe_dep_type = Control, pe_label = []\<rparr>,
        \<lparr>pe_source = 0, pe_target = 2, pe_dep_type = Data, pe_label = ''x''\<rparr>]\<rparr>"

text \<open>
  C17: A slice is exactly the set of the lines of the nodes that the dependence edges connect with a node
  of the requested line, backwards or forwards; with a variable the data edges are those of the
  variable, and the control edges are all followed. A line outside every node gives the empty slice,
  and an error of the graph construction is passed on.
\<close>

theorem slice_exact:
  "get_slice (Inr pdg :: 'e + pdg_info) line direction variable =
     Inr {l. 0 < l \<and> (\<exists>start \<in> set (pdg_nodes pdg). fst (pn_lines start) \<le> line \<and> line \<le> snd (pn_lines start) \<and>
       (\<exists>i n. (pn_id start, i) \<in> (follows pdg direction variable)\<^sup>* \<and> node_by_id pdg i = Some n \<and>
         fst (pn_lines n) \<le> l \<and> l \<le> snd (pn_lines n)))} \<and>
   get_slice (Inl e) line direction variable = Inl e"
proof -
  have "nodes_to_lines pdg (compute_slice pdg (find_nodes_for_line pdg line) direction variable) =
      {l. 0 < l \<and> (\<exists>start \<in> set (pdg_nodes pdg). fst (pn_lines start) \<le> line \<and> line \<le> snd (pn_lines start) \<and>
       (\<exists>i n. (pn_id start, i) \<in> (follows pdg direction variable)\<^sup>* \<and> node_by_id pdg i = Some n \<and>
         fst (pn_lines n) \<le> l \<and> l \<le> snd (pn_lines n)))}"
    unfolding set_eq_iff nodes_to_lines_iff compute_slice_eq find_nodes_for_line_def by auto
  then show ?thesis unfolding get_slice_eq by (simp add: get_slice_def)
qed

text \<open>
  Forward and backward slices are converse to each other: on a graph with distinct node ids, a line
  is in the forward slice of another exactly when the other is in its backward slice.
\<close>

theorem slice_duality:
  assumes "distinct (map pn_id (pdg_nodes pdg))" and "0 < l" and "0 < l'"
    and "get_slice (Inr pdg :: 'e + pdg_info) l Forward x = Inr F"
    and "get_slice (Inr pdg :: 'e + pdg_info) l' Backward x = Inr B"
  shows "l' \<in> F \<longleftrightarrow> l \<in> B"
proof -
  have F: "F = nodes_to_lines pdg (compute_slice pdg (find_nodes_for_line pdg l) Forward x)"
    and B: "B = nodes_to_lines pdg (compute_slice pdg (find_nodes_for_line pdg l') Backward x)"
    using assms(4,5) by (simp_all add: get_slice_eq)
  show ?thesis
    unfolding F B nodes_to_lines_iff compute_slice_eq node_by_id_iff [OF assms(1)] follows_converse rtrancl_converse
      find_nodes_for_line_def using assms(2,3) by auto
qed

lemma slice_duality_witness:
  "4 \<in> {l. l \<in> projr (get_slice (Inr slice_pdg :: unit + pdg_info) 1 Forward (Some ''x''))} \<longleftrightarrow>
   1 \<in> projr (get_slice (Inr slice_pdg :: unit + pdg_info) 4 Backward (Some ''x''))"
  unfolding mem_Collect_eq
  by (rule slice_duality [where pdg = slice_pdg and x = "Some ''x''"])
    (simp_all add: slice_pdg_def get_slice_def Let_def find_nodes_for_line_def)

text \<open>
  C18: The rich slice is the slice: on a graph with distinct node ids its nodes are the lines of the plain
  slice, one node per line in increasing order, whatever the iteration order of the hash map; its edges
  are sorted by line and are exactly the dependence edges between visited nodes that both have a line.
\<close>

theorem rich_slice_exact:
  assumes "enumerates enum" and "distinct (map pn_id (pdg_nodes pdg))"
    and "get_slice_rich trim_end enum (Inr pdg :: 'e + pdg_info) source_lines line direction variable = Inr rs"
    and "get_slice (Inr pdg :: 'e + pdg_info) line direction variable = Inr L"
  shows "sn_line ` set (rs_nodes rs) = L \<and> sorted (map sn_line (rs_nodes rs)) \<and> distinct (map sn_line (rs_nodes rs)) \<and>
    set (rs_edges rs) = {e. edge_in_slice pdg (compute_slice pdg (find_nodes_for_line pdg line) direction variable) e} \<and>
    sorted (map (\<lambda>e. (se_from e, se_to e)) (rs_edges rs))"
  using get_slice_rich_props [OF assms] by blast

lemma rich_slice_exact_witness:
  "\<exists>rs. get_slice_rich id sorted_list_of_set (Inr slice_pdg :: unit + pdg_info) [''x = 1''] 4 Backward None = Inr rs \<and>
     sorted (map sn_line (rs_nodes rs))"
proof -
  have en: "enumerates (sorted_list_of_set :: nat set \<Rightarrow> nat list)" by (simp add: enumerates_def)
  have ids: "distinct (map pn_id (pdg_nodes slice_pdg))" by (simp add: slice_pdg_def)
  obtain rs where rs: "get_slice_rich id sorted_list_of_set (Inr slice_pdg :: unit + pdg_info) [''x = 1''] 4 Backward None = Inr rs"
    by (simp add: get_slice_rich_def Let_def case_prod_beta slice_pdg_def find_nodes_for_line_def)
  obtain L where L: "get_slice (Inr slice_pdg :: unit + pdg_info) 4 Backward None = Inr L"
    by (simp add: get_slice_def Let_def slice_pdg_def find_nodes_for_line_def)
  from rich_slice_exact [OF en ids rs L] rs show ?thesis by blast
qed

definition parallel_edges_pdg :: pdg_info where
  "parallel_edges_pdg = \<lparr>pdg_function = ''f'',
     pdg_nodes =
       [\<lparr>pn_id = 0, pn_node_type = ''assignment'', pn_lines = (1, 1), pn_definitions = [''x'', ''y''], pn_uses = []\<rparr>,
        \<lparr>pn_id = 1, pn_node_type = ''return'', pn_lines = (2, 2), pn_definitions = [], pn_uses = [''x'', ''y'']\<rparr>],
     pdg_edges =
       [\<lparr>pe_source = 0, pe_target = 1, pe_dep_type = Data, pe_label = ''x''\<rparr>,
        \<lparr>pe_source = 0, pe_target = 1, pe_dep_type = Data, pe_label = ''y''\<rparr>,
        \<lparr>pe_source = 0, pe_target = 1, pe_dep_type = Data, pe_label = ''x''\<rparr>]\<rparr>"

text \<open>
  The edges of a rich slice are sorted by their lines only and then only neighbours are compared, so
  equal edges with a different one between them all stay: the result can hold the same edge twice.
\<close>

theorem rich_slice_repeats_edges:
  "\<exists>rs. get_slice_rich trim_end enum (Inr parallel_edges_pdg :: 'e + pdg_info) source_lines 1 Forward None = Inr rs \<and>
     \<not> distinct (rs_edges rs)"
proof -
  have V: "compute_slice parallel_edges_pdg [0] Forward None = {0, 1}"
    by (simp add: compute_slice_def slice_loop.simps adjacent_nodes_def should_follow_edge_def parallel_edges_pdg_def
        Let_def insert_commute)
  have line: "node_id_to_line parallel_edges_pdg 0 = Some 1" "node_id_to_line parallel_edges_pdg 1 = Some 2"
    by (simp_all add: node_id_to_line_def node_by_id_def parallel_edges_pdg_def)
  have edges: "fst (fold (slice_edge_step parallel_edges_pdg {0, 1}) (pdg_edges parallel_edges_pdg) ([], m)) =
      [\<lparr>se_from = 1, se_to = 2, se_dep_type = ''data'', se_label = ''x''\<rparr>,
       \<lparr>se_from = 1, se_to = 2, se_dep_type = ''data'', se_label = ''y''\<rparr>,
       \<lparr>se_from = 1, se_to = 2, se_dep_type = ''data'', se_label = ''x''\<rparr>]" for m
    using line by (simp add: slice_edge_step_def dep_str_def parallel_edges_pdg_def del: One_nat_def)
  have start: "find_nodes_for_line parallel_edges_pdg 1 = [0]"
    by (simp add: find_nodes_for_line_def parallel_edges_pdg_def)
  show ?thesis
    by (simp add: get_slice_rich_def Let_def case_prod_beta start V edges sort_key_simps del: One_nat_def)
qed

section \<open>Reaching definitions\<close>

text \<open>
  A loop \<open>while c: x = ..\<close> with \<open>x\<close> set before it, where line 1, the signature, belongs to no block.
\<close>

definition reach_cfg :: cfg_info where
  "reach_cfg = \<lparr>cfg_function = ''f'',
     cfg_blocks =
       [\<lparr>blk_id = 0, blk_type = Entry, blk_lines = (2, 2), blk_calls = []\<rparr>,
        \<lparr>blk_id = 1, blk_type = LoopHeader, blk_lines = (3, 3), blk_calls = []\<rparr>,
        \<lparr>blk_id = 2, blk_type = LoopBody, blk_lines = (4, 4), blk_calls = []\<rparr>,
        \<lparr>blk_id = 3, blk_type = Exit, blk_lines = (5, 5), blk_calls = []\<rparr>],
     cfg_edges =
       [\<lparr>edge_from = 0, edge_to = 1, edge_kind = Unconditional, edge_condition = None\<rparr>,
        \<lparr>edge_from = 1, edge_to = 2, edge_kind = EdgeTrue, edge_condition = None\<rparr>,
        \<lparr>edge_from = 2, edge_to = 1, edge_kind = BackEdge, edge_condition = None\<rparr>,
        \<lparr>edge_from = 1, edge_to = 3, edge_kind = EdgeFalse, edge_condition = None\<rparr>],
     entry_block = 0, exit_blocks = [3], cyclomatic_complexity = 2\<rparr>"

definition simple_ref :: "string \<Rightarrow> ref_type \<Rightarrow> nat \<Rightarrow> var_ref" where
  "simple_ref x t l = \<lparr>vr_name = x, vr_ref_type = t, vr_line = l, vr_column = 0, vr_context = None, vr_group_id = None\<rparr>"

definition reach_refs :: "var_ref list" where
  "reach_refs = [simple_ref ''x'' RefDefinition 2, simple_ref ''x'' RefUpdate 4, simple_ref ''x'' RefUse 5]"

text \<open>
  C19: The block-ordered analysis is exact. With distinct block ids and fewer than 100 blocks, a
  definition is in the IN set of a block exactly when it is the last definition of its variable in the
  block that owns it and a path leads from there into the block through blocks that own no definition
  of the variable; the OUT set is the same up to the end of the block.
\<close>

theorem reaching_definitions_exact:
  assumes "cfg_blocks cfg \<noteq> []" and "distinct (block_ids cfg)" and "length (cfg_blocks cfg) < 100"
  shows "(d \<in> get_set (reaching_in (compute_reaching_definitions cfg refs)) b \<longleftrightarrow>
      reaches_start (owned_by (def_to_block cfg (collect_defs refs))) cfg (collect_defs refs) (set (block_ids cfg)) d b) \<and>
    (d \<in> get_set (reaching_out (compute_reaching_definitions cfg refs)) b \<longleftrightarrow>
      reaches_end (owned_by (def_to_block cfg (collect_defs refs))) cfg (collect_defs refs) (set (block_ids cfg)) d b)"
  using block_ordered_exact [OF assms] by blast

lemma reaching_definitions_exact_witness:
  "\<forall>d. d \<in> get_set (reaching_out (compute_reaching_definitions reach_cfg reach_refs)) 3 \<longleftrightarrow>
     reaches_end (owned_by (def_to_block reach_cfg (collect_defs reach_refs))) reach_cfg (collect_defs reach_refs)
       {0, 1, 2, 3} d 3"
proof -
  have "cfg_blocks reach_cfg \<noteq> []" "distinct (block_ids reach_cfg)" "length (cfg_blocks reach_cfg) < 100"
    and ids: "set (block_ids reach_cfg) = {0, 1, 2, 3}" by (simp_all add: reach_cfg_def)
  from reaching_definitions_exact [OF this(1-3)] show ?thesis unfolding ids by blast
qed

text \<open>
  C20: The reverse-postorder analysis always answers, visits the blocks that the entry reaches in the
  order of \<open>reverse_postorder\<close>, and is exact for these blocks whenever fewer than 100 of them exist or it
  reports fewer than 100 rounds. There a definition belongs to every block whose lines contain it.
\<close>

theorem reaching_rpo_exact:
  assumes "cfg_blocks cfg \<noteq> []" and "distinct (block_ids cfg)"
  shows "\<exists>s. compute_reaching_definitions_rpo cfg refs = Some s \<and>
    compute_rpo cfg = Some (reverse_postorder cfg) \<and> rws_iterations s \<le> 100 \<and>
    (card (reachable_blocks cfg) < 100 \<or> rws_iterations s < 100 \<longrightarrow>
      (\<forall>d b. (d \<in> get_set (reaching_in (rws_reaching s)) b \<longleftrightarrow>
          reaches_start by_lines cfg (collect_defs refs) (reachable_blocks cfg) d b) \<and>
        (d \<in> get_set (reaching_out (rws_reaching s)) b \<longleftrightarrow>
          reaches_end by_lines cfg (collect_defs refs) (reachable_blocks cfg) d b)))"
proof -
  from rpo_exact [OF assms] obtain s where "compute_reaching_definitions_rpo cfg refs = Some s" "rws_iterations s \<le> 100"
    "card (reachable_blocks cfg) < 100 \<or> rws_iterations s < 100 \<Longrightarrow>
      \<forall>d b. (d \<in> get_set (reaching_in (rws_reaching s)) b \<longleftrightarrow>
          reaches_start by_lines cfg (collect_defs refs) (reachable_blocks cfg) d b) \<and>
        (d \<in> get_set (reaching_out (rws_reaching s)) b \<longleftrightarrow>
          reaches_end by_lines cfg (collect_defs refs) (reachable_blocks cfg) d b)" by blast
  with compute_rpo_eq [OF assms(1)] show ?thesis by blast
qed

lemma reaching_rpo_exact_witness:
  "\<exists>s. compute_reaching_definitions_rpo reach_cfg reach_refs = Some s \<and> rws_iterations s \<le> 100"
proof -
  have "cfg_blocks reach_cfg \<noteq> []" "distinct (block_ids reach_cfg)" by (simp_all add: reach_cfg_def)
  from reaching_rpo_exact [OF this, of reach_refs] show ?thesis by blast
qed

text \<open>
  Where the entry reaches every block, and every definition lies in exactly one block, the
  block-ordered and the reverse-postorder analysis agree on every IN and OUT set.
\<close>

theorem block_order_matches_rpo:
  assumes "cfg_blocks cfg \<noteq> []" and "distinct (block_ids cfg)" and "length (cfg_blocks cfg) < 100"
    and "reachable_blocks cfg = set (block_ids cfg)"
    and "\<And>d r. (d, r) \<in> set (collect_defs refs) \<Longrightarrow> length (filter (in_lines (vr_line r)) (cfg_blocks cfg)) = 1"
    and "compute_reaching_definitions_rpo cfg refs = Some s"
  shows "get_set (reaching_in (rws_reaching s)) = get_set (reaching_in (compute_reaching_definitions cfg refs)) \<and>
    get_set (reaching_out (rws_reaching s)) = get_set (reaching_out (compute_reaching_definitions cfg refs))"
proof -
  have same: "owned_by (def_to_block cfg (collect_defs refs)) b d r \<longleftrightarrow> by_lines b d r"
    if "(d, r) \<in> set (collect_defs refs)" "b \<in> set (cfg_blocks cfg)" for d r b
    by (rule owned_by_lines [OF that assms(2) assms(5) [OF that(1)]])
  have eq: "reaches_end (owned_by (def_to_block cfg (collect_defs refs))) cfg (collect_defs refs) =
      reaches_end by_lines cfg (collect_defs refs)"
    "reaches_start (owned_by (def_to_block cfg (collect_defs refs))) cfg (collect_defs refs) =
      reaches_start by_lines cfg (collect_defs refs)"
    by (rule reaches_cong, erule (1) same)+
  have "card (reachable_blocks cfg) < 100" using card_length [of "block_ids cfg"] assms(3,4) by simp
  note rpo = rpo_exact_sets [OF assms(1,2) this assms(6)]
  show ?thesis
    unfolding fun_eq_iff set_eq_iff block_ordered_exact [OF assms(1-3)] eq rpo assms(4) by simp
qed

lemma block_order_matches_rpo_witness:
  "\<exists>s. compute_reaching_definitions_rpo reach_cfg reach_refs = Some s \<and>
     get_set (reaching_in (rws_reaching s)) 3 = get_set (reaching_in (compute_reaching_definitions reach_cfg reach_refs)) 3"
proof -
  obtain s where s: "compute_reaching_definitions_rpo reach_cfg reach_refs = Some s"
    using rpo_total [of reach_cfg reach_refs] by (auto simp: reach_cfg_def)
  have cfg: "cfg_blocks reach_cfg \<noteq> []" "distinct (block_ids reach_cfg)" "length (cfg_blocks reach_cfg) < 100"
    by (simp_all add: reach_cfg_def)
  have reach: "reachable_blocks reach_cfg = set (block_ids reach_cfg)" by code_simp
  have one: "length (filter (in_lines (vr_line r)) (cfg_blocks reach_cfg)) = 1"
    if "(d, r) \<in> set (collect_defs reach_refs)" for d r
  proof -
    from that have "vr_line r = 2 \<or> vr_line r = 4"
      by (auto simp: reach_refs_def simple_ref_def collect_defs_def is_def_def)
    then show ?thesis by (elim disjE) (simp_all add: reach_cfg_def in_lines_def)
  qed
  have "get_set (reaching_in (rws_reaching s)) 3 =
      get_set (reaching_in (compute_reaching_definitions reach_cfg reach_refs)) 3"
    using block_order_matches_rpo [OF cfg reach one s] by (rule conjunct1 [THEN fun_cong])
  with s show ?thesis by blast
qed

text \<open>
  C21: The bit-vector analysis computes the same sets, in the same number of rounds, as the
  reverse-postorder analysis, when there is a definition and every block the entry reaches is listed.
\<close>

theorem bitvec_matches_rpo:
  assumes "cfg_blocks cfg \<noteq> []" and "collect_defs refs \<noteq> []" and "reachable_blocks cfg \<subseteq> set (block_ids cfg)"
  shows "\<exists>r s. compute_reaching_definitions_bitvec cfg refs = Some r \<and>
    compute_reaching_definitions_rpo cfg refs = Some s \<and>
    to_standard r = rws_reaching s \<and> bv_iterations r = rws_iterations s"
  by (rule bitvec_rpo) (use assms in \<open>simp_all add: all_defs_def set_reverse_postorder\<close>)

lemma bitvec_matches_rpo_witness:
  "\<exists>r. compute_reaching_definitions_bitvec reach_cfg reach_refs = Some r"
proof -
  have "cfg_blocks reach_cfg \<noteq> []" by (simp add: reach_cfg_def)
  moreover have "collect_defs reach_refs \<noteq> []" by code_simp
  moreover have "reachable_blocks reach_cfg \<subseteq> set (block_ids reach_cfg)" by code_simp
  ultimately show ?thesis using bitvec_matches_rpo by blast
qed

text \<open>
  The bit-vector analysis panics on the graphs where the reverse-postorder analysis answers all the
  same: when an edge leads from the entry to a block that is not listed.
\<close>

theorem bitvec_panics:
  assumes "cfg_blocks cfg \<noteq> []" and "collect_defs refs \<noteq> []" and "\<not> reachable_blocks cfg \<subseteq> set (block_ids cfg)"
  shows "compute_reaching_definitions_bitvec cfg refs = None \<and> compute_reaching_definitions_rpo cfg refs \<noteq> None"
proof -
  have "compute_reaching_definitions_bitvec cfg refs = None"
    by (rule bitvec_panic) (use assms in \<open>simp_all add: all_defs_def set_reverse_postorder\<close>)
  with rpo_total [OF assms(1)] show ?thesis by simp
qed

lemma bitvec_panics_witness:
  "compute_reaching_definitions_bitvec (reach_cfg\<lparr>cfg_blocks := take 3 (cfg_blocks reach_cfg)\<rparr>) reach_refs = None"
proof -
  let ?cfg = "reach_cfg\<lparr>cfg_blocks := take 3 (cfg_blocks reach_cfg)\<rparr>"
  have "cfg_blocks ?cfg \<noteq> []" by (simp add: reach_cfg_def)
  moreover have "collect_defs reach_refs \<noteq> []" by code_simp
  moreover have "\<not> reachable_blocks ?cfg \<subseteq> set (block_ids ?cfg)" by code_simp
  ultimately show ?thesis using bitvec_panics by blast
qed

text \<open>
  A definition on a line of no block, such as a parameter on the signature line, is lost by the
  reverse-postorder and bit-vector analyses: it is in no IN and no OUT set. The block-ordered analysis
  gives it to the first block, which its OUT set then holds when the variable is not defined again there.
\<close>

theorem orphan_definition_lost:
  assumes "cfg_blocks cfg \<noteq> []" and "distinct (block_ids cfg)" and "(d, r) \<in> set (collect_defs refs)"
    and "\<And>b. b \<in> set (cfg_blocks cfg) \<Longrightarrow> \<not> in_lines (vr_line r) b"
    and "compute_reaching_definitions_rpo cfg refs = Some s" and "card (reachable_blocks cfg) < 100"
  shows "d \<notin> get_set (reaching_in (rws_reaching s)) b \<and> d \<notin> get_set (reaching_out (rws_reaching s)) b \<and>
    def_to_block cfg (collect_defs refs) d = Some (blk_id (hd (cfg_blocks cfg)))"
proof -
  have "r' = r" if "(d, r') \<in> set (collect_defs refs)" for r'
    using ascending_fun [OF ascending_collect_defs that assms(3)] .
  then have lost: "\<not> reaches_end by_lines cfg (collect_defs refs) B d p" for B p
    unfolding reaches_end_def using assms(4) by blast
  then have "\<not> reaches_start by_lines cfg (collect_defs refs) B d p" for B p
    unfolding reaches_start_def by blast
  moreover have "best_block cfg (vr_line r) = None" using assms(4) by (simp add: best_block_None)
  then have "def_to_block cfg (collect_defs refs) d = Some (blk_id (hd (cfg_blocks cfg)))"
    using assms(1) by (cases "cfg_blocks cfg") (simp_all add: def_to_block_eq [OF assms(3)])
  ultimately show ?thesis using lost by (simp add: rpo_exact_sets [OF assms(1,2,6,5)])
qed

lemma orphan_definition_lost_witness:
  "\<exists>s. compute_reaching_definitions_rpo reach_cfg [simple_ref ''p'' RefDefinition 1] = Some s \<and>
     \<lparr>ref_index = 0, def_line = 1\<rparr> \<notin> get_set (reaching_out (rws_reaching s)) 0"
proof -
  obtain s where s: "compute_reaching_definitions_rpo reach_cfg [simple_ref ''p'' RefDefinition 1] = Some s"
    using rpo_total [of reach_cfg "[simple_ref ''p'' RefDefinition 1]"] by (auto simp: reach_cfg_def)
  have cfg: "cfg_blocks reach_cfg \<noteq> []" "distinct (block_ids reach_cfg)" by (simp_all add: reach_cfg_def)
  have d: "(\<lparr>ref_index = 0, def_line = 1\<rparr>, simple_ref ''p'' RefDefinition 1) \<in>
      set (collect_defs [simple_ref ''p'' RefDefinition 1])"
    by (simp add: collect_defs_def simple_ref_def is_def_def)
  have none: "\<not> in_lines (vr_line (simple_ref ''p'' RefDefinition 1)) b" if "b \<in> set (cfg_blocks reach_cfg)" for b
    using that by (auto simp: reach_cfg_def in_lines_def simple_ref_def)
  have card: "card (reachable_blocks reach_cfg) < 100"
  proof -
    have "reachable_blocks reach_cfg = set [0, 1, 2, 3]" by code_simp
    then show ?thesis using card_length [of "[0::nat, 1, 2, 3]"] by simp
  qed
  show ?thesis using orphan_definition_lost [OF cfg d none s card] s by blast
qed

end
