(* ===== verification/Chains.thy ===== *)
theory Chains
  imports Reaching_Bits
begin

text \<open>
  The clients of the reaching definitions in \<open>dfg/reaching.rs\<close>: def-use chains, use-def chains, the
  detection of uninitialised uses and the report that collects them (\<open>dfg/chains.rs\<close>). The order in
  which a hash set of definitions is iterated is the parameter \<open>enum\<close>.
\<close>

section \<open>Data\<close>

record def_site =
  ds_var :: string
  ds_line :: nat
  ds_column :: "nat option"
  ds_block :: block_id
  ds_source_text :: "string option"

record use_site =
  us_line :: nat
  us_column :: "nat option"
  us_block :: block_id
  us_context :: "string option"

record def_use_chain =
  du_definition :: def_site
  du_uses :: "use_site list"

record use_def_chain =
  ud_use_site :: use_site
  ud_var :: string
  ud_reaching_defs :: "def_site list"

text \<open>\<open>format!("{:?}", c)\<close>: the derived \<open>Debug\<close> output of the enumeration is the name of the variant.\<close>

fun context_name :: "var_ref_context \<Rightarrow> string" where
  "context_name AugmentedAssignment = ''AugmentedAssignment''"
| "context_name MultipleAssignment = ''MultipleAssignment''"
| "context_name WalrusOperator = ''WalrusOperator''"
| "context_name ComprehensionScope = ''ComprehensionScope''"
| "context_name MatchBinding = ''MatchBinding''"
| "context_name GlobalNonlocal = ''GlobalNonlocal''"
| "context_name Destructuring = ''Destructuring''"
| "context_name ClosureCapture = ''ClosureCapture''"
| "context_name OptionalChain = ''OptionalChain''"
| "context_name ShortDeclaration = ''ShortDeclaration''"
| "context_name MultipleReturn = ''MultipleReturn''"
| "context_name BlankIdentifier = ''BlankIdentifier''"
| "context_name DeferCapture = ''DeferCapture''"
| "context_name Shadowing = ''Shadowing''"
| "context_name PatternBinding = ''PatternBinding''"
| "context_name OwnershipMove = ''OwnershipMove''"
| "context_name MatchArmBinding = ''MatchArmBinding''"

text \<open>The site of a definition: its first block, or \<open>0\<close> when no block contains its line.\<close>

definition def_site_of :: "cfg_info \<Rightarrow> var_ref \<Rightarrow> def_site" where
  "def_site_of cfg r =
     \<lparr>ds_var = vr_name r, ds_line = vr_line r, ds_column = Some (vr_column r),
      ds_block = (case line_block cfg (vr_line r) of Some b \<Rightarrow> b | None \<Rightarrow> 0), ds_source_text = None\<rparr>"

definition use_site_of :: "var_ref \<Rightarrow> block_id \<Rightarrow> use_site" where
  "use_site_of r b =
     \<lparr>us_line = vr_line r, us_column = Some (vr_column r), us_block = b,
      us_context = map_option context_name (vr_context r)\<rparr>"

definition is_use :: "var_ref \<Rightarrow> bool" where
  "is_use r \<longleftrightarrow> vr_ref_type r = RefUse"

text \<open>\<open>Iterator::max_by_key\<close> returns the last of the elements with the largest key.\<close>

definition max_by_key :: "('a \<Rightarrow> nat) \<Rightarrow> 'a list \<Rightarrow> 'a option" where
  "max_by_key key xs =
     fold (\<lambda>x best. case best of None \<Rightarrow> Some x | Some b \<Rightarrow> if key b \<le> key x then Some x else Some b) xs None"

section \<open>Def-use chains\<close>

definition initial_chains :: "cfg_info \<Rightarrow> var_ref list \<Rightarrow> (def_id \<rightharpoonup> def_use_chain)" where
  "initial_chains cfg refs =
     fold (\<lambda>(d, r) m. m(d \<mapsto> \<lparr>du_definition = def_site_of cfg r, du_uses = []\<rparr>)) (collect_defs refs) Map.empty"

definition chain_defs_by_var ::
  "(def_id set \<Rightarrow> def_id list) \<Rightarrow> (def_id \<rightharpoonup> def_use_chain) \<Rightarrow> (string \<rightharpoonup> def_id list)" where
  "chain_defs_by_var enum chain_map =
     fold (\<lambda>d. entry_push (ds_var (du_definition (the (chain_map d)))) d) (enum (dom chain_map)) Map.empty"

text \<open>The definitions of the variable in the block of the use, on an earlier line.\<close>

definition local_defs :: "cfg_info \<Rightarrow> var_ref list \<Rightarrow> var_ref \<Rightarrow> block_id \<Rightarrow> (def_id \<times> var_ref) list" where
  "local_defs cfg refs use b =
     filter (\<lambda>(d, r). vr_name r = vr_name use \<and> vr_line r < vr_line use \<and> line_block cfg (vr_line r) = Some b)
       (collect_defs refs)"

definition push_use :: "use_site \<Rightarrow> def_id \<Rightarrow> (def_id \<rightharpoonup> def_use_chain) \<Rightarrow> (def_id \<rightharpoonup> def_use_chain)" where
  "push_use site d chain_map =
     (case chain_map d of
        None \<Rightarrow> chain_map
      | Some chain \<Rightarrow> chain_map(d \<mapsto> chain\<lparr>du_uses := du_uses chain @ [site]\<rparr>))"

definition add_use ::
  "(def_id set \<Rightarrow> def_id list) \<Rightarrow> reaching_definitions \<Rightarrow> cfg_info \<Rightarrow> var_ref list \<Rightarrow>
     (string \<rightharpoonup> def_id list) \<Rightarrow> var_ref \<Rightarrow> (def_id \<rightharpoonup> def_use_chain) \<Rightarrow> (def_id \<rightharpoonup> def_use_chain)" where
  "add_use enum reaching cfg refs defs_by_var use chain_map =
     (if \<not> is_use use then chain_map
      else
        (case line_block cfg (vr_line use) of
           None \<Rightarrow> chain_map
         | Some b \<Rightarrow>
             (case reaching_in reaching b of
                None \<Rightarrow> chain_map
              | Some rin \<Rightarrow>
                  (case defs_by_var (vr_name use) of
                     None \<Rightarrow> chain_map
                   | Some var_defs \<Rightarrow>
                       (let last_local = max_by_key def_line (enum (set (map fst (local_defs cfg refs use b))))
                        in fold (\<lambda>d chain_map.
                                  if (case last_local of Some l \<Rightarrow> d = l | None \<Rightarrow> d \<in> rin)
                                  then push_use (use_site_of use b) d chain_map else chain_map)
                             var_defs chain_map)))))"

definition build_def_use_chains ::
  "(def_id set \<Rightarrow> def_id list) \<Rightarrow> reaching_definitions \<Rightarrow> cfg_info \<Rightarrow> var_ref list \<Rightarrow> def_use_chain list" where
  "build_def_use_chains enum reaching cfg refs =
     (let def_chains = initial_chains cfg refs;
          defs_by_var = chain_defs_by_var enum def_chains;
          def_chains = fold (add_use enum reaching cfg refs defs_by_var) refs def_chains
      in map (\<lambda>d. the (def_chains d)) (enum (dom def_chains)))"

section \<open>Use-def chains\<close>

definition defs_by_var :: "var_ref list \<Rightarrow> (string \<rightharpoonup> (def_id \<times> var_ref) list)" where
  "defs_by_var refs = fold (\<lambda>x. entry_push (vr_name (snd x)) x) (collect_defs refs) Map.empty"

definition use_def_chain_of ::
  "reaching_definitions \<Rightarrow> cfg_info \<Rightarrow> (string \<rightharpoonup> (def_id \<times> var_ref) list) \<Rightarrow> var_ref \<Rightarrow> use_def_chain option" where
  "use_def_chain_of reaching cfg by_var use =
     (if \<not> is_use use then None
      else
        (case line_block cfg (vr_line use) of
           None \<Rightarrow> None
         | Some b \<Rightarrow>
             (case reaching_in reaching b of
                None \<Rightarrow> None
              | Some rin \<Rightarrow>
                  Some \<lparr>ud_use_site = use_site_of use b, ud_var = vr_name use,
                    ud_reaching_defs =
                      (case by_var (vr_name use) of
                         None \<Rightarrow> []
                       | Some var_defs \<Rightarrow>
                           (let last_local =
                                  map_option fst (max_by_key (\<lambda>x. def_line (fst x))
                                    (filter (\<lambda>(d, r). line_block cfg (vr_line r) = Some b \<and> vr_line r < vr_line use) var_defs))
                            in map (\<lambda>(d, r). def_site_of cfg r)
                                 (filter (\<lambda>(d, r). case last_local of Some l \<Rightarrow> d = l | None \<Rightarrow> d \<in> rin) var_defs)))\<rparr>)))"

definition build_use_def_chains :: "reaching_definitions \<Rightarrow> cfg_info \<Rightarrow> var_ref list \<Rightarrow> use_def_chain list" where
  "build_use_def_chains reaching cfg refs =
     (let by_var = defs_by_var refs
      in map (\<lambda>u. the (use_def_chain_of reaching cfg by_var u))
           (filter (\<lambda>u. use_def_chain_of reaching cfg by_var u \<noteq> None) refs))"

section \<open>Uninitialised uses\<close>

datatype uninit_severity = Definite | Possible

record uninitialized_use =
  uu_var :: string
  uu_line :: nat
  uu_column :: "nat option"
  uu_block :: block_id
  uu_reason :: string
  uu_severity :: uninit_severity

text \<open>One round of the propagation, and the loop of at most \<open>fuel\<close> rounds.\<close>

definition no_def_block ::
  "(block_id \<rightharpoonup> block_id list) \<Rightarrow> block_id set \<Rightarrow> cfg_block \<Rightarrow> block_id set \<times> bool \<Rightarrow> block_id set \<times> bool" where
  "no_def_block successors blocks_with_def block = (\<lambda>(no_def, changed).
     if blk_id block \<in> no_def \<and> blk_id block \<notin> blocks_with_def then
       fold (\<lambda>succ (no_def, changed). if succ \<notin> no_def then (insert succ no_def, True) else (no_def, changed))
         (get_list successors (blk_id block)) (no_def, changed)
     else (no_def, changed))"

fun no_def_rounds ::
  "(block_id \<rightharpoonup> block_id list) \<Rightarrow> block_id set \<Rightarrow> cfg_block list \<Rightarrow> nat \<Rightarrow> block_id set \<Rightarrow> block_id set" where
  "no_def_rounds successors blocks_with_def blocks 0 no_def = no_def"
| "no_def_rounds successors blocks_with_def blocks (Suc fuel) no_def =
     (let (no_def, changed) = fold (no_def_block successors blocks_with_def) blocks (no_def, False)
      in if changed then no_def_rounds successors blocks_with_def blocks fuel no_def else no_def)"

definition has_undefined_path :: "cfg_info \<Rightarrow> var_ref list \<Rightarrow> def_id list \<Rightarrow> block_id \<Rightarrow> bool" where
  "has_undefined_path cfg refs var_defs b =
     (let blocks_with_def =
            set (concat (map (\<lambda>d. if ref_index d < length refs then
                                    (case best_block cfg (vr_line (refs ! ref_index d)) of None \<Rightarrow> [] | Some c \<Rightarrow> [c])
                                  else []) var_defs))
      in b \<in> no_def_rounds (fresh_successors cfg) blocks_with_def (cfg_blocks cfg) 100 {entry_block cfg})"

definition uninit_use :: "var_ref \<Rightarrow> block_id \<Rightarrow> string \<Rightarrow> uninit_severity \<Rightarrow> uninitialized_use" where
  "uninit_use r b reason severity =
     \<lparr>uu_var = vr_name r, uu_line = vr_line r, uu_column = Some (vr_column r), uu_block = b,
      uu_reason = reason, uu_severity = severity\<rparr>"

text \<open>The body of the loop over the references; \<open>by_var\<close> maps a variable to its definitions.\<close>

definition check_use ::
  "reaching_definitions \<Rightarrow> cfg_info \<Rightarrow> var_ref list \<Rightarrow> string set \<Rightarrow> (string \<rightharpoonup> def_id list) \<Rightarrow> var_ref \<Rightarrow>
     uninitialized_use option" where
  "check_use reaching cfg refs pre_initialized by_var use =
     (if \<not> is_use use \<or> vr_name use \<in> pre_initialized then None
      else
        (case line_block cfg (vr_line use) of
           None \<Rightarrow> Some (uninit_use use 0 ''use not within any block'' Definite)
         | Some b \<Rightarrow>
             (case by_var (vr_name use) of
                None \<Rightarrow> Some (uninit_use use b ''no definition of this variable exists'' Definite)
              | Some var_defs \<Rightarrow>
                  if var_defs = [] then Some (uninit_use use b ''no definition of this variable exists'' Definite)
                  else if filter (\<lambda>d. ref_index d < length refs \<and>
                            line_block cfg (vr_line (refs ! ref_index d)) = Some b \<and>
                            vr_line (refs ! ref_index d) < vr_line use) var_defs \<noteq> [] then None
                  else if filter (\<lambda>d. case reaching_in reaching b of Some rin \<Rightarrow> d \<in> rin | None \<Rightarrow> False) var_defs = [] then
                    Some (uninit_use use b ''definition exists but does not reach this use on any path'' Possible)
                  else if has_undefined_path cfg refs var_defs b then
                    Some (uninit_use use b ''definition does not reach this use on all paths'' Possible)
                  else None)))"

definition detect_uninitialized ::
  "reaching_definitions \<Rightarrow> cfg_info \<Rightarrow> var_ref list \<Rightarrow> string list \<Rightarrow> string list \<Rightarrow> uninitialized_use list" where
  "detect_uninitialized reaching cfg refs params globals =
     (let pre_initialized = set (params @ globals);
          by_var = fold (\<lambda>(d, r). entry_push (vr_name r) d) (collect_defs refs) Map.empty;
          check = check_use reaching cfg refs pre_initialized by_var
      in map (\<lambda>u. the (check u)) (filter (\<lambda>u. check u \<noteq> None) refs))"

definition detect_uninitialized_simple ::
  "reaching_definitions \<Rightarrow> cfg_info \<Rightarrow> var_ref list \<Rightarrow> uninitialized_use list" where
  "detect_uninitialized_simple reaching cfg refs = detect_uninitialized reaching cfg refs [] []"

section \<open>The report\<close>

record block_reaching_defs =
  brd_id :: block_id
  brd_lines :: "nat \<times> nat"
  brd_gen :: "def_site list"
  brd_kill :: "def_site list"
  brd_in_set :: "def_site list"
  brd_out :: "def_site list"

record reaching_defs_stats =
  st_definitions :: nat
  st_uses :: nat
  st_blocks :: nat
  st_iterations :: nat
  st_uninitialized_count :: nat

datatype confidence = Low | Medium | High

text \<open>\<open>uncertain_defs\<close>, always empty here, is left out.\<close>

record reaching_defs_report =
  rep_function :: string
  rep_file :: string
  rep_blocks :: "block_reaching_defs list"
  rep_def_use_chains :: "def_use_chain list"
  rep_use_def_chains :: "use_def_chain list"
  rep_uninitialized :: "uninitialized_use list"
  rep_stats :: reaching_defs_stats
  rep_confidence :: confidence

definition def_ids_to_definitions ::
  "(def_id set \<Rightarrow> def_id list) \<Rightarrow> def_id set \<Rightarrow> var_ref list \<Rightarrow> cfg_info \<Rightarrow> def_site list" where
  "def_ids_to_definitions enum def_ids refs cfg =
     map (\<lambda>d. def_site_of cfg (refs ! ref_index d)) (filter (\<lambda>d. ref_index d < length refs) (enum def_ids))"

text \<open>In the lines of the block, or before them on a line of no block when the block is the first.\<close>

definition in_block_or_orphan :: "cfg_info \<Rightarrow> cfg_block \<Rightarrow> nat \<Rightarrow> bool" where
  "in_block_or_orphan cfg block line \<longleftrightarrow>
     in_lines line block \<or>
     ((case cfg_blocks cfg of [] \<Rightarrow> None | b # bs \<Rightarrow> Some (blk_id b)) = Some (blk_id block) \<and>
      line < fst (blk_lines block) \<and> \<not> list_ex (in_lines line) (cfg_blocks cfg))"

definition compute_block_gen ::
  "(string set \<Rightarrow> string list) \<Rightarrow> cfg_block \<Rightarrow> var_ref list \<Rightarrow> cfg_info \<Rightarrow> def_site list" where
  "compute_block_gen enum_names block refs cfg =
     (let last_def = fold (\<lambda>r m. if is_def r \<and> in_block_or_orphan cfg block (vr_line r) then m(vr_name r \<mapsto> r) else m)
                       refs Map.empty
      in map (\<lambda>n. (def_site_of cfg (the (last_def n)))\<lparr>ds_block := blk_id block\<rparr>) (enum_names (dom last_def)))"

definition compute_block_kill :: "cfg_block \<Rightarrow> var_ref list \<Rightarrow> cfg_info \<Rightarrow> def_site list" where
  "compute_block_kill block refs cfg =
     (let vars_defined = set (map vr_name (filter (\<lambda>r. is_def r \<and> in_block_or_orphan cfg block (vr_line r)) refs))
      in map (def_site_of cfg)
           (filter (\<lambda>r. is_def r \<and> vr_name r \<in> vars_defined \<and> \<not> in_block_or_orphan cfg block (vr_line r)) refs))"

definition min_line :: "nat list \<Rightarrow> nat option" where
  "min_line ls = (case ls of [] \<Rightarrow> None | l # ls \<Rightarrow> Some (fold min ls l))"

definition detected_params :: "var_ref list \<Rightarrow> string list \<Rightarrow> string list" where
  "detected_params refs params =
     (if params = [] then
        (case min_line (map vr_line (filter (\<lambda>r. vr_ref_type r = RefDefinition) refs)) of
           Some param_line \<Rightarrow>
             map vr_name (filter (\<lambda>r. vr_ref_type r = RefDefinition \<and> vr_line r = param_line) refs)
         | None \<Rightarrow> [])
      else params)"

definition block_report ::
  "(def_id set \<Rightarrow> def_id list) \<Rightarrow> (string set \<Rightarrow> string list) \<Rightarrow> reaching_definitions \<Rightarrow> cfg_info \<Rightarrow> var_ref list \<Rightarrow>
     cfg_block \<Rightarrow> block_reaching_defs" where
  "block_report enum enum_names reaching cfg refs b =
     \<lparr>brd_id = blk_id b, brd_lines = blk_lines b,
      brd_gen = compute_block_gen enum_names b refs cfg, brd_kill = compute_block_kill b refs cfg,
      brd_in_set = (case reaching_in reaching (blk_id b) of
          None \<Rightarrow> [] | Some ds \<Rightarrow> def_ids_to_definitions enum ds refs cfg),
      brd_out = (case reaching_out reaching (blk_id b) of
          None \<Rightarrow> [] | Some ds \<Rightarrow> def_ids_to_definitions enum ds refs cfg)\<rparr>"

definition build_reaching_defs_report_with_params ::
  "(def_id set \<Rightarrow> def_id list) \<Rightarrow> (string set \<Rightarrow> string list) \<Rightarrow> cfg_info \<Rightarrow> var_ref list \<Rightarrow> string \<Rightarrow> string list \<Rightarrow>
     reaching_defs_report" where
  "build_reaching_defs_report_with_params enum enum_names cfg refs file_path params =
     (let reaching = compute_reaching_definitions cfg refs;
          detected = detected_params refs params;
          blocks = map (block_report enum enum_names reaching cfg refs) (cfg_blocks cfg);
          uninitialized = detect_uninitialized reaching cfg refs detected [];
          blocks_with_defs = length (filter (\<lambda>b. brd_gen b \<noteq> []) blocks)
      in \<lparr>rep_function = cfg_function cfg, rep_file = file_path, rep_blocks = blocks,
          rep_def_use_chains = build_def_use_chains enum reaching cfg refs,
          rep_use_def_chains = build_use_def_chains reaching cfg refs,
          rep_uninitialized = uninitialized,
          rep_stats = \<lparr>st_definitions = length (filter is_def refs), st_uses = length (filter is_use refs),
            st_blocks = length (cfg_blocks cfg), st_iterations = 0,
            st_uninitialized_count = length uninitialized\<rparr>,
          rep_confidence =
            (if length (cfg_blocks cfg) = 0 then Low else if 0 < blocks_with_defs then High else Medium)\<rparr>)"

definition build_reaching_defs_report ::
  "(def_id set \<Rightarrow> def_id list) \<Rightarrow> (string set \<Rightarrow> string list) \<Rightarrow> cfg_info \<Rightarrow> var_ref list \<Rightarrow> string \<Rightarrow>
     reaching_defs_report" where
  "build_reaching_defs_report enum enum_names cfg refs file_path =
     build_reaching_defs_report_with_params enum enum_names cfg refs file_path []"

end
