(* ===== verification/Chains_Correct.thy ===== *)
theory Chains_Correct
  imports Chains
begin

text \<open>
  What the chains and the detection of uninitialised uses compute: both kinds of chains list the same
  relation between definitions and uses, and a use is reported exactly when no definition reaches it
  or a path from the entry to its block meets no block that owns a definition of the variable.
\<close>

section \<open>Lists\<close>

lemma max_by_key_snoc:
  "max_by_key key (xs @ [x]) =
     (case max_by_key key xs of None \<Rightarrow> Some x | Some b \<Rightarrow> if key b \<le> key x then Some x else Some b)"
  by (simp add: max_by_key_def)

lemma max_by_key_simps [simp]: "max_by_key key [] = None" "max_by_key key [x] = Some x"
  by (simp_all add: max_by_key_def)

lemma max_by_key_None [simp]: "max_by_key key xs = None \<longleftrightarrow> xs = []"
  by (induction xs rule: rev_induct) (auto simp: max_by_key_snoc max_by_key_def split: option.split)

lemma max_by_key_Some: "max_by_key key xs = Some x \<Longrightarrow> x \<in> set xs \<and> (\<forall>y \<in> set xs. key y \<le> key x)"
proof (induction xs arbitrary: x rule: rev_induct)
  case (snoc a xs)
  show ?case
  proof (cases "max_by_key key xs")
    case None
    then have "xs = []" by simp
    with snoc.prems show ?thesis by (simp add: max_by_key_def)
  next
    case (Some b)
    with snoc.IH [OF Some] snoc.prems show ?thesis by (force simp: max_by_key_snoc split: if_splits)
  qed
qed (simp add: max_by_key_def)

text \<open>Without ties the choice does not depend on the order of the list.\<close>

lemma max_by_key_unique:
  assumes "inj_on key (set xs)"
  shows "max_by_key key xs = Some x \<longleftrightarrow> x \<in> set xs \<and> (\<forall>y \<in> set xs. key y \<le> key x)"
proof
  assume x: "x \<in> set xs \<and> (\<forall>y \<in> set xs. key y \<le> key x)"
  then obtain y where y: "max_by_key key xs = Some y" by (cases "max_by_key key xs") auto
  from max_by_key_Some [OF this] x have "key x = key y" by (simp add: order_antisym)
  with assms x max_by_key_Some [OF y] have "x = y" by (auto dest: inj_onD)
  with y show "max_by_key key xs = Some x" by simp
qed (rule max_by_key_Some)

lemma entry_push_fold:
  "fold (\<lambda>x. entry_push (f x) (g x)) xs Map.empty k =
     (if filter (\<lambda>x. f x = k) xs = [] then None else Some (map g (filter (\<lambda>x. f x = k) xs)))"
  by (induction xs rule: rev_induct) (auto simp: entry_push_def)

lemma map_the_filter:
  "(\<And>x. x \<in> set xs \<Longrightarrow> f x = (if P x then Some (g x) else None)) \<Longrightarrow>
     map (\<lambda>x. the (f x)) (filter (\<lambda>x. f x \<noteq> None) xs) = map g (filter P xs)"
  by (induction xs) auto

section \<open>The definitions a use sees\<close>

text \<open>
  A use sees the latest earlier definition of its variable in its block, and the definitions that reach
  the block when there is none.
\<close>

definition sees :: "reaching_definitions \<Rightarrow> cfg_info \<Rightarrow> var_ref list \<Rightarrow> var_ref \<Rightarrow> block_id \<Rightarrow> def_id \<Rightarrow> bool" where
  "sees reaching cfg refs use b d \<longleftrightarrow>
     (\<exists>r. (d, r) \<in> set (collect_defs refs) \<and> vr_name r = vr_name use \<and>
        (if local_defs cfg refs use b = [] then d \<in> get_set (reaching_in reaching) b
         else (d, r) \<in> set (local_defs cfg refs use b) \<and>
           (\<forall>(d', r') \<in> set (local_defs cfg refs use b). def_line d' \<le> def_line d)))"

text \<open>The uses the chains are built for, and the condition that no two candidates share a line.\<close>

definition located :: "reaching_definitions \<Rightarrow> cfg_info \<Rightarrow> var_ref \<Rightarrow> bool" where
  "located reaching cfg use \<longleftrightarrow> is_use use \<and>
     (case line_block cfg (vr_line use) of None \<Rightarrow> False | Some b \<Rightarrow> reaching_in reaching b \<noteq> None)"

definition no_ties :: "cfg_info \<Rightarrow> var_ref list \<Rightarrow> bool" where
  "no_ties cfg refs \<longleftrightarrow> (\<forall>u \<in> set refs. \<forall>b. distinct (map (\<lambda>(d, r). def_line d) (local_defs cfg refs u b)))"

abbreviation use_block :: "cfg_info \<Rightarrow> var_ref \<Rightarrow> block_id" where
  "use_block cfg u \<equiv> the (line_block cfg (vr_line u))"

lemma local_defs_sub: "set (local_defs cfg refs u b) \<subseteq> set (collect_defs refs)"
  by (auto simp: local_defs_def)

lemma local_defs_var: "(d, r) \<in> set (local_defs cfg refs u b) \<Longrightarrow> vr_name r = vr_name u"
  by (auto simp: local_defs_def)

lemma collect_defs_fun: "(d, r) \<in> set (collect_defs refs) \<Longrightarrow> (d, r') \<in> set (collect_defs refs) \<Longrightarrow> r = r'"
  using ascending_fun [OF ascending_collect_defs] .

lemma collect_defs_nth: "(d, r) \<in> set (collect_defs refs) \<Longrightarrow> refs ! ref_index d = r"
  by (simp add: set_collect_defs)

lemma distinct_collect_defs: "distinct (collect_defs refs)"
  using distinct_all_defs [of refs] by (simp add: all_defs_def distinct_map)

text \<open>The choice of the code, in the two forms it has.\<close>

lemma sees_choice:
  assumes ties: "distinct (map (\<lambda>(d, r). def_line d) (local_defs cfg refs u b))"
    and d: "(d, r) \<in> set (collect_defs refs)" "vr_name r = vr_name u"
    and xs: "set xs = fst ` set (local_defs cfg refs u b)"
  shows "(case max_by_key def_line xs of Some l \<Rightarrow> d = l | None \<Rightarrow> d \<in> get_set (reaching_in reaching) b) \<longleftrightarrow>
    sees reaching cfg refs u b d"
proof -
  let ?L = "local_defs cfg refs u b"
  have inj: "inj_on def_line (set xs)"
    using ties unfolding xs distinct_map by (intro inj_on_imageI) (simp add: comp_def case_prod_unfold)
  have only: "(d, r') \<in> set (collect_defs refs) \<longleftrightarrow> r' = r" for r' using d(1) collect_defs_fun by blast
  have L: "(d, r) \<in> set ?L \<longleftrightarrow> d \<in> set xs"
  proof
    assume "d \<in> set xs"
    then obtain r' where "(d, r') \<in> set ?L" unfolding xs by auto
    then have "r' = r" using only [of r'] subsetD [OF local_defs_sub \<open>(d, r') \<in> set ?L\<close>] by simp
    with \<open>(d, r') \<in> set ?L\<close> show "(d, r) \<in> set ?L" by simp
  qed (force simp: xs)
  have all: "(\<forall>(d', r') \<in> set ?L. def_line d' \<le> def_line d) \<longleftrightarrow> (\<forall>d' \<in> set xs. def_line d' \<le> def_line d)"
    unfolding xs by auto
  have sees: "sees reaching cfg refs u b d \<longleftrightarrow>
      (if ?L = [] then d \<in> get_set (reaching_in reaching) b
       else d \<in> set xs \<and> (\<forall>d' \<in> set xs. def_line d' \<le> def_line d))"
    unfolding sees_def only all by (simp add: d(2) L)
  show ?thesis
  proof (cases "max_by_key def_line xs")
    case None
    then have "?L = []" using xs by simp
    with None sees show ?thesis by simp
  next
    case (Some l)
    then have "?L \<noteq> []" using xs max_by_key_Some [OF Some] by auto
    moreover have "d = l \<longleftrightarrow> d \<in> set xs \<and> (\<forall>d' \<in> set xs. def_line d' \<le> def_line d)"
      using max_by_key_unique [OF inj, of d] Some by auto
    ultimately show ?thesis unfolding sees using Some by simp
  qed
qed

section \<open>Use-def chains\<close>

lemma defs_by_var_eq:
  "defs_by_var refs n = (if filter (\<lambda>x. vr_name (snd x) = n) (collect_defs refs) = [] then None
     else Some (filter (\<lambda>x. vr_name (snd x) = n) (collect_defs refs)))"
  unfolding defs_by_var_def
  using entry_push_fold [of "\<lambda>x. vr_name (snd x)" "\<lambda>x. x" "collect_defs refs" n] by simp

lemma max_by_key_map_fst:
  "map_option fst (max_by_key (\<lambda>x. key (fst x)) xs) = max_by_key key (map fst xs)"
proof (induction xs rule: rev_induct)
  case (snoc x xs)
  show ?case
    by (cases "max_by_key (\<lambda>x. key (fst x)) xs")
      (use snoc [symmetric] in \<open>simp_all add: max_by_key_snoc\<close>)
qed (simp add: max_by_key_def)

lemma use_def_chain_eq:
  assumes ties: "distinct (map (\<lambda>(d, r). def_line d) (local_defs cfg refs u (use_block cfg u)))"
  shows "use_def_chain_of reaching cfg (defs_by_var refs) u =
    (if located reaching cfg u then
       Some \<lparr>ud_use_site = use_site_of u (use_block cfg u), ud_var = vr_name u,
         ud_reaching_defs = map (\<lambda>(d, r). def_site_of cfg r)
           (filter (\<lambda>(d, r). sees reaching cfg refs u (use_block cfg u) d) (collect_defs refs))\<rparr>
     else None)"
proof (cases "located reaching cfg u")
  case False
  then show ?thesis by (auto simp: located_def use_def_chain_of_def split: option.split)
next
  case True
  then obtain b rin where b: "is_use u" "line_block cfg (vr_line u) = Some b" "reaching_in reaching b = Some rin"
    by (auto simp: located_def split: option.splits)
  let ?V = "filter (\<lambda>x. vr_name (snd x) = vr_name u) (collect_defs refs)"
  let ?L = "filter (\<lambda>(d, r). line_block cfg (vr_line r) = Some b \<and> vr_line r < vr_line u) ?V"
  have L: "?L = local_defs cfg refs u b"
    unfolding local_defs_def filter_filter by (rule filter_cong) auto
  have rin: "rin = get_set (reaching_in reaching) b" using b(3) by (simp add: get_set_def)
  have ties': "distinct (map (\<lambda>(d, r). def_line d) (local_defs cfg refs u b))" using ties b(2) by simp
  have choice: "(case max_by_key def_line (map fst (local_defs cfg refs u b)) of Some l \<Rightarrow> d = l | None \<Rightarrow> d \<in> rin) \<longleftrightarrow>
      sees reaching cfg refs u b d" if "(d, r) \<in> set (collect_defs refs)" "vr_name r = vr_name u" for d r
    unfolding rin by (rule sees_choice [OF ties' that]) simp
  have "filter (\<lambda>(d, r). case max_by_key def_line (map fst (local_defs cfg refs u b)) of Some l \<Rightarrow> d = l | None \<Rightarrow> d \<in> rin) ?V =
      filter (\<lambda>(d, r). sees reaching cfg refs u b d) (collect_defs refs)"
    unfolding filter_filter
  proof (rule filter_cong [OF refl])
    fix x assume x: "x \<in> set (collect_defs refs)"
    obtain d r where x_eq: "x = (d, r)" by (cases x)
    with x have d: "(d, r) \<in> set (collect_defs refs)" by simp
    have "sees reaching cfg refs u b d \<Longrightarrow> vr_name r = vr_name u"
      unfolding sees_def using collect_defs_fun [OF d] by blast
    with choice [OF d]
    show "(vr_name (snd x) = vr_name u \<and>
        (case x of (d, r) \<Rightarrow> case max_by_key def_line (map fst (local_defs cfg refs u b)) of Some l \<Rightarrow> d = l | None \<Rightarrow> d \<in> rin)) \<longleftrightarrow>
        (case x of (d, r) \<Rightarrow> sees reaching cfg refs u b d)" by (auto simp: x_eq)
  qed
  moreover have "?V = [] \<Longrightarrow> filter (\<lambda>(d, r). sees reaching cfg refs u b d) (collect_defs refs) = []"
    using calculation by simp
  ultimately show ?thesis
    using True b by (simp add: use_def_chain_of_def defs_by_var_eq max_by_key_map_fst Let_def L [unfolded filter_filter])
qed

lemma build_use_def_chains_eq:
  assumes "no_ties cfg refs"
  shows "build_use_def_chains reaching cfg refs =
    map (\<lambda>u. \<lparr>ud_use_site = use_site_of u (use_block cfg u), ud_var = vr_name u,
         ud_reaching_defs = map (\<lambda>(d, r). def_site_of cfg r)
           (filter (\<lambda>(d, r). sees reaching cfg refs u (use_block cfg u) d) (collect_defs refs))\<rparr>)
      (filter (located reaching cfg) refs)"
  unfolding build_use_def_chains_def Let_def
  by (rule map_the_filter, rule use_def_chain_eq) (use assms in \<open>simp add: no_ties_def\<close>)

section \<open>Def-use chains\<close>

lemma fold_by_key:
  "fold (\<lambda>x m. m(key x \<mapsto> f (key x))) xs m = (\<lambda>k. if k \<in> key ` set xs then Some (f k) else m k)"
proof (induction xs arbitrary: m)
  case (Cons x xs)
  show ?case unfolding fold_simps comp_def Cons.IH by (auto simp: fun_eq_iff)
qed simp

definition def_ref :: "var_ref list \<Rightarrow> def_id \<Rightarrow> var_ref" where
  "def_ref refs d = refs ! ref_index d"

lemma all_defs_ref: "d \<in> set (all_defs refs) \<longleftrightarrow> (d, def_ref refs d) \<in> set (collect_defs refs)"
  unfolding set_all_defs def_ref_def using collect_defs_nth by metis

lemma initial_chains_eq:
  "initial_chains cfg refs =
     (\<lambda>d. if d \<in> set (all_defs refs) then Some \<lparr>du_definition = def_site_of cfg (def_ref refs d), du_uses = []\<rparr> else None)"
proof -
  have "initial_chains cfg refs =
      fold (\<lambda>x m. m(fst x \<mapsto> \<lparr>du_definition = def_site_of cfg (def_ref refs (fst x)), du_uses = []\<rparr>))
        (collect_defs refs) Map.empty"
    unfolding initial_chains_def
    by (rule fold_cong) (auto simp: def_ref_def dest: collect_defs_nth)
  then show ?thesis
    unfolding fold_by_key [where f = "\<lambda>d. \<lparr>du_definition = def_site_of cfg (def_ref refs d), du_uses = []\<rparr>"]
    by (auto simp: fun_eq_iff set_all_defs image_iff)
qed

lemma dom_initial_chains: "dom (initial_chains cfg refs) = set (all_defs refs)"
  by (auto simp: initial_chains_eq dom_def)

lemma chain_defs_by_var_eq:
  assumes "enumerates enum"
  shows "chain_defs_by_var enum (initial_chains cfg refs) n =
    (let ds = filter (\<lambda>d. vr_name (def_ref refs d) = n) (enum (set (all_defs refs)))
     in if ds = [] then None else Some ds)"
proof -
  let ?name = "\<lambda>d. ds_var (du_definition (the (initial_chains cfg refs d)))"
  have "set (enum (set (all_defs refs))) = set (all_defs refs)" using assms by (simp add: enumerates_def)
  then have "filter (\<lambda>d. ?name d = n) (enum (set (all_defs refs))) =
      filter (\<lambda>d. vr_name (def_ref refs d) = n) (enum (set (all_defs refs)))"
    by (intro filter_cong) (auto simp: initial_chains_eq def_site_of_def)
  with entry_push_fold [of ?name "\<lambda>d. d" "enum (set (all_defs refs))" n] show ?thesis
    unfolding chain_defs_by_var_def dom_initial_chains by (simp add: Let_def)
qed

definition add_uses :: "use_site list \<Rightarrow> def_use_chain \<Rightarrow> def_use_chain" where
  "add_uses us c = c\<lparr>du_uses := du_uses c @ us\<rparr>"

lemma add_uses_simps [simp]: "add_uses [] c = c" "add_uses vs (add_uses us c) = add_uses (us @ vs) c"
  by (simp_all add: add_uses_def)

lemma map_option_add_nil [simp]: "map_option (add_uses []) c = c"
  by (cases c) simp_all

lemma push_uses_fold:
  assumes "distinct ds"
  shows "fold (\<lambda>d chain_map. if P d then push_use site d chain_map else chain_map) ds m =
    (\<lambda>d. map_option (add_uses (if d \<in> set ds \<and> P d then [site] else [])) (m d))"
  using assms
proof (induction ds arbitrary: m)
  case Nil
  then show ?case by (simp add: option.map_ident)
next
  case (Cons d ds)
  have "push_use site d m = (\<lambda>d'. map_option (add_uses (if d' = d then [site] else [])) (m d'))"
    by (auto simp: push_use_def add_uses_def fun_eq_iff option.map_ident split: option.split)
  then have one: "(if P d then push_use site d m else m) =
      (\<lambda>d'. map_option (add_uses (if d' = d \<and> P d then [site] else [])) (m d'))"
    by (auto simp: fun_eq_iff option.map_ident)
  show ?case unfolding fold_simps comp_def one using Cons
    by (auto simp: fun_eq_iff option.map_comp comp_def)
qed

lemma add_use_eq:
  assumes enum: "enumerates enum"
    and ties: "distinct (map (\<lambda>(d, r). def_line d) (local_defs cfg refs u (use_block cfg u)))"
    and dom: "dom m = set (all_defs refs)"
  shows "add_use enum reaching cfg refs (chain_defs_by_var enum (initial_chains cfg refs)) u m =
    (\<lambda>d. map_option (add_uses (if located reaching cfg u \<and> sees reaching cfg refs u (use_block cfg u) d
        then [use_site_of u (use_block cfg u)] else [])) (m d))"
proof (cases "located reaching cfg u")
  case False
  then show ?thesis by (auto simp: located_def add_use_def fun_eq_iff option.map_ident split: option.split)
next
  case True
  then obtain b rin where b: "is_use u" "line_block cfg (vr_line u) = Some b" "reaching_in reaching b = Some rin"
    by (auto simp: located_def split: option.splits)
  have rin: "rin = get_set (reaching_in reaching) b" using b(3) by (simp add: get_set_def)
  let ?ds = "filter (\<lambda>d. vr_name (def_ref refs d) = vr_name u) (enum (set (all_defs refs)))"
  let ?xs = "enum (set (map fst (local_defs cfg refs u b)))"
  let ?P = "\<lambda>d. case max_by_key def_line ?xs of Some l \<Rightarrow> d = l | None \<Rightarrow> d \<in> rin"
  have xs: "set ?xs = fst ` set (local_defs cfg refs u b)" using enum by (simp add: enumerates_def)
  have ds: "d \<in> set ?ds \<longleftrightarrow> (d, def_ref refs d) \<in> set (collect_defs refs) \<and> vr_name (def_ref refs d) = vr_name u" for d
    using enum by (auto simp: enumerates_def all_defs_ref)
  have dist: "distinct ?ds" using enum by (simp add: enumerates_def)
  have ties': "distinct (map (\<lambda>(d, r). def_line d) (local_defs cfg refs u b))" using ties b(2) by simp
  have P: "d \<in> set ?ds \<and> ?P d \<longleftrightarrow> sees reaching cfg refs u b d" for d
  proof (cases "d \<in> set ?ds")
    case True
    then have "(d, def_ref refs d) \<in> set (collect_defs refs)" "vr_name (def_ref refs d) = vr_name u"
      unfolding ds by blast+
    from sees_choice [OF ties' this xs] True show ?thesis unfolding rin by simp
  next
    case False
    have "\<not> sees reaching cfg refs u b d"
    proof
      assume "sees reaching cfg refs u b d"
      then obtain r where r: "(d, r) \<in> set (collect_defs refs)" "vr_name r = vr_name u"
        unfolding sees_def by blast
      with collect_defs_nth [OF r(1)] have "d \<in> set ?ds" unfolding ds by (simp add: def_ref_def)
      with False show False ..
    qed
    with False show ?thesis by blast
  qed
  have "add_use enum reaching cfg refs (chain_defs_by_var enum (initial_chains cfg refs)) u m =
      fold (\<lambda>d chain_map. if ?P d then push_use (use_site_of u b) d chain_map else chain_map) ?ds m"
    by (simp add: add_use_def b chain_defs_by_var_eq [OF enum] Let_def)
  also have "\<dots> = (\<lambda>d. map_option (add_uses (if sees reaching cfg refs u b d then [use_site_of u b] else [])) (m d))"
    unfolding push_uses_fold [OF dist] P ..
  finally show ?thesis using True b(2) by (simp cong: if_cong)
qed

lemma build_def_use_chains_eq:
  assumes enum: "enumerates enum" and ties: "no_ties cfg refs"
  shows "build_def_use_chains enum reaching cfg refs =
    map (\<lambda>d. \<lparr>du_definition = def_site_of cfg (def_ref refs d),
        du_uses = map (\<lambda>u. use_site_of u (use_block cfg u))
          (filter (\<lambda>u. located reaching cfg u \<and> sees reaching cfg refs u (use_block cfg u) d) refs)\<rparr>)
      (enum (set (all_defs refs)))"
proof -
  let ?by_var = "chain_defs_by_var enum (initial_chains cfg refs)"
  let ?uses = "\<lambda>us d. map (\<lambda>u. use_site_of u (use_block cfg u))
      (filter (\<lambda>u. located reaching cfg u \<and> sees reaching cfg refs u (use_block cfg u) d) us)"
  have fold: "set us \<subseteq> set refs \<Longrightarrow> fold (add_use enum reaching cfg refs ?by_var) us (initial_chains cfg refs) =
      (\<lambda>d. map_option (add_uses (?uses us d)) (initial_chains cfg refs d))" for us
  proof (induction us rule: rev_induct)
    case Nil
    then show ?case by (simp add: option.map_ident)
  next
    case (snoc u us)
    have u: "distinct (map (\<lambda>(d, r). def_line d) (local_defs cfg refs u (use_block cfg u)))"
      using ties snoc.prems by (simp add: no_ties_def)
    let ?m = "\<lambda>d. map_option (add_uses (?uses us d)) (initial_chains cfg refs d)"
    have "dom ?m = set (all_defs refs)" by (auto simp: dom_initial_chains [symmetric, where cfg = cfg] dom_def)
    note add = add_use_eq [where reaching = reaching, OF enum u this]
    have IH: "fold (add_use enum reaching cfg refs ?by_var) us (initial_chains cfg refs) = ?m"
      using snoc by simp
    have "fold (add_use enum reaching cfg refs ?by_var) (us @ [u]) (initial_chains cfg refs) =
        add_use enum reaching cfg refs ?by_var u ?m"
      unfolding fold_append comp_def IH by simp
    also have "\<dots> = (\<lambda>d. map_option (add_uses (?uses (us @ [u]) d)) (initial_chains cfg refs d))"
      unfolding add option.map_comp by (auto simp: fun_eq_iff comp_def)
    finally show ?case .
  qed
  let ?m = "\<lambda>d. map_option (add_uses (?uses refs d)) (initial_chains cfg refs d)"
  have dom: "dom ?m = set (all_defs refs)" by (auto simp: dom_initial_chains [symmetric, where cfg = cfg] dom_def)
  have "set (enum (set (all_defs refs))) = set (all_defs refs)" using enum by (simp add: enumerates_def)
  then show ?thesis
    unfolding build_def_use_chains_def Let_def fold [OF subset_refl] dom
    by (auto simp: initial_chains_eq add_uses_def)
qed

section \<open>Paths without a definition\<close>

text \<open>A path never needs more steps than there are sources of edges.\<close>

lemma relpow_shorten:
  fixes E :: "('a \<times> 'a) set"
  assumes "finite A" and "E \<subseteq> A \<times> UNIV" and "(x, y) \<in> E ^^ n"
  shows "\<exists>m \<le> card A. (x, y) \<in> E ^^ m"
  using assms(3)
proof (induction n rule: less_induct)
  case (less n)
  show ?case
  proof (cases "n \<le> card A")
    case False
    from less.prems obtain f where f: "f 0 = x" "f n = y" "\<forall>i < n. (f i, f (Suc i)) \<in> E"
      unfolding relpow_fun_conv by blast
    have "f ` {..<n} \<subseteq> A" using f(3) assms(2) by auto
    then have "card (f ` {..<n}) < n" using card_mono [OF assms(1)] False by (meson le_less_trans not_le)
    then have "\<not> inj_on f {..<n}" using card_image [of f "{..<n}"] by auto
    then obtain i j where ij: "i < j" "j < n" "f i = f j"
      by (auto simp: inj_on_def) (metis nat_neq_iff)
    have "(f 0, f i) \<in> E ^^ i" using f(3) ij by (auto simp: relpow_fun_conv)
    moreover have "(f j, f n) \<in> E ^^ (n - j)"
      unfolding relpow_fun_conv by (rule exI [of _ "\<lambda>k. f (j + k)"]) (use f(3) ij in auto)
    ultimately have "(x, y) \<in> E ^^ (i + (n - j))" using ij(3) f(1,2) by (auto simp: relpow_add)
    moreover have "i + (n - j) < n" using ij by simp
    ultimately show ?thesis using less.IH by blast
  qed (use less.prems in blast)
qed

lemma rtrancl_bounded:
  fixes E :: "('a \<times> 'a) set"
  assumes "finite A" and "E \<subseteq> A \<times> UNIV" and "(x, y) \<in> E\<^sup>*"
  shows "\<exists>m \<le> card A. (x, y) \<in> E ^^ m"
  using relpow_shorten [OF assms(1,2)] assms(3) by (auto simp: rtrancl_power)

text \<open>The edges along which the absence of a definition is propagated.\<close>

definition free_edges :: "cfg_info \<Rightarrow> block_id set \<Rightarrow> (block_id \<times> block_id) set" where
  "free_edges cfg D = {(p, q) \<in> flow cfg. p \<in> set (block_ids cfg) \<and> p \<notin> D}"

lemma insert_succs_fold:
  assumes "fold (\<lambda>succ (no_def, changed). if succ \<notin> no_def then (insert succ no_def, True) else (no_def, changed))
      ss (N, ch) = (N', ch')"
  shows "N' = N \<union> set ss" and "ch' \<longleftrightarrow> ch \<or> N' \<noteq> N"
  using assms
proof (induction ss arbitrary: N ch)
  case (Cons s ss)
  {
    case 1
    with Cons.IH(1) show ?case by (auto split: if_splits)
  next
    case 2
    with Cons.IH(1,2) show ?case by (auto split: if_splits)
  }
qed auto

lemma no_def_block_eq:
  assumes "no_def_block (fresh_successors cfg) D b (N, ch) = (N', ch')"
  shows "N' = N \<union> (if blk_id b \<in> N \<and> blk_id b \<notin> D then {q. (blk_id b, q) \<in> flow cfg} else {})"
    and "ch' \<longleftrightarrow> ch \<or> N' \<noteq> N"
  using assms insert_succs_fold [of "succs_of cfg (blk_id b)" N ch N' ch']
  by (auto simp: no_def_block_def get_list_fresh split: if_splits)

lemma no_def_round:
  assumes "fold (no_def_block (fresh_successors cfg) D) bs (N, ch) = (N', ch')" and "set bs \<subseteq> set (cfg_blocks cfg)"
  shows "N \<subseteq> N'" and "N' \<subseteq> (free_edges cfg D)\<^sup>* `` N"
    and "b \<in> set bs \<Longrightarrow> blk_id b \<in> N \<Longrightarrow> blk_id b \<notin> D \<Longrightarrow> (blk_id b, q) \<in> flow cfg \<Longrightarrow> q \<in> N'"
    and "ch' \<longleftrightarrow> ch \<or> N' \<noteq> N"
proof -
  have "N \<subseteq> N' \<and> N' \<subseteq> (free_edges cfg D)\<^sup>* `` N \<and>
      (\<forall>b \<in> set bs. blk_id b \<in> N \<and> blk_id b \<notin> D \<longrightarrow> (\<forall>q. (blk_id b, q) \<in> flow cfg \<longrightarrow> q \<in> N')) \<and>
      (ch' \<longleftrightarrow> ch \<or> N' \<noteq> N)"
    using assms
  proof (induction bs arbitrary: N ch)
    case (Cons b bs)
    obtain N1 ch1 where s: "no_def_block (fresh_successors cfg) D b (N, ch) = (N1, ch1)" by fastforce
    note one = no_def_block_eq [OF s]
    have "fold (no_def_block (fresh_successors cfg) D) bs (N1, ch1) = (N', ch')" using Cons.prems(1) s by simp
    from Cons.IH [OF this] Cons.prems(2) have IH: "N1 \<subseteq> N'" "N' \<subseteq> (free_edges cfg D)\<^sup>* `` N1"
      "\<forall>b \<in> set bs. blk_id b \<in> N1 \<and> blk_id b \<notin> D \<longrightarrow> (\<forall>q. (blk_id b, q) \<in> flow cfg \<longrightarrow> q \<in> N')"
      "ch' \<longleftrightarrow> ch1 \<or> N' \<noteq> N1" by auto
    have sub: "N \<subseteq> N1" using one(1) by blast
    have "N1 \<subseteq> (free_edges cfg D)\<^sup>* `` N"
    proof
      fix q assume "q \<in> N1"
      then have "q \<in> N \<or> (blk_id b \<in> N \<and> (blk_id b, q) \<in> free_edges cfg D)"
        using one(1) Cons.prems(2) by (auto simp: free_edges_def split: if_splits)
      then show "q \<in> (free_edges cfg D)\<^sup>* `` N" by blast
    qed
    with IH(2) have up: "N' \<subseteq> (free_edges cfg D)\<^sup>* `` N" by (blast intro: rtrancl_trans)
    have new: "blk_id b \<in> N \<and> blk_id b \<notin> D \<longrightarrow> (\<forall>q. (blk_id b, q) \<in> flow cfg \<longrightarrow> q \<in> N')"
      using one(1) IH(1) by auto
    have old: "\<forall>b \<in> set bs. blk_id b \<in> N \<and> blk_id b \<notin> D \<longrightarrow> (\<forall>q. (blk_id b, q) \<in> flow cfg \<longrightarrow> q \<in> N')"
      using IH(3) sub by blast
    have ch: "ch' \<longleftrightarrow> ch \<or> N' \<noteq> N" using IH(1,4) one(2) sub by blast
    show ?case using sub IH(1) up new old ch by simp
  qed auto
  then show "N \<subseteq> N'" "N' \<subseteq> (free_edges cfg D)\<^sup>* `` N"
    "b \<in> set bs \<Longrightarrow> blk_id b \<in> N \<Longrightarrow> blk_id b \<notin> D \<Longrightarrow> (blk_id b, q) \<in> flow cfg \<Longrightarrow> q \<in> N'"
    "ch' \<longleftrightarrow> ch \<or> N' \<noteq> N" by blast+
qed

lemma no_def_rounds_eq:
  assumes "\<And>q j. j \<le> k \<Longrightarrow> q \<in> (free_edges cfg D ^^ j) `` {e} \<Longrightarrow> q \<in> N" and "N \<subseteq> (free_edges cfg D)\<^sup>* `` {e}"
    and "length (cfg_blocks cfg) \<le> k + fuel"
  shows "no_def_rounds (fresh_successors cfg) D (cfg_blocks cfg) fuel N = (free_edges cfg D)\<^sup>* `` {e}"
  using assms
proof (induction fuel arbitrary: N k)
  case 0
  let ?E = "free_edges cfg D"
  have "?E \<subseteq> set (block_ids cfg) \<times> UNIV" by (auto simp: free_edges_def)
  moreover have "card (set (block_ids cfg)) \<le> k" using card_length [of "block_ids cfg"] 0(3) by simp
  ultimately have "q \<in> N" if "(e, q) \<in> ?E\<^sup>*" for q
  proof -
    from rtrancl_bounded [OF _ \<open>?E \<subseteq> set (block_ids cfg) \<times> UNIV\<close> that]
    obtain m where "m \<le> card (set (block_ids cfg))" "(e, q) \<in> ?E ^^ m" by auto
    with 0(1) [of m q] \<open>card (set (block_ids cfg)) \<le> k\<close> show ?thesis by simp
  qed
  with 0(2) show ?case by auto
next
  case (Suc fuel)
  let ?E = "free_edges cfg D"
  obtain N' ch where r: "fold (no_def_block (fresh_successors cfg) D) (cfg_blocks cfg) (N, False) = (N', ch)"
    by fastforce
  note round = no_def_round [OF r subset_refl]
  have step: "q \<in> N'" if "p \<in> N" "(p, q) \<in> ?E" for p q
    using that round(3) by (auto simp: free_edges_def)
  have up: "N' \<subseteq> ?E\<^sup>* `` {e}" using round(2) Suc.prems(2) by (blast intro: rtrancl_trans)
  show ?case
  proof (cases ch)
    case True
    have more: "q \<in> N'" if "j \<le> Suc k" "q \<in> (?E ^^ j) `` {e}" for j q
    proof (cases "j \<le> k")
      case True
      with Suc.prems(1) that(2) round(1) show ?thesis by blast
    next
      case False
      with that have "(e, q) \<in> ?E ^^ Suc k" by (simp add: le_antisym not_less_eq_eq)
      then obtain p where "(e, p) \<in> ?E ^^ k" "(p, q) \<in> ?E" by (auto elim: relpow_Suc_E)
      with Suc.prems(1) [of k p] step show ?thesis by blast
    qed
    from Suc.IH [OF more up] Suc.prems(3) True r show ?thesis by simp
  next
    case False
    with round(4) have N': "N' = N" by simp
    have "e \<in> N" using Suc.prems(1) [of 0 e] by simp
    have "q \<in> N" if "(e, q) \<in> ?E\<^sup>*" for q
      using that by induction (use \<open>e \<in> N\<close> step N' in auto)
    with Suc.prems(2) have "N = ?E\<^sup>* `` {e}" by auto
    with False r N' show ?thesis by simp
  qed
qed

section \<open>Uninitialised uses\<close>

text \<open>The blocks that own a definition of a variable.\<close>

definition var_blocks :: "cfg_info \<Rightarrow> var_ref list \<Rightarrow> string \<Rightarrow> block_id set" where
  "var_blocks cfg refs n =
     {c. \<exists>(d, r) \<in> set (collect_defs refs). vr_name r = n \<and> best_block cfg (vr_line r) = Some c}"

abbreviation var_map :: "var_ref list \<Rightarrow> (string \<rightharpoonup> def_id list)" where
  "var_map refs \<equiv> fold (\<lambda>(d, r). entry_push (vr_name r) d) (collect_defs refs) Map.empty"

lemma var_map_eq:
  "var_map refs n = (if filter (\<lambda>x. vr_name (snd x) = n) (collect_defs refs) = [] then None
     else Some (map fst (filter (\<lambda>x. vr_name (snd x) = n) (collect_defs refs))))"
  using entry_push_fold [of "\<lambda>x. vr_name (snd x)" fst "collect_defs refs" n] by (simp add: case_prod_unfold)

lemma has_undefined_path_eq:
  assumes "length (cfg_blocks cfg) \<le> 100"
  shows "has_undefined_path cfg refs (map fst (filter (\<lambda>x. vr_name (snd x) = n) (collect_defs refs))) b \<longleftrightarrow>
    (entry_block cfg, b) \<in> (free_edges cfg (var_blocks cfg refs n))\<^sup>*"
proof -
  let ?V = "filter (\<lambda>x. vr_name (snd x) = n) (collect_defs refs)"
  let ?own = "\<lambda>d. if ref_index d < length refs then
      (case best_block cfg (vr_line (refs ! ref_index d)) of None \<Rightarrow> [] | Some c \<Rightarrow> [c]) else []"
  have own: "?own d = (case best_block cfg (vr_line r) of None \<Rightarrow> [] | Some c \<Rightarrow> [c])" if "(d, r) \<in> set (collect_defs refs)" for d r
    using that by (simp add: set_collect_defs)
  have D: "set (concat (map ?own (map fst ?V))) = var_blocks cfg refs n"
  proof (intro set_eqI iffI)
    fix c assume "c \<in> set (concat (map ?own (map fst ?V)))"
    then obtain x where x: "x \<in> set ?V" "c \<in> set (?own (fst x))"
      unfolding set_concat set_map by blast
    obtain d r where x_eq: "x = (d, r)" by (cases x)
    with x(1) have d: "(d, r) \<in> set (collect_defs refs)" "vr_name r = n" by simp_all
    have "c \<in> set (?own d)" using x(2) unfolding x_eq fst_conv .
    with d show "c \<in> var_blocks cfg refs n"
      unfolding own [OF d(1)] var_blocks_def by (force split: option.splits)
  next
    fix c assume "c \<in> var_blocks cfg refs n"
    then obtain d r where d: "(d, r) \<in> set (collect_defs refs)" "vr_name r = n" "best_block cfg (vr_line r) = Some c"
      unfolding var_blocks_def by blast
    then have "c \<in> set (?own d)" unfolding own [OF d(1)] by simp
    moreover have "d \<in> fst ` set ?V" using d(1,2) by force
    ultimately show "c \<in> set (concat (map ?own (map fst ?V)))" unfolding set_concat set_map by blast
  qed
  have "no_def_rounds (fresh_successors cfg) (var_blocks cfg refs n) (cfg_blocks cfg) 100 {entry_block cfg} =
      (free_edges cfg (var_blocks cfg refs n))\<^sup>* `` {entry_block cfg}"
    by (rule no_def_rounds_eq [where k = 0]) (use assms in auto)
  then show ?thesis unfolding has_undefined_path_def D Let_def by simp
qed

lemma check_use_iff:
  assumes u: "is_use u" "vr_name u \<notin> P" "line_block cfg (vr_line u) = Some b" and len: "length (cfg_blocks cfg) \<le> 100"
  shows "check_use reaching cfg refs P (var_map refs) u \<noteq> None \<longleftrightarrow>
    local_defs cfg refs u b = [] \<and>
    ((\<forall>(d, r) \<in> set (collect_defs refs). vr_name r = vr_name u \<longrightarrow> d \<notin> get_set (reaching_in reaching) b) \<or>
     (entry_block cfg, b) \<in> (free_edges cfg (var_blocks cfg refs (vr_name u)))\<^sup>*)"
proof -
  let ?V = "filter (\<lambda>x. vr_name (snd x) = vr_name u) (collect_defs refs)"
  let ?local = "\<lambda>d. ref_index d < length refs \<and> line_block cfg (vr_line (refs ! ref_index d)) = Some b \<and>
      vr_line (refs ! ref_index d) < vr_line u"
  let ?in = "\<lambda>d. case reaching_in reaching b of Some rin \<Rightarrow> d \<in> rin | None \<Rightarrow> False"
  have local: "filter ?local (map fst ?V) = [] \<longleftrightarrow> local_defs cfg refs u b = []"
    unfolding filter_empty_conv local_defs_def by (auto simp: set_collect_defs)
  have into: "?in d \<longleftrightarrow> d \<in> get_set (reaching_in reaching) b" for d
    by (simp add: get_set_def split: option.split)
  have none: "filter ?in (map fst ?V) = [] \<longleftrightarrow>
      (\<forall>(d, r) \<in> set (collect_defs refs). vr_name r = vr_name u \<longrightarrow> d \<notin> get_set (reaching_in reaching) b)"
    unfolding filter_empty_conv into by auto
  show ?thesis
  proof (cases "?V = []")
    case True
    then have "\<forall>(d, r) \<in> set (collect_defs refs). vr_name r \<noteq> vr_name u" by (auto simp: filter_empty_conv)
    then have "local_defs cfg refs u b = []" by (auto simp: local_defs_def filter_empty_conv)
    with True \<open>\<forall>(d, r) \<in> set (collect_defs refs). vr_name r \<noteq> vr_name u\<close> u show ?thesis
      by (auto simp: check_use_def var_map_eq)
  next
    case False
    then have "check_use reaching cfg refs P (var_map refs) u \<noteq> None \<longleftrightarrow>
        filter ?local (map fst ?V) = [] \<and>
        (filter ?in (map fst ?V) = [] \<or> has_undefined_path cfg refs (map fst ?V) b)"
      using u by (simp add: check_use_def var_map_eq)
    then show ?thesis unfolding local none has_undefined_path_eq [OF len] .
  qed
qed

lemma check_use_site: "check_use reaching cfg refs P m u = Some w \<Longrightarrow>
    uu_var w = vr_name u \<and> uu_line w = vr_line u \<and> is_use u \<and> vr_name u \<notin> P"
  by (auto simp: check_use_def uninit_use_def split: if_splits option.splits)

text \<open>A use is reported exactly when it may be read before the variable is set.\<close>

lemma detect_uninitialized_iff:
  assumes u: "u \<in> set refs" "is_use u" "vr_name u \<notin> set (params @ globals)" "line_block cfg (vr_line u) = Some b"
    and len: "length (cfg_blocks cfg) \<le> 100"
  shows "(\<exists>w \<in> set (detect_uninitialized reaching cfg refs params globals). uu_var w = vr_name u \<and> uu_line w = vr_line u) \<longleftrightarrow>
    local_defs cfg refs u b = [] \<and>
    ((\<forall>(d, r) \<in> set (collect_defs refs). vr_name r = vr_name u \<longrightarrow> d \<notin> get_set (reaching_in reaching) b) \<or>
     (entry_block cfg, b) \<in> (free_edges cfg (var_blocks cfg refs (vr_name u)))\<^sup>*)"
  (is "?L \<longleftrightarrow> ?R")
proof -
  let ?check = "check_use reaching cfg refs (set (params @ globals)) (var_map refs)"
  have set: "w \<in> set (detect_uninitialized reaching cfg refs params globals) \<longleftrightarrow> (\<exists>v \<in> set refs. ?check v = Some w)" for w
    unfolding detect_uninitialized_def Let_def by (force simp: image_iff)
  note iff = check_use_iff [OF u(2-4) len, of reaching refs]
  show ?thesis
  proof
    assume ?L
    then obtain w where "w \<in> set (detect_uninitialized reaching cfg refs params globals)"
      "uu_var w = vr_name u" "uu_line w = vr_line u" by blast
    moreover from this(1) obtain v where "?check v = Some w" unfolding set by blast
    ultimately obtain v where w: "?check v = Some w" "uu_var w = vr_name u" "uu_line w = vr_line u" by blast
    from check_use_site [OF w(1)] w have v: "is_use v" "vr_name v = vr_name u" "vr_line v = vr_line u" by simp_all
    have "local_defs cfg refs v b = local_defs cfg refs u b" unfolding local_defs_def v ..
    with check_use_iff [OF v(1), of "set (params @ globals)" cfg b reaching refs] w(1) u(3,4) len v show ?R by simp
  next
    assume ?R
    then obtain w where w: "?check u = Some w" using iff by auto
    with u(1) have "w \<in> set (detect_uninitialized reaching cfg refs params globals)" unfolding set by blast
    with check_use_site [OF w] show ?L by blast
  qed
qed

section \<open>The sets of the report\<close>

text \<open>
  The report decides by lines which definitions a block has. It agrees with the owners of the analysis
  when every definition is in exactly one block, or before the first block and in none.
\<close>

definition placed :: "cfg_info \<Rightarrow> nat \<Rightarrow> bool" where
  "placed cfg line \<longleftrightarrow>
     length (filter (in_lines line) (cfg_blocks cfg)) = 1 \<or>
     (filter (in_lines line) (cfg_blocks cfg) = [] \<and> line < fst (blk_lines (hd (cfg_blocks cfg))))"

abbreviation owned :: "cfg_info \<Rightarrow> var_ref list \<Rightarrow> cfg_block \<Rightarrow> def_id \<Rightarrow> var_ref \<Rightarrow> bool" where
  "owned cfg refs \<equiv> owned_by (def_to_block cfg (collect_defs refs))"

lemma owned_in_block:
  assumes d: "(d, r) \<in> set (collect_defs refs)" and b: "b \<in> set (cfg_blocks cfg)" and ids: "distinct (block_ids cfg)"
    and placed: "placed cfg (vr_line r)"
  shows "owned cfg refs b d r \<longleftrightarrow> in_block_or_orphan cfg b (vr_line r)"
  using placed unfolding placed_def
proof
  assume one: "length (filter (in_lines (vr_line r)) (cfg_blocks cfg)) = 1"
  then have "list_ex (in_lines (vr_line r)) (cfg_blocks cfg)"
    by (auto simp: list_ex_iff length_Suc_conv filter_eq_Cons_iff)
  then have "in_block_or_orphan cfg b (vr_line r) \<longleftrightarrow> in_lines (vr_line r) b" by (simp add: in_block_or_orphan_def)
  with owned_by_lines [OF d b ids one] show ?thesis by simp
next
  assume orphan: "filter (in_lines (vr_line r)) (cfg_blocks cfg) = [] \<and>
    vr_line r < fst (blk_lines (hd (cfg_blocks cfg)))"
  then have none: "\<not> in_lines (vr_line r) c" if "c \<in> set (cfg_blocks cfg)" for c
    using that by (auto simp: filter_empty_conv)
  obtain b0 bs where bs: "cfg_blocks cfg = b0 # bs" using b by (cases "cfg_blocks cfg") auto
  have "best_block cfg (vr_line r) = None" using none by (simp add: best_block_None)
  then have "owned cfg refs b d r \<longleftrightarrow> blk_id b0 = blk_id b"
    by (simp add: owned_by_def def_to_block_eq [OF d] bs)
  also have "\<dots> \<longleftrightarrow> b = b0" using ids b bs by (auto simp: distinct_map dest: inj_onD)
  also have "\<dots> \<longleftrightarrow> in_block_or_orphan cfg b (vr_line r)"
  proof
    assume "b = b0"
    with orphan bs none show "in_block_or_orphan cfg b (vr_line r)"
      unfolding in_block_or_orphan_def list_ex_iff by simp
  next
    assume "in_block_or_orphan cfg b (vr_line r)"
    then have "blk_id b0 = blk_id b" using none [OF b] bs by (simp add: in_block_or_orphan_def)
    with ids b bs show "b = b0" by (auto simp: distinct_map dest: inj_onD)
  qed
  finally show ?thesis .
qed

lemma last_def_step_cong:
  "(\<And>d r. (d, r) \<in> set xs \<Longrightarrow> belongs d r \<longleftrightarrow> belongs' d r) \<Longrightarrow>
     fold (last_def_step belongs) xs s = fold (last_def_step belongs') xs s"
  by (rule fold_cong) (auto simp: last_def_step_def)

lemma block_gen_kill_cong:
  assumes "\<And>d r. (d, r) \<in> set xs \<Longrightarrow> belongs d r \<longleftrightarrow> belongs' d r"
  shows "block_gen_kill belongs xs = block_gen_kill belongs' xs"
proof -
  have "fold (\<lambda>(d, r) kill. if m (vr_name r) \<noteq> None \<and> \<not> belongs d r then insert d kill else kill) xs k =
      fold (\<lambda>(d, r) kill. if m (vr_name r) \<noteq> None \<and> \<not> belongs' d r then insert d kill else kill) xs k"
    for m :: "string \<rightharpoonup> def_id" and k
    by (rule fold_cong) (auto simp: assms)
  moreover have "fold (last_def_step belongs) xs s = fold (last_def_step belongs') xs s" for s
    by (rule last_def_step_cong) (rule assms)
  ultimately show ?thesis unfolding block_gen_kill_def by simp
qed

lemma collect_defs_snoc:
  "collect_defs (refs @ [r]) =
     collect_defs refs @ (if is_def r then [(\<lparr>ref_index = length refs, def_line = vr_line r\<rparr>, r)] else [])"
  by (simp add: collect_defs_def enumerate_append_eq)

lemma last_ref_fold:
  "fold (\<lambda>r m. if is_def r \<and> P r then m(vr_name r \<mapsto> r) else m) refs Map.empty =
     (\<lambda>n. map_option (def_ref refs) (fst (fold (last_def_step (\<lambda>d. P)) (collect_defs refs) (Map.empty, {})) n))"
proof (induction refs rule: rev_induct)
  case Nil
  then show ?case by (simp add: collect_defs_def)
next
  case (snoc r refs)
  obtain m k where s: "fold (last_def_step (\<lambda>d. P)) (collect_defs refs) (Map.empty, {}) = (m, k)" by fastforce
  have old: "def_ref (refs @ [r]) d = def_ref refs d" if "m n = Some d" for n d
  proof -
    from last_defs(1) [OF ascending_collect_defs s, of n d] that
    obtain r' where "(d, r') \<in> set (collect_defs refs)" by blast
    then show ?thesis by (simp add: set_collect_defs def_ref_def nth_append)
  qed
  then have same: "map_option (def_ref (refs @ [r])) (m n) = map_option (def_ref refs) (m n)" for n
    by (cases "m n") simp_all
  have new: "def_ref (refs @ [r]) \<lparr>ref_index = length refs, def_line = vr_line r\<rparr> = r" by (simp add: def_ref_def)
  have step: "last_def_step (\<lambda>d. P) (d, r) (m, k) =
      (if P r then (m(vr_name r \<mapsto> d), (case m (vr_name r) of Some prev \<Rightarrow> insert prev k | None \<Rightarrow> k)) else (m, k))" for d
    by (simp add: last_def_step_def)
  show ?case
  proof (cases "is_def r \<and> P r")
    case True
    then show ?thesis using snoc s by (auto simp: collect_defs_snoc step same new fun_eq_iff)
  next
    case False
    then have "fst (fold (last_def_step (\<lambda>d. P)) (collect_defs (refs @ [r])) (Map.empty, {})) = m"
      by (auto simp: collect_defs_snoc s step)
    with False snoc s show ?thesis by (auto simp: same)
  qed
qed

lemma report_sets:
  assumes enum: "enumerates enum_names" and ids: "distinct (block_ids cfg)" and b: "b \<in> set (cfg_blocks cfg)"
    and placed: "\<And>d r. (d, r) \<in> set (collect_defs refs) \<Longrightarrow> placed cfg (vr_line r)"
    and gk: "block_gen_kill (owned cfg refs b) (collect_defs refs) = (gen, kill)"
  shows "set (compute_block_gen enum_names b refs cfg) =
      (\<lambda>d. (def_site_of cfg (def_ref refs d))\<lparr>ds_block := blk_id b\<rparr>) ` gen"
    and "set (compute_block_kill b refs cfg) =
      (\<lambda>d. def_site_of cfg (def_ref refs d)) ` {d \<in> kill. \<not> owned cfg refs b d (def_ref refs d)}"
proof -
  let ?P = "\<lambda>r. in_block_or_orphan cfg b (vr_line r)"
  have own: "owned cfg refs b d r \<longleftrightarrow> ?P r" if "(d, r) \<in> set (collect_defs refs)" for d r
    by (rule owned_in_block [OF that b ids placed [OF that]])
  have gk': "block_gen_kill (\<lambda>d. ?P) (collect_defs refs) = (gen, kill)"
    using gk block_gen_kill_cong [of "collect_defs refs" "owned cfg refs b" "\<lambda>d. ?P", OF own] by simp
  obtain m k where s: "fold (last_def_step (\<lambda>d. ?P)) (collect_defs refs) (Map.empty, {}) = (m, k)" by fastforce
  note last = last_defs [OF ascending_collect_defs s]
  have gen: "d \<in> gen \<longleftrightarrow> (\<exists>n. m n = Some d)" for d
    unfolding block_gen_kill_eq(1) [OF ascending_collect_defs gk'] last(1) by blast
  have dom: "dom m \<subseteq> vr_name ` set refs"
  proof
    fix n assume "n \<in> dom m"
    then have "defines_var (\<lambda>d. ?P) (collect_defs refs) n" unfolding last(3) [symmetric] by (simp add: domIff)
    then show "n \<in> vr_name ` set refs" by (auto simp: defines_var_def set_collect_defs)
  qed
  then have fin: "finite (dom m)" by (rule finite_subset) simp
  have "dom (\<lambda>n. map_option (def_ref refs) (m n)) = dom m" by (auto simp: dom_def)
  then have list: "compute_block_gen enum_names b refs cfg =
      map (\<lambda>n. (def_site_of cfg (def_ref refs (the (m n))))\<lparr>ds_block := blk_id b\<rparr>) (enum_names (dom m))"
    using enumeratesD [OF enum fin] by (auto simp: compute_block_gen_def last_ref_fold s Let_def option.map_sel)
  have "the ` m ` dom m = gen" using gen by (force simp: dom_def image_iff)
  then show "set (compute_block_gen enum_names b refs cfg) =
      (\<lambda>d. (def_site_of cfg (def_ref refs d))\<lparr>ds_block := blk_id b\<rparr>) ` gen"
    unfolding list set_map enumeratesD [OF enum fin] by (auto simp: image_image)
  have vars: "n \<in> set (map vr_name (filter (\<lambda>r. is_def r \<and> ?P r) refs)) \<longleftrightarrow> defines_var (\<lambda>d. ?P) (collect_defs refs) n" for n
  proof
    assume "n \<in> set (map vr_name (filter (\<lambda>r. is_def r \<and> ?P r) refs))"
    then obtain i where i: "i < length refs" "is_def (refs ! i)" "?P (refs ! i)" "vr_name (refs ! i) = n"
      by (auto simp: in_set_conv_nth)
    then have "(\<lparr>ref_index = i, def_line = vr_line (refs ! i)\<rparr>, refs ! i) \<in> set (collect_defs refs)"
      by (simp add: set_collect_defs)
    with i show "defines_var (\<lambda>d. ?P) (collect_defs refs) n" unfolding defines_var_def by blast
  qed (auto simp: defines_var_def set_collect_defs)
  have kill: "d \<in> kill \<and> \<not> owned cfg refs b d (def_ref refs d) \<longleftrightarrow>
      d \<in> set (all_defs refs) \<and> \<not> ?P (def_ref refs d) \<and>
      defines_var (\<lambda>d. ?P) (collect_defs refs) (vr_name (def_ref refs d))" for d
  proof (cases "d \<in> set (all_defs refs)")
    case True
    then have d: "(d, def_ref refs d) \<in> set (collect_defs refs)" by (simp add: all_defs_ref)
    have "d \<in> kill \<longleftrightarrow> (if ?P (def_ref refs d) then later_def (\<lambda>d. ?P) (collect_defs refs) d (def_ref refs d)
        else defines_var (\<lambda>d. ?P) (collect_defs refs) (vr_name (def_ref refs d)))"
      using block_gen_kill_eq(2) [OF ascending_collect_defs gk', of d] d collect_defs_fun [OF d] by blast
    with True own [OF d] show ?thesis by simp
  next
    case False
    then have "d \<notin> kill"
      using block_gen_kill_eq(2) [OF ascending_collect_defs gk', of d] by (auto simp: set_all_defs)
    with False show ?thesis by simp
  qed
  have "set (filter (\<lambda>r. is_def r \<and> vr_name r \<in> set (map vr_name (filter (\<lambda>r. is_def r \<and> ?P r) refs)) \<and> \<not> ?P r) refs) =
      def_ref refs ` {d \<in> kill. \<not> owned cfg refs b d (def_ref refs d)}" (is "?A = ?B")
  proof (intro equalityI subsetI)
    fix r assume "r \<in> ?A"
    then obtain i where i: "i < length refs" "refs ! i = r" and r: "is_def r" "\<not> ?P r"
      "defines_var (\<lambda>d. ?P) (collect_defs refs) (vr_name r)"
      unfolding vars [symmetric] by (auto simp: in_set_conv_nth)
    let ?d = "\<lparr>ref_index = i, def_line = vr_line r\<rparr>"
    have "(?d, r) \<in> set (collect_defs refs)" "def_ref refs ?d = r" using i r(1) by (simp_all add: set_collect_defs def_ref_def)
    then have "?d \<in> kill \<and> \<not> owned cfg refs b ?d (def_ref refs ?d)"
      using r kill [of ?d] by (auto simp: set_all_defs)
    with \<open>def_ref refs ?d = r\<close> show "r \<in> ?B" by (metis (mono_tags, lifting) imageI mem_Collect_eq)
  next
    fix r assume "r \<in> ?B"
    then obtain d where d: "r = def_ref refs d" "d \<in> set (all_defs refs)" "\<not> ?P r"
      "defines_var (\<lambda>d. ?P) (collect_defs refs) (vr_name r)" using kill by blast
    then have "(d, r) \<in> set (collect_defs refs)" by (simp add: all_defs_ref)
    then have "r \<in> set refs" "is_def r" by (auto simp: set_collect_defs)
    with d(3,4) show "r \<in> ?A" unfolding vars [symmetric] by simp
  qed
  then show "set (compute_block_kill b refs cfg) =
      (\<lambda>d. def_site_of cfg (def_ref refs d)) ` {d \<in> kill. \<not> owned cfg refs b d (def_ref refs d)}"
    unfolding compute_block_kill_def Let_def set_map image_comp [symmetric, unfolded comp_def]
    by (simp add: image_image)
qed

end
