(* ===== verification/Chains_Properties.thy ===== *)
theory Chains_Properties
  imports Chains_Correct Dataflow_Properties
begin

text \<open>
  The properties of the chains, the report and the detection of uninitialised uses, on the graph of
  \<open>Dataflow_Properties\<close>.
\<close>

section \<open>Chains\<close>

text \<open>
  C22: When no two earlier definitions of a variable in the block of a use share a line, both kinds of
  chains list one relation, \<open>sees\<close>: a definition is in the use-def chain of a use exactly when the use
  is in the def-use chain of the definition. There is one def-use chain per definition and one use-def
  chain per use in a block of the analysis, each in source order, whatever the order of the hash maps.
\<close>

theorem chains_converse:
  assumes "enumerates enum" and "no_ties cfg refs"
  shows "build_def_use_chains enum reaching cfg refs =
      map (\<lambda>d. \<lparr>du_definition = def_site_of cfg (def_ref refs d),
          du_uses = map (\<lambda>u. use_site_of u (use_block cfg u))
            (filter (\<lambda>u. located reaching cfg u \<and> sees reaching cfg refs u (use_block cfg u) d) refs)\<rparr>)
        (enum (set (all_defs refs))) \<and>
    build_use_def_chains reaching cfg refs =
      map (\<lambda>u. \<lparr>ud_use_site = use_site_of u (use_block cfg u), ud_var = vr_name u,
           ud_reaching_defs = map (\<lambda>(d, r). def_site_of cfg r)
             (filter (\<lambda>(d, r). sees reaching cfg refs u (use_block cfg u) d) (collect_defs refs))\<rparr>)
        (filter (located reaching cfg) refs)"
  using build_def_use_chains_eq [OF assms] build_use_def_chains_eq [OF assms(2)] by blast

definition list_defs :: "def_id set \<Rightarrow> def_id list" where
  "list_defs S = map (\<lambda>(i, l). \<lparr>ref_index = i, def_line = l\<rparr>) (sorted_list_of_set ((\<lambda>d. (ref_index d, def_line d)) ` S))"

lemma enumerates_list_defs: "enumerates list_defs"
proof -
  have "set (list_defs S) = S \<and> distinct (list_defs S)" if "finite S" for S
  proof
    have inj: "inj (\<lambda>(i, l). \<lparr>ref_index = i, def_line = l\<rparr>)" by (auto intro!: injI)
    have "(\<lambda>x. \<lparr>ref_index = ref_index x, def_line = def_line x\<rparr>) = (\<lambda>x :: def_id. x)" by (rule ext) simp
    then have "(\<lambda>(i, l). \<lparr>ref_index = i, def_line = l\<rparr>) ` (\<lambda>d. (ref_index d, def_line d)) ` S = S"
      unfolding image_image prod.case by (simp only: image_ident)
    then show "set (list_defs S) = S" using that by (simp add: list_defs_def)
    show "distinct (list_defs S)"
      unfolding list_defs_def distinct_map using inj_on_subset [OF inj] by simp
  qed
  then show ?thesis by (simp add: enumerates_def)
qed

lemma chains_converse_witness:
  "length (build_use_def_chains (compute_reaching_definitions reach_cfg reach_refs) reach_cfg reach_refs) =
     length (filter (located (compute_reaching_definitions reach_cfg reach_refs) reach_cfg) reach_refs)"
proof -
  have one: "local_defs reach_cfg reach_refs u b = [] \<or> length (local_defs reach_cfg reach_refs u b) = 1"
    if "u \<in> set reach_refs" for u b
    using that by (auto simp: reach_refs_def simple_ref_def local_defs_def collect_defs_def is_def_def reach_cfg_def
        line_block_def in_lines_def)
  have "distinct (map (\<lambda>(d, r). def_line d) (local_defs reach_cfg reach_refs u b))" if "u \<in> set reach_refs" for u b
    using one [OF that, of b]
    by (auto simp: length_Suc_conv)
  then have "no_ties reach_cfg reach_refs" by (simp add: no_ties_def)
  from chains_converse [OF enumerates_list_defs this] show ?thesis by simp
qed

section \<open>Uninitialised uses\<close>

text \<open>
  C23: A use in a block, of a variable that is neither a parameter nor a global, is reported exactly when
  no earlier line of its block defines the variable and either no definition reaches the block on any
  path, or some path leads from the entry to the block through blocks that own no definition of it.
\<close>

theorem uninitialized_exact:
  assumes "distinct (block_ids cfg)" and "length (cfg_blocks cfg) < 100"
    and "u \<in> set refs" and "is_use u" and "vr_name u \<notin> set (params @ globals)"
    and "line_block cfg (vr_line u) = Some b"
  shows "(\<exists>w \<in> set (detect_uninitialized (compute_reaching_definitions cfg refs) cfg refs params globals).
        uu_var w = vr_name u \<and> uu_line w = vr_line u) \<longleftrightarrow>
    local_defs cfg refs u b = [] \<and>
    ((\<forall>(d, r) \<in> set (collect_defs refs). vr_name r = vr_name u \<longrightarrow>
        \<not> reaches_start (owned cfg refs) cfg (collect_defs refs) (set (block_ids cfg)) d b) \<or>
     (entry_block cfg, b) \<in> (free_edges cfg (var_blocks cfg refs (vr_name u)))\<^sup>*)"
proof -
  have ne: "cfg_blocks cfg \<noteq> []" using assms(6) by (auto simp: line_block_def)
  have len: "length (cfg_blocks cfg) \<le> 100" using assms(2) by simp
  show ?thesis
    unfolding detect_uninitialized_iff [OF assms(3-6) len] block_ordered_exact(1) [OF ne assms(1,2)] ..
qed

lemma uninitialized_exact_witness:
  "\<exists>w \<in> set (detect_uninitialized
       (compute_reaching_definitions reach_cfg [simple_ref ''x'' RefDefinition 4, simple_ref ''x'' RefUse 5])
       reach_cfg [simple_ref ''x'' RefDefinition 4, simple_ref ''x'' RefUse 5] [] []).
     uu_var w = ''x'' \<and> uu_line w = 5"
proof -
  let ?refs = "[simple_ref ''x'' RefDefinition 4, simple_ref ''x'' RefUse 5]"
  let ?u = "simple_ref ''x'' RefUse 5"
  have "distinct (block_ids reach_cfg)" "length (cfg_blocks reach_cfg) < 100" by (simp_all add: reach_cfg_def)
  moreover have "?u \<in> set ?refs" "is_use ?u" "vr_name ?u \<notin> set ([] @ [])" by (simp_all add: simple_ref_def is_use_def)
  moreover have "line_block reach_cfg (vr_line ?u) = Some 3" by code_simp
  moreover have "local_defs reach_cfg ?refs ?u 3 = []" by code_simp
  moreover have "(entry_block reach_cfg, 3) \<in> (free_edges reach_cfg (var_blocks reach_cfg ?refs (vr_name ?u)))\<^sup>*"
  proof -
    have "c = 2" if "c \<in> var_blocks reach_cfg ?refs (vr_name ?u)" for c
    proof -
      have "best_block reach_cfg 4 = Some 2"
        by (simp add: best_block_def reach_cfg_def better_block_def in_lines_def)
      with that show ?thesis by (auto simp: var_blocks_def collect_defs_def simple_ref_def is_def_def)
    qed
    then have no: "0 \<notin> var_blocks reach_cfg ?refs (vr_name ?u)" "1 \<notin> var_blocks reach_cfg ?refs (vr_name ?u)" by fastforce+
    have "(0, 1) \<in> flow reach_cfg" "(1, 3) \<in> flow reach_cfg" "{0, 1} \<subseteq> set (block_ids reach_cfg)"
      by (auto simp: flow_def reach_cfg_def)
    with no have "(0, 1) \<in> free_edges reach_cfg (var_blocks reach_cfg ?refs (vr_name ?u))"
      "(1, 3) \<in> free_edges reach_cfg (var_blocks reach_cfg ?refs (vr_name ?u))" by (auto simp: free_edges_def)
    moreover have "entry_block reach_cfg = 0" by (simp add: reach_cfg_def)
    ultimately show ?thesis by (auto intro: rtrancl_trans [OF r_into_rtrancl r_into_rtrancl])
  qed
  ultimately show ?thesis
    using uninitialized_exact [of reach_cfg ?u ?refs "[]" "[]" 3] by (simp add: simple_ref_def)
qed

text \<open>
  Without parameters, a variable that is set on the signature line only is reported, because
  \<open>blocks_with_def\<close> leaves out the definitions of no block.
\<close>

lemma orphan_use_reported:
  "detect_uninitialized_simple
     (compute_reaching_definitions reach_cfg [simple_ref ''p'' RefDefinition 1, simple_ref ''p'' RefUse 5])
     reach_cfg [simple_ref ''p'' RefDefinition 1, simple_ref ''p'' RefUse 5] \<noteq> []"
  by code_simp

section \<open>The report\<close>

text \<open>
  The GEN and KILL lists of the report are the sets the analysis used: for a listed block, GEN is the
  set of the sites of the generated definitions, KILL the sites of the killed definitions of other blocks,
  when every definition is in exactly one block, or before the first block and in none.
\<close>

theorem report_matches_analysis:
  assumes "enumerates enum_names" and "distinct (block_ids cfg)" and "b \<in> set (cfg_blocks cfg)"
    and "\<And>d r. (d, r) \<in> set (collect_defs refs) \<Longrightarrow> placed cfg (vr_line r)"
    and "block_gen_kill (owned cfg refs b) (collect_defs refs) = (gen, kill)"
  shows "set (brd_gen (block_report enum enum_names reaching cfg refs b)) =
      (\<lambda>d. (def_site_of cfg (def_ref refs d))\<lparr>ds_block := blk_id b\<rparr>) ` gen \<and>
    set (brd_kill (block_report enum enum_names reaching cfg refs b)) =
      (\<lambda>d. def_site_of cfg (def_ref refs d)) ` {d \<in> kill. \<not> owned cfg refs b d (def_ref refs d)}"
  using report_sets [OF assms] by (simp add: block_report_def)

lemma report_matches_analysis_witness:
  "\<exists>gen. set (brd_gen (block_report list_defs (sorted_list_of_set :: string set \<Rightarrow> _)
       (compute_reaching_definitions reach_cfg reach_refs) reach_cfg reach_refs
       (hd (cfg_blocks reach_cfg)))) =
     (\<lambda>d. (def_site_of reach_cfg (def_ref reach_refs d))\<lparr>ds_block := 0\<rparr>) ` gen"
proof -
  let ?b = "hd (cfg_blocks reach_cfg)"
  have en: "enumerates (sorted_list_of_set :: string set \<Rightarrow> string list)" by (simp add: enumerates_def)
  have ids: "distinct (block_ids reach_cfg)" by (simp add: reach_cfg_def)
  have b: "?b \<in> set (cfg_blocks reach_cfg)" "blk_id ?b = 0" by (simp_all add: reach_cfg_def)
  have pl: "placed reach_cfg (vr_line r)" if "(d, r) \<in> set (collect_defs reach_refs)" for d r
  proof -
    from that have "vr_line r = 2 \<or> vr_line r = 4"
      by (auto simp: reach_refs_def simple_ref_def collect_defs_def is_def_def)
    then show ?thesis by (elim disjE) (simp_all add: placed_def reach_cfg_def in_lines_def)
  qed
  obtain gen kill where gk: "block_gen_kill (owned reach_cfg reach_refs ?b) (collect_defs reach_refs) = (gen, kill)"
    by fastforce
  show ?thesis
    by (rule exI [of _ gen]) (use report_matches_analysis [OF en ids b(1) pl gk] in \<open>simp add: b(2)\<close>)
qed

end
