(* ===== verification/Text.thy ===== *)
theory Text
  imports Prelude "HOL-Library.List_Lexorder"
begin

text \<open>
  What the components use of Rust's \<open>str\<close>: searching, splitting, trimming, identifiers, and decimal
  numbers read and written. Texts are ASCII, so a byte is a character and an offset is a position in
  the list.
\<close>

section \<open>Characters\<close>

definition char_code :: "char \<Rightarrow> nat" where
  "char_code c = of_char c"

definition is_ascii_digit :: "char \<Rightarrow> bool" where
  "is_ascii_digit c \<longleftrightarrow> 48 \<le> char_code c \<and> char_code c \<le> 57"

definition is_upper :: "char \<Rightarrow> bool" where
  "is_upper c \<longleftrightarrow> 65 \<le> char_code c \<and> char_code c \<le> 90"

definition is_lower :: "char \<Rightarrow> bool" where
  "is_lower c \<longleftrightarrow> 97 \<le> char_code c \<and> char_code c \<le> 122"

definition is_alphabetic :: "char \<Rightarrow> bool" where
  "is_alphabetic c \<longleftrightarrow> is_upper c \<or> is_lower c"

definition is_alphanumeric :: "char \<Rightarrow> bool" where
  "is_alphanumeric c \<longleftrightarrow> is_alphabetic c \<or> is_ascii_digit c"

definition is_word_char :: "char \<Rightarrow> bool" where
  "is_word_char c \<longleftrightarrow> is_alphanumeric c \<or> c = CHR ''_''"

definition is_whitespace :: "char \<Rightarrow> bool" where
  "is_whitespace c \<longleftrightarrow> (9 \<le> char_code c \<and> char_code c \<le> 13) \<or> char_code c = 32"

definition to_lower_char :: "char \<Rightarrow> char" where
  "to_lower_char c = (if is_upper c then char_of (char_code c + 32) else c)"

definition to_lowercase :: "string \<Rightarrow> string" where
  "to_lowercase s = map to_lower_char s"

lemmas char_class_defs = is_alphanumeric_def is_alphabetic_def is_upper_def is_lower_def is_ascii_digit_def
  is_word_char_def is_whitespace_def char_code_def

section \<open>Searching\<close>

definition starts_with :: "string \<Rightarrow> string \<Rightarrow> bool" where
  "starts_with p s \<longleftrightarrow> take (length p) s = p"

definition ends_with :: "string \<Rightarrow> string \<Rightarrow> bool" where
  "ends_with p s \<longleftrightarrow> length p \<le> length s \<and> drop (length s - length p) s = p"

definition strip_prefix :: "string \<Rightarrow> string \<Rightarrow> string option" where
  "strip_prefix p s = (if starts_with p s then Some (drop (length p) s) else None)"

definition strip_suffix :: "string \<Rightarrow> string \<Rightarrow> string option" where
  "strip_suffix p s = (if ends_with p s then Some (take (length s - length p) s) else None)"

text \<open>\<open>s.find(p)\<close> and \<open>s.rfind(p)\<close>: the first and the last position at which \<open>p\<close> occurs.\<close>

fun find_str :: "string \<Rightarrow> string \<Rightarrow> nat option" where
  "find_str p [] = (if p = [] then Some 0 else None)"
| "find_str p (c # s) = (if starts_with p (c # s) then Some 0 else map_option Suc (find_str p s))"

fun rfind_str :: "string \<Rightarrow> string \<Rightarrow> nat option" where
  "rfind_str p [] = (if p = [] then Some 0 else None)"
| "rfind_str p (c # s) =
     (case rfind_str p s of Some i \<Rightarrow> Some (Suc i) | None \<Rightarrow> if starts_with p (c # s) then Some 0 else None)"

definition contains_str :: "string \<Rightarrow> string \<Rightarrow> bool" where
  "contains_str p s \<longleftrightarrow> find_str p s \<noteq> None"

text \<open>\<open>s.splitn(2, sep)\<close> where \<open>sep\<close> occurs.\<close>

definition split_once :: "string \<Rightarrow> string \<Rightarrow> (string \<times> string) option" where
  "split_once sep s = map_option (\<lambda>i. (take i s, drop (i + length sep) s)) (find_str sep s)"

definition trim_start :: "string \<Rightarrow> string" where
  "trim_start s = dropWhile is_whitespace s"

definition trim_end :: "string \<Rightarrow> string" where
  "trim_end s = rev (dropWhile is_whitespace (rev s))"

definition trim :: "string \<Rightarrow> string" where
  "trim s = trim_end (trim_start s)"

text \<open>The first of some attempts that succeeds.\<close>

fun first_some :: "('a \<Rightarrow> 'b option) \<Rightarrow> 'a list \<Rightarrow> 'b option" where
  "first_some f [] = None"
| "first_some f (x # xs) = (case f x of None \<Rightarrow> first_some f xs | Some y \<Rightarrow> Some y)"

lemma first_some_ok: "first_some f xs = Some y \<Longrightarrow> (\<And>x. x \<in> set xs \<Longrightarrow> f x = Some y \<Longrightarrow> P y) \<Longrightarrow> P y"
  by (induction xs) (auto split: option.splits)

text \<open>The order of strings is the order of their bytes.\<close>

definition sort_strings :: "string list \<Rightarrow> string list" where
  "sort_strings = sort_key (map char_code)"

lemma starts_with_append [simp]: "starts_with p (p @ s)"
  by (simp add: starts_with_def)

lemma find_str_le: "find_str p s = Some i \<Longrightarrow> i + length p \<le> length s"
proof (induction s arbitrary: i)
  case (Cons c s)
  then show ?case
    by (auto simp: starts_with_def split: if_splits dest: arg_cong [where f = length])
qed (simp split: if_splits)

lemma find_str_at: "find_str p s = Some i \<Longrightarrow> starts_with p (drop i s)"
  by (induction s arbitrary: i) (auto simp: starts_with_def split: if_splits)

text \<open>A pattern is found at its first possible place.\<close>

lemma find_str_first:
  "(\<And>i. i < length a \<Longrightarrow> \<not> starts_with p (drop i (a @ p @ s))) \<Longrightarrow> find_str p (a @ p @ s) = Some (length a)"
proof (induction a)
  case Nil
  have "starts_with p (p @ s)" by simp
  then show ?case by (cases "p @ s") auto
next
  case (Cons c a)
  have "find_str p (a @ p @ s) = Some (length a)"
  proof (rule Cons.IH)
    fix i assume "i < length a"
    then show "\<not> starts_with p (drop i (a @ p @ s))" using Cons.prems [of "Suc i"] by simp
  qed
  moreover have "\<not> starts_with p (c # a @ p @ s)" using Cons.prems [of 0] by simp
  ultimately show ?case by simp
qed

lemma find_str_None: "find_str p s = None \<longleftrightarrow> (\<forall>i \<le> length s. \<not> starts_with p (drop i s))"
proof (induction s)
  case Nil
  then show ?case by (simp add: starts_with_def)
next
  case (Cons c s)
  have "(\<forall>i \<le> length (c # s). \<not> starts_with p (drop i (c # s))) \<longleftrightarrow>
      \<not> starts_with p (c # s) \<and> (\<forall>i \<le> length s. \<not> starts_with p (drop i s))"
    by (metis Suc_le_mono drop0 drop_Suc_Cons le0 length_Cons not0_implies_Suc)
  with Cons show ?case by auto
qed

lemma dropWhile_hd: "s \<noteq> [] \<Longrightarrow> \<not> P (hd s) \<Longrightarrow> dropWhile P s = s"
  by (cases s) auto

lemma trim_id: "s \<noteq> [] \<Longrightarrow> \<not> is_whitespace (hd s) \<Longrightarrow> \<not> is_whitespace (last s) \<Longrightarrow> trim s = s"
  by (simp add: trim_def trim_start_def trim_end_def dropWhile_hd hd_rev)

lemma trim_Nil [simp]: "trim [] = []"
  by (simp add: trim_def trim_start_def trim_end_def)

text \<open>A pattern does not occur in a text that has fewer of some character.\<close>

definition occurrences :: "char \<Rightarrow> string \<Rightarrow> nat" where
  "occurrences c s = length (filter ((=) c) s)"

lemma occurrences_simps [simp]:
  "occurrences c [] = 0"
  "occurrences c (d # s) = (if c = d then 1 else 0) + occurrences c s"
  "occurrences c (s @ t) = occurrences c s + occurrences c t"
  by (simp_all add: occurrences_def)

lemma occurrences_0: "c \<notin> set s \<Longrightarrow> occurrences c s = 0"
  by (induction s) auto

lemma occurrences_take_drop: "occurrences c (take n s) \<le> occurrences c s" "occurrences c (drop n s) \<le> occurrences c s"
  using occurrences_simps(3) [of c "take n s" "drop n s"] by (simp_all del: occurrences_simps(3))

lemma occurrences_starts_with: "starts_with p s \<Longrightarrow> occurrences c p \<le> occurrences c s"
  unfolding starts_with_def using occurrences_take_drop(1) [of c "length p" s] by simp

lemma occurrences_ends_with: "ends_with p s \<Longrightarrow> occurrences c p \<le> occurrences c s"
  unfolding ends_with_def using occurrences_take_drop(2) [of c "length s - length p" s] by auto

lemma no_find: "occurrences c s < occurrences c p \<Longrightarrow> find_str p s = None"
proof (rule ccontr)
  assume less: "occurrences c s < occurrences c p" and "find_str p s \<noteq> None"
  then obtain i where "find_str p s = Some i" by auto
  from occurrences_starts_with [OF find_str_at [OF this], of c] occurrences_take_drop(2) [of c i s] less
  show False by simp
qed

lemma no_prefix: "occurrences c s < occurrences c p \<Longrightarrow> strip_prefix p s = None"
  using occurrences_starts_with [of p s c] by (auto simp: strip_prefix_def)

lemma no_suffix: "occurrences c s < occurrences c p \<Longrightarrow> strip_suffix p s = None"
  using occurrences_ends_with [of p s c] by (auto simp: strip_suffix_def)

lemma no_suffix_last: "s \<noteq> [] \<Longrightarrow> p \<noteq> [] \<Longrightarrow> last s \<noteq> last p \<Longrightarrow> strip_suffix p s = None"
  by (auto simp: strip_suffix_def ends_with_def last_drop)
    (metis diff_diff_cancel diff_less last_drop length_greater_0_conv)

lemma strip_prefix_append [simp]: "strip_prefix p (p @ s) = Some s"
  by (simp add: strip_prefix_def)

lemma strip_suffix_append [simp]: "strip_suffix p (s @ p) = Some s"
  by (simp add: strip_suffix_def ends_with_def)

text \<open>A pattern starts with a character that no earlier position has.\<close>

lemma find_str_hd: "p \<noteq> [] \<Longrightarrow> hd p \<notin> set a \<Longrightarrow> find_str p (a @ p @ s) = Some (length a)"
proof (rule find_str_first)
  fix i assume p: "p \<noteq> []" "hd p \<notin> set a" and "i < length a"
  then obtain c t where "drop i (a @ p @ s) = c # t" "c \<in> set a"
    by (metis Cons_nth_drop_Suc append_assoc drop_append length_append nth_append nth_mem trans_less_add1)
  with p show "\<not> starts_with p (drop i (a @ p @ s))"
    by (cases p) (auto simp: starts_with_def)
qed

lemma trim_surrounded:
  assumes "s \<noteq> []" and "\<not> is_whitespace (hd s)" and "\<not> is_whitespace (last s)"
    and "\<forall>c \<in> set a. is_whitespace c" and "\<forall>c \<in> set b. is_whitespace c"
  shows "trim (a @ s @ b) = s"
proof -
  have "trim_start (a @ s @ b) = s @ b"
    using assms(1,2,4) by (induction a) (auto simp: trim_start_def dropWhile_append dropWhile_hd)
  moreover have "dropWhile is_whitespace (rev b @ rev s) = dropWhile is_whitespace (rev s)"
    by (rule dropWhile_append2) (use assms(5) in simp)
  then have "trim_end (s @ b) = s"
    using assms(1,3) by (simp add: trim_end_def dropWhile_hd hd_rev)
  ultimately show ?thesis by (simp add: trim_def)
qed

section \<open>Identifiers\<close>

definition is_identifier :: "string \<Rightarrow> bool" where
  "is_identifier s = (case s of [] \<Rightarrow> False | c # cs \<Rightarrow> (is_alphabetic c \<or> c = CHR ''_'') \<and> list_all is_word_char cs)"

lemma is_identifier_word: "is_identifier s \<Longrightarrow> c \<in> set s \<Longrightarrow> is_word_char c"
  by (auto simp: is_identifier_def is_word_char_def is_alphanumeric_def list_all_iff split: list.splits)

lemma word_not_whitespace: "is_word_char c \<Longrightarrow> \<not> is_whitespace c"
  by (auto simp: char_class_defs)

lemma trim_identifier: "is_identifier s \<Longrightarrow> trim s = s"
proof (rule trim_id)
  assume s: "is_identifier s"
  then show "s \<noteq> []" by (auto simp: is_identifier_def)
  then show "\<not> is_whitespace (hd s)" "\<not> is_whitespace (last s)"
    using is_identifier_word [OF s] word_not_whitespace by simp_all
qed

lemma identifier_ends:
  assumes "is_identifier s"
  shows "s \<noteq> []" and "\<not> is_whitespace (hd s)" and "\<not> is_whitespace (last s)"
proof -
  from assms show "s \<noteq> []" by (auto simp: is_identifier_def)
  then show "\<not> is_whitespace (hd s)" "\<not> is_whitespace (last s)"
    using is_identifier_word [OF assms] word_not_whitespace by simp_all
qed

lemma identifier_no_char: "is_identifier s \<Longrightarrow> \<not> is_word_char c \<Longrightarrow> occurrences c s = 0"
  using is_identifier_word by (auto intro!: occurrences_0)

section \<open>Decimal numbers\<close>

definition digit_char :: "nat \<Rightarrow> char" where
  "digit_char d = char_of (d + 48)"

fun nat_string :: "nat \<Rightarrow> string" where
  "nat_string n = (if n < 10 then [digit_char n] else nat_string (n div 10) @ [digit_char (n mod 10)])"

declare nat_string.simps [simp del]

definition int_string :: "int \<Rightarrow> string" where
  "int_string v = (if v < 0 then ''-'' @ nat_string (nat (- v)) else nat_string (nat v))"

definition digits_value :: "string \<Rightarrow> int" where
  "digits_value s = fold (\<lambda>c v. 10 * v + (int (char_code c) - 48)) s 0"

text \<open>\<open>s.parse::<i64>()\<close>: an optional sign, at least one digit, a value that fits.\<close>

definition parse_i64 :: "string \<Rightarrow> i64 option" where
  "parse_i64 s =
     (let (negative, digits) =
            (case s of
               [] \<Rightarrow> (False, [])
             | c # cs \<Rightarrow> if c = CHR ''-'' then (True, cs) else if c = CHR ''+'' then (False, cs) else (False, s));
          v = (if negative then - digits_value digits else digits_value digits)
      in if digits \<noteq> [] \<and> list_all is_ascii_digit digits \<and> in_i64 v then Some v else None)"

lemma digit_char_code: "d < 10 \<Longrightarrow> char_code (digit_char d) = d + 48"
  by (simp add: char_code_def digit_char_def)

lemma digits_value_snoc: "digits_value (s @ [c]) = 10 * digits_value s + (int (char_code c) - 48)"
  by (simp add: digits_value_def)

lemma nat_string_digits: "c \<in> set (nat_string n) \<Longrightarrow> is_ascii_digit c"
proof (induction n arbitrary: c rule: nat_string.induct)
  case (1 n)
  have last: "is_ascii_digit (digit_char (n mod 10))" by (simp add: is_ascii_digit_def digit_char_code)
  show ?case
  proof (cases "n < 10")
    case True
    with 1(2) last show ?thesis by (simp add: nat_string.simps [of n])
  next
    case False
    with 1 last show ?thesis by (auto simp: nat_string.simps [of n])
  qed
qed

lemma digits_value_nat_string: "digits_value (nat_string n) = int n"
proof (induction n rule: nat_string.induct)
  case (1 n)
  show ?case
  proof (cases "n < 10")
    case True
    then show ?thesis by (simp add: nat_string.simps [of n] digits_value_def digit_char_code)
  next
    case False
    then have "digits_value (nat_string n) = 10 * int (n div 10) + int (n mod 10)"
      by (simp add: nat_string.simps [of n] digits_value_snoc digit_char_code 1)
    also have "\<dots> = int (10 * (n div 10) + n mod 10)"
      by (simp only: of_nat_add of_nat_mult of_nat_numeral)
    also have "\<dots> = int n" by (simp only: mult_div_mod_eq)
    finally show ?thesis .
  qed
qed

lemma nat_string_nonempty [simp]: "nat_string n \<noteq> []"
  by (subst nat_string.simps) simp

lemma parse_int_string: "in_i64 v \<Longrightarrow> parse_i64 (int_string v) = Some v"
proof -
  assume v: "in_i64 v"
  show ?thesis
  proof (cases "v < 0")
    case True
    then have "int_string v = CHR ''-'' # nat_string (nat (- v))" by (simp add: int_string_def)
    moreover have "list_all is_ascii_digit (nat_string (nat (- v)))" by (auto simp: list_all_iff nat_string_digits)
    ultimately show ?thesis using v True by (simp add: parse_i64_def digits_value_nat_string)
  next
    case False
    let ?s = "nat_string (nat v)"
    obtain c cs where s: "?s = c # cs" by (cases ?s) auto
    have digits: "list_all is_ascii_digit ?s" by (auto simp: list_all_iff nat_string_digits)
    then have "c \<noteq> CHR ''-''" "c \<noteq> CHR ''+''" unfolding s by (auto simp: is_ascii_digit_def char_code_def)
    then show ?thesis
      using v False digits digits_value_nat_string [of "nat v"] by (simp add: parse_i64_def int_string_def s)
  qed
qed

lemma int_string_chars: "c \<in> set (int_string v) \<Longrightarrow> is_ascii_digit c \<or> c = CHR ''-''"
  by (auto simp: int_string_def nat_string_digits split: if_splits)

lemma parse_i64_in_range: "parse_i64 s = Some v \<Longrightarrow> in_i64 v"
  by (auto simp: parse_i64_def Let_def split: prod.splits if_splits)

end
