(* ===== verification/Tarjan.thy ===== *)
theory Tarjan
  imports Prelude
begin

text \<open>
  The strongly connected components of \<open>analysis/tarjan.rs\<close>: the work stack of nodes with their phase,
  the node stack and the table of node states of Tarjan's algorithm in its iterative form. The
  head of a list is the top of the corresponding stack. \<open>None\<close> is a panic of an \<open>unwrap\<close> or \<open>expect\<close>.
\<close>

section \<open>Data\<close>

datatype tarjan_phase = Entering | ProcessingSuccessors | Finishing

record node_state =
  ns_index :: nat
  ns_lowlink :: nat
  ns_on_stack :: bool
  ns_successor_idx :: nat

definition node_state_new :: "nat \<Rightarrow> node_state" where
  "node_state_new index = \<lparr>ns_index = index, ns_lowlink = index, ns_on_stack = True, ns_successor_idx = 0\<rparr>"

record scc =
  scc_nodes :: "string list"
  scc_size :: nat
  scc_edges :: "(string \<times> string) list"

definition scc_new :: "string list \<Rightarrow> scc" where
  "scc_new nodes = \<lparr>scc_nodes = nodes, scc_size = length nodes, scc_edges = []\<rparr>"

record 'n tarjan_state =
  index_counter :: nat
  node_states :: "'n \<rightharpoonup> node_state"
  node_stack :: "'n list"
  found_sccs :: "scc list"
  work_stack :: "('n \<times> tarjan_phase) list"

section \<open>One turn of the loop\<close>

definition enter_node :: "'n \<Rightarrow> 'n tarjan_state \<Rightarrow> 'n tarjan_state" where
  "enter_node node s =
     s\<lparr>node_states := (node_states s)(node \<mapsto> node_state_new (index_counter s)),
       index_counter := index_counter s + 1,
       node_stack := node # node_stack s,
       work_stack := (node, ProcessingSuccessors) # work_stack s\<rparr>"

definition process_successor :: "('n \<rightharpoonup> 'n list) \<Rightarrow> 'n \<Rightarrow> 'n tarjan_state \<Rightarrow> 'n tarjan_state option" where
  "process_successor edges node s =
     (let successors = get_list edges node
      in case node_states s node of
           None \<Rightarrow> None
         | Some state \<Rightarrow>
             if ns_successor_idx state < length successors then
               (let successor = successors ! ns_successor_idx state;
                    state = state\<lparr>ns_successor_idx := ns_successor_idx state + 1\<rparr>;
                    states = (node_states s)(node \<mapsto> state)
                in case states successor of
                     None \<Rightarrow>
                       Some (s\<lparr>node_states := states,
                         work_stack := (successor, Entering) # (node, ProcessingSuccessors) # work_stack s\<rparr>)
                   | Some succ_state \<Rightarrow>
                       if ns_on_stack succ_state then
                         Some (s\<lparr>node_states :=
                             states(node \<mapsto> state\<lparr>ns_lowlink := min (ns_lowlink state) (ns_index succ_state)\<rparr>),
                           work_stack := (node, ProcessingSuccessors) # work_stack s\<rparr>)
                       else
                         Some (s\<lparr>node_states := states,
                           work_stack := (node, ProcessingSuccessors) # work_stack s\<rparr>))
             else Some (s\<lparr>work_stack := (node, Finishing) # work_stack s\<rparr>))"

text \<open>The pops of a component: the nodes in the order they leave, the states, the rest of the stack.\<close>

fun pop_component ::
  "'n \<Rightarrow> 'n list \<Rightarrow> ('n \<rightharpoonup> node_state) \<Rightarrow> ('n list \<times> ('n \<rightharpoonup> node_state) \<times> 'n list) option" where
  "pop_component node [] states = None"
| "pop_component node (w # stack) states =
     (case states w of
        None \<Rightarrow> None
      | Some state \<Rightarrow>
          (let states = states(w \<mapsto> state\<lparr>ns_on_stack := False\<rparr>)
           in if w = node then Some ([w], states, stack)
              else map_option (\<lambda>(ws, states, stack). (w # ws, states, stack)) (pop_component node stack states)))"

definition lower_parent :: "'n \<Rightarrow> 'n tarjan_state \<Rightarrow> 'n tarjan_state option" where
  "lower_parent node s =
     (case work_stack s of
        (parent, ProcessingSuccessors) # rest \<Rightarrow>
          (case (node_states s node, node_states s parent) of
             (Some state, Some parent_state) \<Rightarrow>
               Some (s\<lparr>node_states := (node_states s)(parent \<mapsto>
                 parent_state\<lparr>ns_lowlink := min (ns_lowlink parent_state) (ns_lowlink state)\<rparr>)\<rparr>)
           | _ \<Rightarrow> None)
      | _ \<Rightarrow> Some s)"

definition finish_node :: "('n \<Rightarrow> string) \<Rightarrow> 'n \<Rightarrow> 'n tarjan_state \<Rightarrow> 'n tarjan_state option" where
  "finish_node to_scc_string node s =
     (case node_states s node of
        None \<Rightarrow> None
      | Some state \<Rightarrow>
          if ns_lowlink state = ns_index state then
            (case pop_component node (node_stack s) (node_states s) of
               None \<Rightarrow> None
             | Some (component, states, stack) \<Rightarrow>
                 lower_parent node
                   (s\<lparr>node_states := states, node_stack := stack,
                     found_sccs := found_sccs s @ [scc_new (map to_scc_string component)]\<rparr>))
          else lower_parent node s)"

definition tarjan_step ::
  "('n \<Rightarrow> string) \<Rightarrow> ('n \<rightharpoonup> 'n list) \<Rightarrow> 'n \<times> tarjan_phase \<Rightarrow> 'n tarjan_state \<Rightarrow> 'n tarjan_state option" where
  "tarjan_step to_scc_string edges = (\<lambda>(node, phase) s.
     (case phase of
        Entering \<Rightarrow> Some (enter_node node s)
      | ProcessingSuccessors \<Rightarrow> process_successor edges node s
      | Finishing \<Rightarrow> finish_node to_scc_string node s))"

partial_function (option) tarjan_loop ::
  "('n \<Rightarrow> string) \<Rightarrow> ('n \<rightharpoonup> 'n list) \<Rightarrow> 'n tarjan_state \<Rightarrow> 'n tarjan_state option" where
  "tarjan_loop to_scc_string edges s =
     (case work_stack s of
        [] \<Rightarrow> Some s
      | item # rest \<Rightarrow>
          (case tarjan_step to_scc_string edges item (s\<lparr>work_stack := rest\<rparr>) of
             None \<Rightarrow> None
           | Some s \<Rightarrow> tarjan_loop to_scc_string edges s))"

declare tarjan_loop.simps [code]

definition start_from ::
  "('n \<Rightarrow> string) \<Rightarrow> ('n \<rightharpoonup> 'n list) \<Rightarrow> 'n \<Rightarrow> 'n tarjan_state \<Rightarrow> 'n tarjan_state option" where
  "start_from to_scc_string edges start_node s =
     (if node_states s start_node \<noteq> None then Some s
      else tarjan_loop to_scc_string edges (s\<lparr>work_stack := (start_node, Entering) # work_stack s\<rparr>))"

definition tarjan_init :: "'n tarjan_state" where
  "tarjan_init = \<lparr>index_counter = 0, node_states = Map.empty, node_stack = [], found_sccs = [], work_stack = []\<rparr>"

definition find_sccs :: "('n \<Rightarrow> string) \<Rightarrow> 'n list \<Rightarrow> ('n \<rightharpoonup> 'n list) \<Rightarrow> scc list option" where
  "find_sccs to_scc_string nodes edges =
     map_option found_sccs (fold_opt (start_from to_scc_string edges) nodes tarjan_init)"

end
