(* ===== verification/Call_Graph.thy ===== *)
theory Call_Graph
  imports Text Tarjan
begin

text \<open>
  The analyses over the project's call graph: cycles (\<open>analysis/tarjan.rs\<close>, \<open>analysis/architecture.rs\<close>),
  the callers of a function (\<open>analysis/impact.rs\<close>) and uncalled functions (\<open>analysis/dead.rs\<close>,
  \<open>analysis/refcount.rs\<close>). A hash set of edges is the list of its elements in the order in which it is
  iterated. A function is identified by its file and its name, as the code's \<open>PartialEq\<close> does.
\<close>

section \<open>The graph\<close>

type_synonym func_key = "string \<times> string"

record call_edge =
  src_file :: string
  src_func :: string
  dst_file :: string
  dst_func :: string

type_synonym project_call_graph = "call_edge list"

definition src_key :: "call_edge \<Rightarrow> func_key" where
  "src_key e = (src_file e, src_func e)"

definition dst_key :: "call_edge \<Rightarrow> func_key" where
  "dst_key e = (dst_file e, dst_func e)"

definition add_edge :: "call_edge \<Rightarrow> project_call_graph \<Rightarrow> project_call_graph" where
  "add_edge e edges = (if e \<in> set edges then edges else e # edges)"

text \<open>\<open>format!("{}:{}", file.display(), name)\<close>\<close>

definition func_string :: "func_key \<Rightarrow> string" where
  "func_string = (\<lambda>(file, name). file @ '':'' @ name)"

section \<open>Cycles\<close>

datatype cycle_granularity = GranFunction | GranFile

definition quoted :: "string \<Rightarrow> string" where
  "quoted s = [CHR 0x27] @ s @ [CHR 0x27]"

definition parse_granularity :: "string \<Rightarrow> string + cycle_granularity" where
  "parse_granularity s =
     (let l = to_lowercase s
      in if l \<in> {''function'', ''func'', ''fn''} then Inr GranFunction
         else if l \<in> {''file'', ''module''} then Inr GranFile
         else Inl (''Invalid granularity: '' @ s @ ''. Expected '' @ quoted ''function'' @ '' or '' @ quoted ''file''))"

record cycle_summary =
  total_sccs :: nat
  cycle_count :: nat
  largest_cycle :: nat

record cycle_report =
  cr_cycles :: "scc list"
  cr_summary :: cycle_summary
  cr_granularity :: cycle_granularity
  cr_explanation :: string

definition cycle_report_new :: "cycle_granularity \<Rightarrow> cycle_report" where
  "cycle_report_new granularity =
     \<lparr>cr_cycles = [], cr_summary = \<lparr>total_sccs = 0, cycle_count = 0, largest_cycle = 0\<rparr>,
      cr_granularity = granularity, cr_explanation = ''''\<rparr>"

definition add_cycle :: "scc \<Rightarrow> cycle_report \<Rightarrow> cycle_report" where
  "add_cycle scc report =
     (let summary = cr_summary report;
          summary = summary\<lparr>total_sccs := total_sccs summary + 1\<rparr>;
          summary = (if 1 < scc_size scc then
              (let summary = summary\<lparr>cycle_count := cycle_count summary + 1\<rparr>
               in if largest_cycle summary < scc_size scc then summary\<lparr>largest_cycle := scc_size scc\<rparr> else summary)
            else summary)
      in report\<lparr>cr_summary := summary, cr_cycles := cr_cycles report @ [scc]\<rparr>)"

definition with_explanation :: "cycle_report \<Rightarrow> cycle_report" where
  "with_explanation report =
     (let total_nodes = sum_list (map scc_size (cr_cycles report))
      in report\<lparr>cr_explanation := ''Found '' @ nat_string (cycle_count (cr_summary report)) @
           '' cycle(s) involving '' @ nat_string total_nodes @ '' nodes''\<rparr>)"

text \<open>The edges between the nodes of a component; \<open>keys\<close> is the order in which the graph is iterated.\<close>

definition component_edges ::
  "func_key list \<Rightarrow> (func_key \<rightharpoonup> func_key list) \<Rightarrow> scc \<Rightarrow> (string \<times> string) list" where
  "component_edges keys graph c =
     concat (map (\<lambda>node_str.
       concat (map (\<lambda>src.
         if func_string src = node_str then
           map (\<lambda>dst. (node_str, func_string dst))
             (filter (\<lambda>dst. func_string dst \<in> set (scc_nodes c)) (get_list graph src))
         else []) keys)) (scc_nodes c))"

definition report_cycles ::
  "func_key list \<Rightarrow> (func_key \<rightharpoonup> func_key list) \<Rightarrow> cycle_granularity \<Rightarrow> scc list \<Rightarrow> cycle_report" where
  "report_cycles keys graph granularity sccs =
     with_explanation (fold (\<lambda>c report.
       if 1 < scc_size c then add_cycle (c\<lparr>scc_edges := component_edges keys graph c\<rparr>) report else report)
       sccs (cycle_report_new granularity))"

definition graph_nodes :: "(func_key \<rightharpoonup> func_key list) \<Rightarrow> func_key set" where
  "graph_nodes graph = dom graph \<union> (\<Union>src \<in> dom graph. set (get_list graph src))"

definition detect_cycles ::
  "(func_key set \<Rightarrow> func_key list) \<Rightarrow> (func_key \<rightharpoonup> func_key list) \<Rightarrow> cycle_granularity \<Rightarrow> cycle_report option" where
  "detect_cycles enum graph granularity =
     map_option (report_cycles (enum (dom graph)) graph granularity)
       (find_sccs func_string (enum (graph_nodes graph)) graph)"

definition function_graph :: "project_call_graph \<Rightarrow> (func_key \<rightharpoonup> func_key list)" where
  "function_graph call_graph = fold (\<lambda>e. entry_push (src_key e) (dst_key e)) call_graph Map.empty"

definition find_function_level_cycles ::
  "(func_key set \<Rightarrow> func_key list) \<Rightarrow> project_call_graph \<Rightarrow> cycle_report option" where
  "find_function_level_cycles enum call_graph =
     (let graph = function_graph call_graph;
          all_nodes = set (map src_key call_graph) \<union> set (map dst_key call_graph)
      in map_option (report_cycles (enum (dom graph)) graph GranFunction)
           (find_sccs func_string (enum all_nodes) graph))"

section \<open>Matching names\<close>

definition last_segment :: "string \<Rightarrow> string" where
  "last_segment qualified =
     (let dot_idx = rfind_str ''.'' qualified;
          coloncolon_idx = map_option (\<lambda>i. i + 1) (rfind_str ''::'' qualified);
          cut = (case (dot_idx, coloncolon_idx) of
                   (Some d, Some c) \<Rightarrow> Some (max d c)
                 | (Some d, None) \<Rightarrow> Some d
                 | (None, Some c) \<Rightarrow> Some c
                 | (None, None) \<Rightarrow> None)
      in case cut of
           Some i \<Rightarrow> if i < length qualified then drop (i + 1) qualified else qualified
         | None \<Rightarrow> qualified)"

definition names_match :: "string \<Rightarrow> string \<Rightarrow> bool" where
  "names_match candidate target \<longleftrightarrow>
     candidate = target \<or> last_segment candidate = target \<or>
     ((contains_str ''.'' target \<or> contains_str ''::'' target) \<and>
      (candidate = last_segment target \<or> last_segment candidate = last_segment target))"

section \<open>Callers\<close>

definition build_reverse_graph :: "project_call_graph \<Rightarrow> (func_key \<rightharpoonup> func_key list)" where
  "build_reverse_graph call_graph = fold (\<lambda>e. entry_push (dst_key e) (src_key e)) call_graph Map.empty"

text \<open>\<open>CallerTree\<close>; the two fields for type resolution are \<open>None\<close> throughout this analysis.\<close>

datatype caller_tree =
  CallerTree (ct_function: string) (ct_file: string) (ct_caller_count: nat) (ct_callers: "caller_tree list")
    (ct_truncated: bool) (ct_note: "string option")

definition entry_point_tree :: "func_key \<Rightarrow> caller_tree" where
  "entry_point_tree = (\<lambda>(file, func). CallerTree func file 0 [] False (Some ''Entry point - no callers found''))"

definition cycle_tree :: "func_key \<Rightarrow> caller_tree" where
  "cycle_tree = (\<lambda>(file, func). CallerTree func file 0 [] True (Some ''Cycle detected''))"

fun child_trees :: "(func_key \<Rightarrow> caller_tree) \<Rightarrow> func_key set \<Rightarrow> func_key list \<Rightarrow> caller_tree list" where
  "child_trees build visited [] = []"
| "child_trees build visited (caller # callers) =
     (if caller \<in> visited then cycle_tree caller # child_trees build visited callers
      else build caller # child_trees build (insert caller visited) callers)"

primrec build_caller_tree :: "(func_key \<rightharpoonup> func_key list) \<Rightarrow> nat \<Rightarrow> func_key \<Rightarrow> caller_tree" where
  "build_caller_tree reverse_graph 0 key =
     (let callers = get_list reverse_graph key
      in if callers = [] then entry_point_tree key
         else CallerTree (snd key) (fst key) (length callers) [] True
                (Some (''Truncated at depth limit ('' @ nat_string (length callers) @ '' callers)'')))"
| "build_caller_tree reverse_graph (Suc max_depth) key =
     (let callers = get_list reverse_graph key
      in if callers = [] then entry_point_tree key
         else CallerTree (snd key) (fst key) (length callers)
                (child_trees (build_caller_tree reverse_graph max_depth) {key} callers) False None)"

text \<open>The components of a Unix path; \<open>Path::ends_with\<close> and the equality of paths compare them.\<close>

fun split_char :: "char \<Rightarrow> string \<Rightarrow> string list" where
  "split_char sep [] = [[]]"
| "split_char sep (c # s) =
     (if c = sep then [] # split_char sep s else (c # hd (split_char sep s)) # tl (split_char sep s))"

definition path_components :: "string \<Rightarrow> string list" where
  "path_components path =
     (let parts = split_char (CHR ''/'') path
      in (if starts_with ''/'' path then [''/''] else []) @ (if hd parts = ''.'' then [''.''] else []) @
         filter (\<lambda>p. p \<noteq> '''' \<and> p \<noteq> ''.'') parts)"

definition path_ends_with :: "string \<Rightarrow> string \<Rightarrow> bool" where
  "path_ends_with path child \<longleftrightarrow>
     (let p = path_components path; c = path_components child
      in length c \<le> length p \<and> drop (length p - length c) p = c)"

definition passes_filter :: "string option \<Rightarrow> string \<Rightarrow> bool" where
  "passes_filter target_file file =
     (case target_file of
        None \<Rightarrow> True
      | Some f \<Rightarrow> path_ends_with file f \<or> path_components file = path_components f)"

section \<open>Similar names\<close>

definition lev_cell :: "(nat \<Rightarrow> nat \<Rightarrow> nat) \<Rightarrow> nat \<Rightarrow> nat \<Rightarrow> char \<Rightarrow> char \<Rightarrow> nat" where
  "lev_cell matrix i j c1 c2 =
     min (min (matrix i (j + 1) + 1) (matrix (i + 1) j + 1)) (matrix i j + (if c1 = c2 then 0 else 1))"

definition set_cell :: "nat \<Rightarrow> nat \<Rightarrow> nat \<Rightarrow> (nat \<Rightarrow> nat \<Rightarrow> nat) \<Rightarrow> nat \<Rightarrow> nat \<Rightarrow> nat" where
  "set_cell i j v matrix = matrix(i := (matrix i)(j := v))"

text \<open>The matrix has \<open>len1 + 1\<close> rows of \<open>len2 + 1\<close> cells; every access of the code is inside.\<close>

definition levenshtein_distance :: "string \<Rightarrow> string \<Rightarrow> nat" where
  "levenshtein_distance s1 s2 =
     (let len1 = length s1; len2 = length s2
      in if len1 = 0 then len2
         else if len2 = 0 then len1
         else
           (let matrix = (\<lambda>i j. 0);
                matrix = for_range (len1 + 1) (\<lambda>i. set_cell i 0 i) matrix;
                matrix = for_range (len2 + 1) (\<lambda>j. set_cell 0 j j) matrix;
                matrix = for_range len1 (\<lambda>i. for_range len2 (\<lambda>j matrix.
                    set_cell (i + 1) (j + 1) (lev_cell matrix i j (s1 ! i) (s2 ! j)) matrix)) matrix
            in matrix len1 len2))"

definition find_similar_functions ::
  "(string set \<Rightarrow> string list) \<Rightarrow> project_call_graph \<Rightarrow> string \<Rightarrow> string list" where
  "find_similar_functions enum call_graph target =
     (let all_functions = set (map src_func call_graph) \<union> set (map dst_func call_graph);
          target_lower = to_lowercase target
      in sort_strings (take 5 (filter (\<lambda>f.
           (let f_lower = to_lowercase f
            in contains_str target_lower f_lower \<or> contains_str f_lower target_lower \<or>
               levenshtein_distance f_lower target_lower \<le> 3)) (enum all_functions))))"

section \<open>Impact of a change\<close>

datatype impact_error = FunctionNotFound string "string option" "string list"

record impact_report =
  ir_targets :: "string \<rightharpoonup> caller_tree"
  ir_total_targets :: nat

definition add_target ::
  "(func_key \<rightharpoonup> func_key list) \<Rightarrow> nat \<Rightarrow> func_key \<Rightarrow> (string \<rightharpoonup> caller_tree) \<Rightarrow> (string \<rightharpoonup> caller_tree)" where
  "add_target reverse_graph max_depth key targets =
     (case targets (func_string key) of
        Some t \<Rightarrow> targets
      | None \<Rightarrow> targets(func_string key \<mapsto> build_caller_tree reverse_graph max_depth key))"

definition impact_analysis ::
  "(string set \<Rightarrow> string list) \<Rightarrow> project_call_graph \<Rightarrow> string \<Rightarrow> nat \<Rightarrow> string option \<Rightarrow>
     impact_error + impact_report" where
  "impact_analysis enum call_graph target_func max_depth target_file =
     (let reverse_graph = build_reverse_graph call_graph;
          (targets, found_any) = fold (\<lambda>e (targets, found_any).
              if names_match (dst_func e) target_func \<and> passes_filter target_file (dst_file e)
              then (add_target reverse_graph max_depth (dst_key e) targets, True)
              else (targets, found_any)) call_graph (Map.empty, False);
          targets = (if found_any then targets
            else fold (\<lambda>e targets.
              if names_match (src_func e) target_func \<and> passes_filter target_file (src_file e)
              then add_target reverse_graph max_depth (src_key e) targets
              else targets) call_graph targets)
      in if targets = Map.empty then
           Inl (FunctionNotFound target_func target_file (find_similar_functions enum call_graph target_func))
         else Inr \<lparr>ir_targets = targets, ir_total_targets = card (dom targets)\<rparr>)"

section \<open>Uncalled functions\<close>

text \<open>\<open>FunctionRef\<close> without the metadata no modelled analysis reads.\<close>

record function_ref =
  fr_file :: string
  fr_name :: string
  fr_ref_count :: nat
  fr_is_public :: bool
  fr_is_test :: bool
  fr_is_trait_method :: bool
  fr_has_decorator :: bool

definition fr_key :: "function_ref \<Rightarrow> func_key" where
  "fr_key f = (fr_file f, fr_name f)"

definition after_last :: "char \<Rightarrow> string \<Rightarrow> string" where
  "after_last c s = rev (takeWhile (\<lambda>d. d \<noteq> c) (rev s))"

definition bare_name :: "string \<Rightarrow> string" where
  "bare_name name =
     (if CHR ''.'' \<in> set name then after_last (CHR ''.'') name
      else if CHR '':'' \<in> set name then after_last (CHR '':'') name
      else name)"

definition standard_patterns :: "string list" where
  "standard_patterns =
     [''main'', ''__main__'', ''cli'', ''app'', ''run'', ''start'', ''setup'', ''teardown'', ''setUp'', ''tearDown'',
      ''create_app'', ''make_app'', ''ServeHTTP'', ''Handler'', ''handler'', ''OnLoad'', ''OnInit'', ''OnExit'',
      ''onCreate'', ''onStart'', ''onStop'', ''onResume'', ''onPause'', ''onDestroy'', ''onBind'', ''onClick'',
      ''onCreateView'', ''doGet'', ''doPost'', ''doPut'', ''doDelete'', ''init'', ''destroy'', ''service'', ''load'',
      ''configure'', ''request'', ''response'', ''error'', ''invoke'', ''call'', ''execute'', ''register'',
      ''onRequestError'']"

definition matches_custom :: "string \<Rightarrow> string \<Rightarrow> bool" where
  "matches_custom name pattern \<longleftrightarrow>
     name = pattern \<or>
     (ends_with ''*'' pattern \<and> starts_with (rev (dropWhile (\<lambda>c. c = CHR ''*'') (rev pattern))) name) \<or>
     (starts_with ''*'' pattern \<and> ends_with (dropWhile (\<lambda>c. c = CHR ''*'') pattern) name)"

definition is_entry_point_name :: "string \<Rightarrow> string list option \<Rightarrow> bool" where
  "is_entry_point_name name custom_patterns \<longleftrightarrow>
     (let bare = bare_name name
      in name \<in> set standard_patterns \<or>
         (bare \<noteq> name \<and> bare \<in> set standard_patterns) \<or>
         starts_with ''test_'' name \<or> starts_with ''pytest_'' name \<or>
         (bare \<noteq> name \<and> (starts_with ''test_'' bare \<or> starts_with ''pytest_'' bare)) \<or>
         starts_with ''Test'' name \<or> starts_with ''Benchmark'' name \<or> starts_with ''Example'' name \<or>
         starts_with ''test'' bare \<or>
         starts_with ''handle'' bare \<or> starts_with ''Handle'' bare \<or>
         starts_with ''on_'' bare \<or> starts_with ''before_'' bare \<or> starts_with ''after_'' bare \<or>
         (case custom_patterns of None \<Rightarrow> False | Some ps \<Rightarrow> \<exists>p \<in> set ps. matches_custom name p))"

definition php_magic :: "string list" where
  "php_magic =
     [''__construct'', ''__destruct'', ''__call'', ''__callStatic'', ''__get'', ''__set'', ''__isset'', ''__unset'',
      ''__sleep'', ''__wakeup'', ''__serialize'', ''__unserialize'', ''__toString'', ''__invoke'', ''__set_state'',
      ''__clone'', ''__debugInfo'']"

text \<open>The exclusions both analyses make before they classify a function.\<close>

definition implicitly_called :: "string list option \<Rightarrow> function_ref \<Rightarrow> bool" where
  "implicitly_called entry_points f \<longleftrightarrow>
     (let bare = bare_name (fr_name f)
      in is_entry_point_name (fr_name f) entry_points \<or> bare \<in> set php_magic \<or>
         (starts_with ''__'' bare \<and> ends_with ''__'' bare) \<or>
         fr_is_trait_method f \<or> fr_is_test f \<or> fr_has_decorator f)"

text \<open>\<open>DeadCodeReport\<close> without the percentage, a floating-point number.\<close>

record dead_code_report =
  dead_functions :: "function_ref list"
  possibly_dead :: "function_ref list"
  dead_by_file :: "string \<rightharpoonup> string list"
  total_dead :: nat
  total_possibly_dead :: nat
  total_functions :: nat

definition dead_report ::
  "function_ref list \<Rightarrow> function_ref list \<times> function_ref list \<times> (string \<rightharpoonup> string list) \<Rightarrow> dead_code_report" where
  "dead_report all_functions = (\<lambda>(dead, possibly, by_file).
     \<lparr>dead_functions = dead, possibly_dead = possibly, dead_by_file = by_file, total_dead = length dead,
      total_possibly_dead = length possibly, total_functions = length all_functions\<rparr>)"

definition dead_code_analysis ::
  "project_call_graph \<Rightarrow> function_ref list \<Rightarrow> string list option \<Rightarrow> dead_code_report" where
  "dead_code_analysis call_graph all_functions entry_points =
     (let called_functions = set (map dst_key call_graph)
      in dead_report all_functions (fold (\<lambda>f (dead, possibly, by_file).
           if fr_key f \<in> called_functions \<or> implicitly_called entry_points f then (dead, possibly, by_file)
           else if fr_is_public f then (dead, possibly @ [f], by_file)
           else (dead @ [f], possibly, entry_push (fr_file f) (fr_name f) by_file))
           all_functions ([], [], Map.empty)))"

definition is_rescued_by_refcount :: "string \<Rightarrow> (string \<rightharpoonup> nat) \<Rightarrow> bool" where
  "is_rescued_by_refcount name ref_counts \<longleftrightarrow>
     (let bare = bare_name name;
          min_refs = (if length bare < 3 then 5 else 2);
          enough = (\<lambda>n. case ref_counts n of Some k \<Rightarrow> min_refs \<le> k | None \<Rightarrow> False)
      in enough bare \<or> (bare \<noteq> name \<and> enough name))"

definition dead_code_analysis_refcount ::
  "function_ref list \<Rightarrow> (string \<rightharpoonup> nat) \<Rightarrow> string list option \<Rightarrow> dead_code_report" where
  "dead_code_analysis_refcount all_functions ref_counts entry_points =
     dead_report all_functions (fold (\<lambda>f (dead, possibly, by_file).
       if implicitly_called entry_points f \<or> is_rescued_by_refcount (fr_name f) ref_counts then (dead, possibly, by_file)
       else
         (let enriched = f\<lparr>fr_ref_count :=
                (case ref_counts (bare_name (fr_name f)) of Some n \<Rightarrow> n mod 2 ^ 32 | None \<Rightarrow> 0)\<rparr>
          in if fr_is_public f then (dead, possibly @ [enriched], by_file)
             else (dead @ [enriched], possibly, entry_push (fr_file f) (fr_name f) by_file)))
       all_functions ([], [], Map.empty))"

end
