(* ===== verification/Tarjan_Correct.thy ===== *)
theory Tarjan_Correct
  imports Tarjan
begin

text \<open>
  The correctness of the loop of \<open>find_sccs\<close>: the invariant of Tarjan's algorithm on its tables and
  stacks, its preservation by every phase, the termination measure, and what the found components are.
\<close>

section \<open>The invariant\<close>

definition edge_rel :: "('n \<rightharpoonup> 'n list) \<Rightarrow> ('n \<times> 'n) set" where
  "edge_rel edges = {(u, v). v \<in> set (get_list edges u)}"

definition mutually_reachable :: "('n \<rightharpoonup> 'n list) \<Rightarrow> 'n \<Rightarrow> 'n \<Rightarrow> bool" where
  "mutually_reachable edges v w \<longleftrightarrow> (v, w) \<in> (edge_rel edges)\<^sup>* \<and> (w, v) \<in> (edge_rel edges)\<^sup>*"

abbreviation ix :: "('n \<rightharpoonup> node_state) \<Rightarrow> 'n \<Rightarrow> nat" where
  "ix st v \<equiv> ns_index (the (st v))"

abbreviation low :: "('n \<rightharpoonup> node_state) \<Rightarrow> 'n \<Rightarrow> nat" where
  "low st v \<equiv> ns_lowlink (the (st v))"

abbreviation descending :: "('n \<rightharpoonup> node_state) \<Rightarrow> 'n list \<Rightarrow> bool" where
  "descending st \<equiv> sorted_wrt (\<lambda>x y. ix st y < ix st x)"

text \<open>
  The nodes of the node stack and of the call stack \<open>gs\<close> lie in the order they were found; the other
  discovered nodes are those of the components.
\<close>

definition stack_part ::
  "('n \<rightharpoonup> node_state) \<Rightarrow> nat \<Rightarrow> 'n list \<Rightarrow> 'n list \<Rightarrow> 'n set \<Rightarrow> 'n set \<Rightarrow> bool" where
  "stack_part st cnt S gs ens done \<longleftrightarrow>
     inj_on (ix st) (dom st) \<and> (\<forall>v \<in> dom st. ix st v < cnt) \<and> descending st S \<and> descending st gs \<and>
     set gs \<subseteq> set S \<and> dom st = set S \<union> done \<and> set S \<inter> done = {} \<and>
     (\<forall>v \<in> dom st. ns_on_stack (the (st v)) \<longleftrightarrow> v \<in> set S) \<and> ens \<inter> dom st = {}"

text \<open>Of two nodes on the stack the earlier reaches the later; every node reaches an open call below it.\<close>

definition reach_part ::
  "('n \<rightharpoonup> 'n list) \<Rightarrow> 'n set \<Rightarrow> ('n \<rightharpoonup> node_state) \<Rightarrow> 'n list \<Rightarrow> 'n list \<Rightarrow> 'n set \<Rightarrow> bool" where
  "reach_part edges R st S gs ens \<longleftrightarrow>
     (\<forall>x \<in> set S. \<forall>y \<in> set S. ix st x \<le> ix st y \<longrightarrow> (x, y) \<in> (edge_rel edges)\<^sup>*) \<and>
     (\<forall>x \<in> set S. \<exists>g \<in> set gs. ix st g \<le> ix st x \<and> (x, g) \<in> (edge_rel edges)\<^sup>*) \<and>
     (\<forall>v \<in> set gs. low st v \<le> ix st v \<and> (\<exists>w \<in> set S. ix st w = low st v \<and> (v, w) \<in> (edge_rel edges)\<^sup>*)) \<and>
     (\<forall>w \<in> ens. gs \<noteq> [] \<longrightarrow> (hd gs, w) \<in> edge_rel edges) \<and> dom st \<union> ens \<subseteq> R"

definition seen :: "('n \<rightharpoonup> 'n list) \<Rightarrow> ('n \<rightharpoonup> node_state) \<Rightarrow> 'n list \<Rightarrow> 'n \<Rightarrow> 'n set" where
  "seen edges st gs v =
     set (if v \<in> set gs then take (ns_successor_idx (the (st v))) (get_list edges v) else get_list edges v)"

text \<open>\<open>x\<close> was found after the call of \<open>v\<close> and after no later open call.\<close>

definition segment :: "('n \<rightharpoonup> node_state) \<Rightarrow> 'n list \<Rightarrow> 'n \<Rightarrow> 'n \<Rightarrow> bool" where
  "segment st gs v x \<longleftrightarrow> ix st v \<le> ix st x \<and> (\<forall>g \<in> set gs. ix st g \<le> ix st x \<longrightarrow> ix st g \<le> ix st v)"

definition edge_part ::
  "('n \<rightharpoonup> 'n list) \<Rightarrow> ('n \<rightharpoonup> node_state) \<Rightarrow> 'n list \<Rightarrow> 'n list \<Rightarrow> 'n set \<Rightarrow> 'n set \<Rightarrow> bool" where
  "edge_part edges st S gs ens done \<longleftrightarrow>
     (\<forall>v \<in> dom st. seen edges st gs v \<subseteq> dom st \<union> ens) \<and> edge_rel edges `` done \<subseteq> done \<and>
     (\<forall>v \<in> set gs. \<forall>x \<in> set S. \<forall>y \<in> set S. y \<in> seen edges st gs x \<longrightarrow> segment st gs v x \<longrightarrow> low st v \<le> ix st y)"

definition components_part :: "('n \<rightharpoonup> 'n list) \<Rightarrow> 'n list list \<Rightarrow> bool" where
  "components_part edges comps \<longleftrightarrow>
     distinct (concat comps) \<and>
     (\<forall>c \<in> set comps. \<exists>v \<in> set c. set c = {w. mutually_reachable edges v w}) \<and>
     sorted_wrt (\<lambda>c d. \<forall>x \<in> set c. \<forall>y \<in> set d. (x, y) \<notin> edge_rel edges) comps"

definition tarjan_inv ::
  "('n \<rightharpoonup> 'n list) \<Rightarrow> 'n set \<Rightarrow> ('n \<rightharpoonup> node_state) \<Rightarrow> nat \<Rightarrow> 'n list \<Rightarrow> 'n list \<Rightarrow> 'n set \<Rightarrow> 'n list list \<Rightarrow> bool" where
  "tarjan_inv edges R st cnt S gs ens comps \<longleftrightarrow>
     stack_part st cnt S gs ens (set (concat comps)) \<and> reach_part edges R st S gs ens \<and>
     edge_part edges st S gs ens (set (concat comps)) \<and> components_part edges comps"

lemma stack_partD:
  assumes "stack_part st cnt S gs ens done"
  shows "inj_on (ix st) (dom st)" "\<And>v. v \<in> dom st \<Longrightarrow> ix st v < cnt" "descending st S" "descending st gs"
    "set gs \<subseteq> set S" "dom st = set S \<union> done" "set S \<inter> done = {}"
    "\<And>v. v \<in> dom st \<Longrightarrow> ns_on_stack (the (st v)) \<longleftrightarrow> v \<in> set S" "ens \<inter> dom st = {}"
  using assms unfolding stack_part_def by blast+

lemma reach_partD:
  assumes "reach_part edges R st S gs ens"
  shows "\<And>x y. x \<in> set S \<Longrightarrow> y \<in> set S \<Longrightarrow> ix st x \<le> ix st y \<Longrightarrow> (x, y) \<in> (edge_rel edges)\<^sup>*"
    "\<And>x. x \<in> set S \<Longrightarrow> \<exists>g \<in> set gs. ix st g \<le> ix st x \<and> (x, g) \<in> (edge_rel edges)\<^sup>*"
    "\<And>v. v \<in> set gs \<Longrightarrow> low st v \<le> ix st v"
    "\<And>v. v \<in> set gs \<Longrightarrow> \<exists>w \<in> set S. ix st w = low st v \<and> (v, w) \<in> (edge_rel edges)\<^sup>*"
    "\<And>w. w \<in> ens \<Longrightarrow> gs \<noteq> [] \<Longrightarrow> (hd gs, w) \<in> edge_rel edges" "dom st \<subseteq> R" "ens \<subseteq> R"
  using assms unfolding reach_part_def by blast+

lemma edge_partD:
  assumes "edge_part edges st S gs ens done"
  shows "\<And>v. v \<in> dom st \<Longrightarrow> seen edges st gs v \<subseteq> dom st \<union> ens" "edge_rel edges `` done \<subseteq> done"
    "\<And>v x y. v \<in> set gs \<Longrightarrow> x \<in> set S \<Longrightarrow> y \<in> set S \<Longrightarrow> y \<in> seen edges st gs x \<Longrightarrow> segment st gs v x \<Longrightarrow>
      low st v \<le> ix st y"
  using assms unfolding edge_part_def by simp_all

section \<open>Entering a node\<close>

lemma top_call:
  assumes "stack_part st cnt S (v # gs) ens done" and "g \<in> set (v # gs)"
  shows "ix st g \<le> ix st v"
  using stack_partD(4) [OF assms(1)] assms(2) by (auto simp: less_imp_le)

lemma reaches_top:
  assumes sp: "stack_part st cnt S (v # gs) ens done" and rp: "reach_part edges R st S (v # gs) ens"
    and x: "x \<in> set S"
  shows "(x, v) \<in> (edge_rel edges)\<^sup>*"
proof -
  obtain g where g: "g \<in> set (v # gs)" "(x, g) \<in> (edge_rel edges)\<^sup>*" using reach_partD(2) [OF rp x] by blast
  then have "v \<in> set S" "g \<in> set S" using stack_partD(5) [OF sp] by auto
  then have "(g, v) \<in> (edge_rel edges)\<^sup>*" using reach_partD(1) [OF rp] top_call [OF sp g(1)] by simp
  with g(2) show ?thesis by (rule rtrancl_trans)
qed

lemma descending_upd:
  assumes "\<And>v. v \<in> set xs \<Longrightarrow> ix st' v = ix st v" and "descending st xs"
  shows "descending st' xs"
  by (rule sorted_wrt_mono_rel [OF _ assms(2)]) (simp add: assms(1))

lemma descending_distinct: "descending st xs \<Longrightarrow> distinct xs"
  by (induction xs) auto

lemma enter_stack_part:
  assumes sp: "stack_part st cnt S gs {w} done" and st': "st' = st(w \<mapsto> node_state_new cnt)"
  shows "stack_part st' (cnt + 1) (w # S) (w # gs) {} done"
proof -
  note I = stack_partD [OF sp]
  have w: "w \<notin> dom st" using I(9) by simp
  then have w': "w \<notin> set S" "w \<notin> done" using I(6) by simp_all
  have eq: "st' v = st v" if "v \<in> dom st" for v using that w by (auto simp: st')
  have new: "ix st' w = cnt" "ns_on_stack (the (st' w))" by (simp_all add: st' node_state_new_def)
  have dom: "dom st' = insert w (dom st)" by (simp add: st')
  have below: "ix st' z < ix st' w" if "z \<in> dom st" for z unfolding eq [OF that] new by (rule I(2) [OF that])
  have sub: "set S \<subseteq> dom st" "set gs \<subseteq> dom st" using I(5,6) by auto
  have desc: "descending st' (w # xs)" if xs: "set xs \<subseteq> dom st" "descending st xs" for xs
  proof -
    have "descending st' xs" by (rule descending_upd [OF _ xs(2)]) (simp add: eq [OF subsetD [OF xs(1)]])
    moreover have "\<forall>y \<in> set xs. ix st' y < ix st' w" using xs(1) below by blast
    ultimately show ?thesis by simp
  qed
  have 1: "inj_on (ix st') (dom st')"
  proof (rule inj_onI)
    fix x y assume xy: "x \<in> dom st'" "y \<in> dom st'" "ix st' x = ix st' y"
    then consider "x = w" "y = w" | "x = w" "y \<in> dom st" | "y = w" "x \<in> dom st" | "x \<in> dom st" "y \<in> dom st"
      unfolding dom by blast
    then show "x = y"
    proof cases
      case 2 then show ?thesis using below [of y] xy(3) by simp
    next
      case 3 then show ?thesis using below [of x] xy(3) by simp
    next
      case 4 then show ?thesis using inj_onD [OF I(1)] xy(3) by (simp add: eq)
    qed simp
  qed
  have 2: "\<forall>v \<in> dom st'. ix st' v < cnt + 1" using below by (simp add: dom new(1) less_Suc_eq)
  have 3: "\<forall>v \<in> dom st'. ns_on_stack (the (st' v)) \<longleftrightarrow> v \<in> set (w # S)"
    unfolding dom using w new(2) I(8) by (auto simp: eq)
  have 4: "set (w # gs) \<subseteq> set (w # S)" using I(5) by auto
  have 5: "dom st' = set (w # S) \<union> done" unfolding dom I(6) by simp
  have 6: "set (w # S) \<inter> done = {}" using I(7) w' by simp
  have 7: "{} \<inter> dom st' = {}" by (rule Int_empty_left)
  show ?thesis unfolding stack_part_def
    by (intro conjI) (rule 1 2 3 4 5 6 7 desc [OF sub(1) I(3)] desc [OF sub(2) I(4)])+
qed

lemma enter_reach_part:
  assumes sp: "stack_part st cnt S gs {w} done" and rp: "reach_part edges R st S gs {w}"
    and st': "st' = st(w \<mapsto> node_state_new cnt)"
  shows "reach_part edges R st' (w # S) (w # gs) {}"
proof -
  note I = stack_partD [OF sp] and J = reach_partD [OF rp]
  have w: "w \<notin> dom st" using I(9) by simp
  have eq: "st' v = st v" if "v \<in> dom st" for v using that w by (auto simp: st')
  have sub: "set S \<subseteq> dom st" "set gs \<subseteq> set S" using I(5,6) by auto
  have eqS: "st' v = st v" if "v \<in> set S" for v by (rule eq [OF subsetD [OF sub(1) that]])
  have new: "ix st' w = cnt" "low st' w = cnt" by (simp_all add: st' node_state_new_def)
  have below: "ix st' z < ix st' w" if "z \<in> set S" for z
    unfolding eqS [OF that] new by (rule I(2) [OF subsetD [OF sub(1) that]])
  have to_w: "(x, w) \<in> (edge_rel edges)\<^sup>*" if "x \<in> set S" for x
  proof -
    from J(2) [OF that] obtain g where "g \<in> set gs" by blast
    then obtain p ps where gs: "gs = p # ps" by (cases gs) auto
    have "(x, p) \<in> (edge_rel edges)\<^sup>*" by (rule reaches_top [OF sp [unfolded gs] rp [unfolded gs] that])
    moreover have "(p, w) \<in> edge_rel edges" using J(5) [of w] by (simp add: gs)
    ultimately show ?thesis by (rule rtrancl_into_rtrancl)
  qed
  have 1: "\<forall>x \<in> set (w # S). \<forall>y \<in> set (w # S). ix st' x \<le> ix st' y \<longrightarrow> (x, y) \<in> (edge_rel edges)\<^sup>*"
    using J(1) to_w below eqS by (fastforce dest: leD)
  have 2: "\<forall>x \<in> set (w # S). \<exists>g \<in> set (w # gs). ix st' g \<le> ix st' x \<and> (x, g) \<in> (edge_rel edges)\<^sup>*"
  proof
    fix x assume "x \<in> set (w # S)"
    then consider "x = w" | "x \<in> set S" by auto
    then show "\<exists>g \<in> set (w # gs). ix st' g \<le> ix st' x \<and> (x, g) \<in> (edge_rel edges)\<^sup>*"
    proof cases
      case 2
      from J(2) [OF 2] obtain g where g: "g \<in> set gs" "ix st g \<le> ix st x" "(x, g) \<in> (edge_rel edges)\<^sup>*" by blast
      then have "ix st' g \<le> ix st' x" using eqS [OF 2] eqS [OF subsetD [OF sub(2) g(1)]] by simp
      with g show ?thesis by auto
    qed auto
  qed
  have 3: "\<forall>v \<in> set (w # gs). low st' v \<le> ix st' v \<and>
      (\<exists>u \<in> set (w # S). ix st' u = low st' v \<and> (v, u) \<in> (edge_rel edges)\<^sup>*)"
  proof
    fix v assume "v \<in> set (w # gs)"
    then consider "v = w" | "v \<in> set gs" by auto
    then show "low st' v \<le> ix st' v \<and> (\<exists>u \<in> set (w # S). ix st' u = low st' v \<and> (v, u) \<in> (edge_rel edges)\<^sup>*)"
    proof cases
      case 1
      then show ?thesis using new by auto
    next
      case 2
      from J(4) [OF 2] obtain u where u: "u \<in> set S" "ix st u = low st v" "(v, u) \<in> (edge_rel edges)\<^sup>*" by blast
      have v: "st' v = st v" by (rule eqS [OF subsetD [OF sub(2) 2]])
      have "ix st' u = low st' v" unfolding v eqS [OF u(1)] by (rule u(2))
      with u show ?thesis using J(3) [OF 2] unfolding v by auto
    qed
  qed
  have 4: "\<forall>u \<in> {}. w # gs \<noteq> [] \<longrightarrow> (hd (w # gs), u) \<in> edge_rel edges" by simp
  have 5: "dom st' \<union> {} \<subseteq> R" using J(6,7) by (simp add: st')
  show ?thesis unfolding reach_part_def by (intro conjI) (rule 1 2 3 4 5)+
qed

lemma segmentD: "segment st gs v x \<Longrightarrow> g \<in> set gs \<Longrightarrow> ix st g \<le> ix st x \<Longrightarrow> ix st g \<le> ix st v"
  "segment st gs v x \<Longrightarrow> ix st v \<le> ix st x"
  by (auto simp: segment_def)

lemma enter_edge_part:
  assumes sp: "stack_part st cnt S gs {w} done" and rp: "reach_part edges R st S gs {w}"
    and ep: "edge_part edges st S gs {w} done" and st': "st' = st(w \<mapsto> node_state_new cnt)"
  shows "edge_part edges st' (w # S) (w # gs) {} done"
proof -
  note I = stack_partD [OF sp] and J = reach_partD [OF rp] and K = edge_partD [OF ep]
  have w: "w \<notin> dom st" using I(9) by simp
  have sub: "set S \<subseteq> dom st" "set gs \<subseteq> set S" using I(5,6) by auto
  have eq: "st' v = st v" if "v \<in> dom st" for v using that w by (auto simp: st')
  have eqS: "st' v = st v" if "v \<in> set S" for v by (rule eq [OF subsetD [OF sub(1) that]])
  have new: "ix st' w = cnt" "ns_successor_idx (the (st' w)) = 0" by (simp_all add: st' node_state_new_def)
  have below: "ix st' z < ix st' w" if "z \<in> set S" for z
    unfolding eqS [OF that] new by (rule I(2) [OF subsetD [OF sub(1) that]])
  have seen_w: "seen edges st' (w # gs) w = {}" by (simp add: seen_def new)
  have seen: "seen edges st' (w # gs) v = seen edges st gs v" if "v \<in> dom st" for v
    using that w by (auto simp: seen_def eq)
  have 1: "\<forall>v \<in> dom st'. seen edges st' (w # gs) v \<subseteq> dom st' \<union> {}"
  proof
    fix v assume "v \<in> dom st'"
    then consider "v = w" | "v \<in> dom st" by (auto simp: st' split: if_splits)
    then show "seen edges st' (w # gs) v \<subseteq> dom st' \<union> {}"
    proof cases
      case 2
      then show ?thesis using K(1) [OF 2] unfolding seen [OF 2] by (simp add: st')
    qed (simp add: seen_w)
  qed
  have 3: "\<forall>v \<in> set (w # gs). \<forall>x \<in> set (w # S). \<forall>y \<in> set (w # S). y \<in> seen edges st' (w # gs) x \<longrightarrow>
      segment st' (w # gs) v x \<longrightarrow> low st' v \<le> ix st' y"
  proof (intro ballI impI)
    fix v x y assume v: "v \<in> set (w # gs)" and x: "x \<in> set (w # S)" and y: "y \<in> set (w # S)"
      and yx: "y \<in> seen edges st' (w # gs) x" and seg: "segment st' (w # gs) v x"
    have xS: "x \<in> set S" using x yx seen_w by auto
    have vg: "v \<in> set gs" using v segmentD(2) [OF seg] below [OF xS] by auto
    note vS = subsetD [OF sub(2) vg]
    show "low st' v \<le> ix st' y"
    proof (cases "y = w")
      case True
      have "low st' v \<le> ix st' v" using J(3) [OF vg] by (simp add: eqS [OF vS])
      with below [OF vS] True show ?thesis by simp
    next
      case False
      with y have yS: "y \<in> set S" by simp
      have "segment st gs v x"
        unfolding segment_def
      proof (intro conjI ballI impI)
        show "ix st v \<le> ix st x" using segmentD(2) [OF seg] by (simp add: eqS xS vS)
        fix g assume g: "g \<in> set gs" "ix st g \<le> ix st x"
        then show "ix st g \<le> ix st v"
          using segmentD(1) [OF seg, of g] subsetD [OF sub(2) g(1)] by (simp add: eqS xS vS)
      qed
      with K(3) [OF vg xS yS] yx have "low st v \<le> ix st y" by (simp add: seen [OF subsetD [OF sub(1) xS]])
      then show ?thesis by (simp add: eqS vS yS)
    qed
  qed
  show ?thesis unfolding edge_part_def using 1 K(2) 3 by (intro conjI)
qed

lemma tarjan_invD:
  assumes "tarjan_inv edges R st cnt S gs ens comps"
  shows "stack_part st cnt S gs ens (set (concat comps))" "reach_part edges R st S gs ens"
    "edge_part edges st S gs ens (set (concat comps))" "components_part edges comps"
  using assms unfolding tarjan_inv_def by blast+

lemma tarjan_invI:
  assumes "stack_part st cnt S gs ens (set (concat comps))" "reach_part edges R st S gs ens"
    "edge_part edges st S gs ens (set (concat comps))" "components_part edges comps"
  shows "tarjan_inv edges R st cnt S gs ens comps"
  unfolding tarjan_inv_def using assms by (intro conjI)

lemma enter_inv:
  assumes "tarjan_inv edges R st cnt S gs {w} comps"
  shows "tarjan_inv edges R (st(w \<mapsto> node_state_new cnt)) (cnt + 1) (w # S) (w # gs) {} comps"
proof -
  note D = tarjan_invD [OF assms]
  show ?thesis
    by (rule tarjan_invI [OF enter_stack_part [OF D(1) refl] enter_reach_part [OF D(1,2) refl]
          enter_edge_part [OF D(1-3) refl] D(4)])
qed

section \<open>Visiting a successor\<close>

lemma visit_inv:
  assumes inv: "tarjan_inv edges R st cnt S (v # gs) {} comps"
    and closed: "edge_rel edges `` R \<subseteq> R"
    and a: "st v = Some a" "ns_successor_idx a < length (get_list edges v)"
    and y: "y = get_list edges v ! ns_successor_idx a"
    and b: "ns_index b = ns_index a" "ns_on_stack b = ns_on_stack a" "ns_successor_idx b = ns_successor_idx a + 1"
    and lb: "ns_lowlink b = (if y \<in> set S then min (ns_lowlink a) (ix st y) else ns_lowlink a)"
    and ens: "ens = {y} - dom st" and st': "st' = st(v \<mapsto> b)"
  shows "tarjan_inv edges R st' cnt S (v # gs) ens comps"
proof (rule tarjan_invI)
  note D = tarjan_invD [OF inv]
  note I = stack_partD [OF D(1)] and J = reach_partD [OF D(2)] and K = edge_partD [OF D(3)]
  have dom: "dom st' = dom st" using a(1) by (auto simp: st')
  have ix: "ix st' z = ix st z" and on: "ns_on_stack (the (st' z)) = ns_on_stack (the (st z))" for z
    using a(1) b by (simp_all add: st')
  have low: "low st' z = (if z = v then ns_lowlink b else low st z)" for z by (simp add: st')
  have low_le: "low st' z \<le> low st z" for z unfolding low using a(1) lb by simp
  have vS: "v \<in> set S" using I(5) by simp
  have "y \<in> set (get_list edges v)" unfolding y by (rule nth_mem) (rule a(2))
  then have vy: "(v, y) \<in> edge_rel edges" by (simp add: edge_rel_def)
  have yR: "y \<in> R"
    using closed vy J(6) a(1) by blast
  have ens_dom: "ens \<inter> dom st' = {}" unfolding ens dom by blast
  show "stack_part st' cnt S (v # gs) ens (set (concat comps))"
    unfolding stack_part_def dom ix on using I(1-8) ens_dom [unfolded dom] by (intro conjI ballI)
  have L: "\<forall>g \<in> set (v # gs). low st' g \<le> ix st g \<and> (\<exists>w \<in> set S. ix st w = low st' g \<and> (g, w) \<in> (edge_rel edges)\<^sup>*)"
  proof
    fix g assume g: "g \<in> set (v # gs)"
    have "\<exists>w \<in> set S. ix st w = low st' g \<and> (g, w) \<in> (edge_rel edges)\<^sup>*"
    proof (cases "g = v \<and> y \<in> set S \<and> ns_lowlink b = ix st y")
      case True
      with vy show ?thesis by (auto simp: low)
    next
      case False
      then have "low st' g = low st g" using lb a(1) by (auto simp: low min_def)
      with J(4) [OF g] show ?thesis by simp
    qed
    with low_le [of g] J(3) [OF g] show "low st' g \<le> ix st g \<and>
        (\<exists>w \<in> set S. ix st w = low st' g \<and> (g, w) \<in> (edge_rel edges)\<^sup>*)" by (simp add: order_trans)
  qed
  have 4: "\<forall>w \<in> ens. v # gs \<noteq> [] \<longrightarrow> (hd (v # gs), w) \<in> edge_rel edges" using vy by (simp add: ens)
  have 5: "dom st \<union> ens \<subseteq> R" using J(6) yR by (simp add: ens)
  show "reach_part edges R st' S (v # gs) ens"
    unfolding reach_part_def dom ix using J(1,2) by (intro conjI L 4 5) blast+
  have seen: "seen edges st' (v # gs) x = (if x = v then insert y (seen edges st (v # gs) v) else seen edges st (v # gs) x)" for x
    using a b(3) by (simp add: seen_def st' y take_Suc_conv_app_nth)
  have 1: "\<forall>x \<in> dom st. seen edges st' (v # gs) x \<subseteq> dom st \<union> ens"
  proof
    fix x assume x: "x \<in> dom st"
    show "seen edges st' (v # gs) x \<subseteq> dom st \<union> ens"
      using K(1) [OF x] unfolding seen ens by auto
  qed
  have 3: "\<forall>g \<in> set (v # gs). \<forall>x \<in> set S. \<forall>z \<in> set S. z \<in> seen edges st' (v # gs) x \<longrightarrow>
      segment st' (v # gs) g x \<longrightarrow> low st' g \<le> ix st z"
  proof (intro ballI impI)
    fix g x z assume g: "g \<in> set (v # gs)" and x: "x \<in> set S" and z: "z \<in> set S"
      and zx: "z \<in> seen edges st' (v # gs) x" and "segment st' (v # gs) g x"
    then have seg: "segment st (v # gs) g x" by (simp add: segment_def ix)
    show "low st' g \<le> ix st z"
    proof (cases "x = v \<and> z = y")
      case True
      with seg have "ix st g \<le> ix st v" "ix st v \<le> ix st g" by (auto simp: segment_def)
      then have "g = v" using inj_onD [OF I(1), of g v] g a(1) I(5,6) by auto
      with True z show ?thesis by (simp add: low lb)
    next
      case False
      with zx have "z \<in> seen edges st (v # gs) x" by (auto simp: seen split: if_splits)
      from K(3) [OF g x z this seg] low_le show ?thesis by (rule order_trans [rotated])
    qed
  qed
  show "edge_part edges st' S (v # gs) ens (set (concat comps))"
    unfolding edge_part_def dom ix using 1 K(2) 3 by (intro conjI)
  show "components_part edges comps" by (rule D(4))
qed

section \<open>Finishing a node\<close>

text \<open>A node that is not the root of a component: its segment goes to the caller.\<close>

lemma finish_inner_inv:
  assumes inv: "tarjan_inv edges R st cnt S (v # gs) {} comps"
    and pos: "length (get_list edges v) \<le> ns_successor_idx (the (st v))"
    and inner: "low st v \<noteq> ix st v"
  obtains u us where "gs = u # us"
    and "tarjan_inv edges R (st(u \<mapsto> (the (st u))\<lparr>ns_lowlink := min (low st u) (low st v)\<rparr>)) cnt S gs {} comps"
proof -
  note D = tarjan_invD [OF inv]
  note I = stack_partD [OF D(1)] and J = reach_partD [OF D(2)] and K = edge_partD [OF D(3)]
  from J(3) [of v] inner have "low st v < ix st v" by simp
  with J(4) [of v] obtain w where w: "w \<in> set S" "ix st w = low st v" "(v, w) \<in> (edge_rel edges)\<^sup>*" "ix st w < ix st v"
    by auto
  from J(2) [OF w(1)] obtain h where h: "h \<in> set (v # gs)" "ix st h \<le> ix st w" "(w, h) \<in> (edge_rel edges)\<^sup>*" by blast
  with w(4) have "h \<in> set gs" by auto
  then obtain u us where gs: "gs = u # us" by (cases gs) auto
  let ?b = "(the (st u))\<lparr>ns_lowlink := min (low st u) (low st v)\<rparr>"
  define st' where "st' = st(u \<mapsto> ?b)"
  have u: "u \<in> dom st" "v \<in> dom st" using I(5,6) by (auto simp: gs)
  have uv: "ix st u < ix st v" using I(4) by (simp add: gs)
  have dom: "dom st' = dom st" using u by (auto simp: st'_def)
  have ix: "ix st' z = ix st z" and on: "ns_on_stack (the (st' z)) = ns_on_stack (the (st z))"
    and ps: "ns_successor_idx (the (st' z)) = ns_successor_idx (the (st z))" for z by (simp_all add: st'_def)
  have low: "low st' z = (if z = u then min (low st u) (low st v) else low st z)" for z by (simp add: st'_def)
  have low_le: "low st' z \<le> low st z" for z by (simp add: low)
  have desc: "descending st gs" using I(4) by simp
  have "set gs \<subseteq> set S" using I(5) by simp
  then have sp: "stack_part st' cnt S gs {} (set (concat comps))"
    unfolding stack_part_def dom ix on using I(1-3) desc I(6-9) by (intro conjI ballI)
  have v_h: "(v, h) \<in> (edge_rel edges)\<^sup>*" by (rule rtrancl_trans [OF w(3) h(3)])
  have 2: "\<forall>x \<in> set S. \<exists>g \<in> set gs. ix st g \<le> ix st x \<and> (x, g) \<in> (edge_rel edges)\<^sup>*"
  proof
    fix x assume x: "x \<in> set S"
    from J(2) [OF x] obtain g where g: "g \<in> set (v # gs)" "ix st g \<le> ix st x" "(x, g) \<in> (edge_rel edges)\<^sup>*" by blast
    show "\<exists>g \<in> set gs. ix st g \<le> ix st x \<and> (x, g) \<in> (edge_rel edges)\<^sup>*"
    proof (cases "g = v")
      case True
      with g v_h have "(x, h) \<in> (edge_rel edges)\<^sup>*" by (simp add: rtrancl_trans)
      moreover have "ix st h \<le> ix st x" using h(2) w(4) g(2) True by simp
      ultimately show ?thesis using \<open>h \<in> set gs\<close> by blast
    next
      case False
      with g show ?thesis by auto
    qed
  qed
  have "(u, v) \<in> (edge_rel edges)\<^sup>*" using J(1) [of u v] I(5) uv by (simp add: gs)
  then have u_w: "(u, w) \<in> (edge_rel edges)\<^sup>*" using w(3) by (rule rtrancl_trans)
  have 3: "\<forall>g \<in> set gs. low st' g \<le> ix st g \<and> (\<exists>w \<in> set S. ix st w = low st' g \<and> (g, w) \<in> (edge_rel edges)\<^sup>*)"
  proof
    fix g assume g: "g \<in> set gs"
    then have g': "g \<in> set (v # gs)" by simp
    have "\<exists>w \<in> set S. ix st w = low st' g \<and> (g, w) \<in> (edge_rel edges)\<^sup>*"
    proof (cases "g = u \<and> low st v \<le> low st u")
      case True
      with w u_w show ?thesis by (auto simp: low)
    next
      case False
      then have "low st' g = low st g" by (auto simp: low)
      with J(4) [OF g'] show ?thesis by simp
    qed
    with low_le [of g] J(3) [OF g'] show "low st' g \<le> ix st g \<and>
        (\<exists>w \<in> set S. ix st w = low st' g \<and> (g, w) \<in> (edge_rel edges)\<^sup>*)" by (simp add: order_trans)
  qed
  have "dom st \<union> {} \<subseteq> R" using J(6) by simp
  then have rp: "reach_part edges R st' S gs {}"
    unfolding reach_part_def dom ix using J(1) by (intro conjI 2 3) (blast | simp)+
  have seen: "seen edges st' gs x = seen edges st (v # gs) x" for x
    using pos I(4) by (auto simp: seen_def ps)
  have 5: "\<forall>g \<in> set gs. \<forall>x \<in> set S. \<forall>z \<in> set S. z \<in> seen edges st (v # gs) x \<longrightarrow> segment st' gs g x \<longrightarrow> low st' g \<le> ix st z"
  proof (intro ballI impI)
    fix g x z assume g: "g \<in> set gs" and x: "x \<in> set S" and z: "z \<in> set S"
      and zx: "z \<in> seen edges st (v # gs) x" and "segment st' gs g x"
    then have seg: "ix st g \<le> ix st x" "\<And>h. h \<in> set gs \<Longrightarrow> ix st h \<le> ix st x \<Longrightarrow> ix st h \<le> ix st g"
      by (auto simp: segment_def ix)
    have g': "g \<in> set (v # gs)" using g by simp
    show "low st' g \<le> ix st z"
    proof (cases "ix st v \<le> ix st x")
      case True
      then have "segment st (v # gs) v x" using top_call [OF D(1)] by (simp add: segment_def)
      with K(3) [OF _ x z zx] have lv: "low st v \<le> ix st z" by simp
      have "ix st u \<le> ix st g" using seg(2) [of u] True uv by (simp add: gs)
      moreover have "ix st g \<le> ix st u" using desc g by (auto simp: gs less_imp_le)
      ultimately have "g = u" using inj_onD [OF I(1), of g u] g u(1) I(5,6) by auto
      with lv show ?thesis by (simp add: low)
    next
      case False
      then have "segment st (v # gs) g x" using seg by (auto simp: segment_def)
      from K(3) [OF g' x z zx this] low_le show ?thesis by (rule order_trans [rotated])
    qed
  qed
  have "edge_part edges st' S gs {} (set (concat comps))"
    unfolding edge_part_def dom ix seen using K(1,2) by (intro conjI 5) blast+
  then show thesis by (rule that [OF gs tarjan_invI [OF sp rp _ D(4), unfolded st'_def], folded st'_def])
qed

text \<open>The root of a component: the component leaves the stack.\<close>

lemma pop_component_append:
  assumes "v \<notin> set P" and "\<And>w. w \<in> set P \<Longrightarrow> st w \<noteq> None" and "st v \<noteq> None" and "distinct (P @ [v])"
  shows "pop_component v (P @ v # S) st = Some (P @ [v],
    (\<lambda>w. if w \<in> set (P @ [v]) then map_option (\<lambda>a. a\<lparr>ns_on_stack := False\<rparr>) (st w) else st w), S)"
  using assms
proof (induction P arbitrary: st)
  case Nil
  then show ?case by (auto simp: fun_eq_iff)
next
  case (Cons w P)
  from Cons.prems(2) obtain a where a: "st w = Some a" by fastforce
  let ?st = "st(w \<mapsto> a\<lparr>ns_on_stack := False\<rparr>)"
  have "pop_component v (P @ v # S) ?st = Some (P @ [v],
      (\<lambda>w. if w \<in> set (P @ [v]) then map_option (\<lambda>a. a\<lparr>ns_on_stack := False\<rparr>) (?st w) else ?st w), S)"
    by (rule Cons.IH) (use Cons.prems in auto)
  moreover have "w \<noteq> v" "w \<notin> set P" using Cons.prems by auto
  ultimately show ?case using a by (auto simp: fun_eq_iff)
qed

lemma finish_root_inv:
  assumes inv: "tarjan_inv edges R st cnt S (v # gs) {} comps"
    and pos: "length (get_list edges v) \<le> ns_successor_idx (the (st v))"
    and root: "low st v = ix st v"
  obtains P S' st' where "pop_component v S st = Some (P, st', S')"
    and "tarjan_inv edges R st' cnt S' gs {} (comps @ [P])" and "dom st' = dom st"
    and "\<And>z. ix st' z = ix st z" and "\<And>z. low st' z = low st z"
    and "\<And>z. ns_successor_idx (the (st' z)) = ns_successor_idx (the (st z))"
proof -
  note D = tarjan_invD [OF inv]
  note I = stack_partD [OF D(1)] and J = reach_partD [OF D(2)] and K = edge_partD [OF D(3)]
  let ?done = "set (concat comps)" and ?E = "edge_rel edges"
  have vS: "v \<in> set S" using I(5) by simp
  then obtain Q S' where S: "S = Q @ v # S'" by (auto simp: in_set_conv_decomp)
  define P where "P = Q @ [v]"
  have SP: "S = P @ S'" by (simp add: S P_def)
  have order: "ix st y < ix st x" if "x \<in> set P" "y \<in> set S'" for x y
    using I(3) that by (auto simp: SP sorted_wrt_append)
  have above: "ix st v \<le> ix st x" if "x \<in> set P" for x
    using I(3) that by (auto simp: S P_def sorted_wrt_append less_imp_le)
  have "distinct S" using I(3) by (rule descending_distinct)
  then have dist: "distinct P" "distinct S'" "set P \<inter> set S' = {}" by (auto simp: SP)
  define st' where "st' = (\<lambda>w. if w \<in> set P then map_option (\<lambda>a. a\<lparr>ns_on_stack := False\<rparr>) (st w) else st w)"
  have inS: "st w \<noteq> None" if "w \<in> set S" for w using I(6) that by blast
  have pop: "pop_component v S st = Some (P, st', S')"
    unfolding S P_def st'_def by (rule pop_component_append) (use dist inS in \<open>auto simp: S P_def\<close>)
  have dom: "dom st' = dom st" by (auto simp: st'_def split: if_splits)
  have the: "the (st' z) = (if z \<in> set P then (the (st z))\<lparr>ns_on_stack := False\<rparr> else the (st z))" for z
    using inS [of z] by (cases "st z") (auto simp: st'_def SP)
  have ix: "ix st' z = ix st z" and low: "low st' z = low st z"
    and ps: "ns_successor_idx (the (st' z)) = ns_successor_idx (the (st z))" for z by (simp_all add: the)
  have on: "ns_on_stack (the (st' z)) \<longleftrightarrow> z \<in> set S'" if "z \<in> dom st" for z
    using I(8) [OF that] dist(3) by (auto simp: the SP)
  have gs: "set gs \<subseteq> set S'"
  proof
    fix g assume g: "g \<in> set gs"
    then have "ix st g < ix st v" using I(4) by simp
    then have "g \<notin> set P" using above by fastforce
    moreover have "g \<in> set S" using g I(5) by auto
    ultimately show "g \<in> set S'" by (simp add: SP)
  qed
  have sp: "stack_part st' cnt S' gs {} (set (concat (comps @ [P])))"
    unfolding stack_part_def dom ix
  proof (intro conjI)
    show "descending st S'" "descending st gs" using I(3,4) by (simp_all add: SP sorted_wrt_append)
    show "dom st = set S' \<union> set (concat (comps @ [P]))" unfolding I(6) by (auto simp: SP)
    show "set S' \<inter> set (concat (comps @ [P])) = {}" using I(7) dist by (auto simp: SP)
  qed (use I(1,2) gs on in blast)+
  have sub: "set S' \<subseteq> set S" by (simp add: SP)
  have 2: "\<exists>g \<in> set gs. ix st g \<le> ix st x \<and> (x, g) \<in> ?E\<^sup>*" if x: "x \<in> set S'" for x
  proof -
    from J(2) [OF subsetD [OF sub x]] obtain g where g: "g \<in> set (v # gs)" "ix st g \<le> ix st x" "(x, g) \<in> ?E\<^sup>*" by blast
    moreover have "v \<in> set P" by (simp add: P_def)
    then have "g \<noteq> v" using g(2) order [of v x] x by auto
    ultimately show ?thesis by auto
  qed
  have 3: "low st g \<le> ix st g \<and> (\<exists>w \<in> set S'. ix st w = low st g \<and> (g, w) \<in> ?E\<^sup>*)" if g: "g \<in> set gs" for g
  proof -
    have g': "g \<in> set (v # gs)" using g by simp
    from J(4) [OF g'] obtain w where w: "w \<in> set S" "ix st w = low st g" "(g, w) \<in> ?E\<^sup>*" by blast
    have "ix st g < ix st v" using I(4) g by simp
    with J(3) [OF g'] w(2) have "w \<notin> set P" using above by fastforce
    with w J(3) [OF g'] show ?thesis by (auto simp: SP)
  qed
  have rp: "reach_part edges R st' S' gs {}"
    unfolding reach_part_def dom ix low using J(1,6) sub 2 3 by (intro conjI) (blast | simp)+
  have seen: "seen edges st' gs x = seen edges st (v # gs) x" for x
    using pos I(4) by (auto simp: seen_def ps)
  have seen_P: "seen edges st (v # gs) x = set (get_list edges x)" if "x \<in> set P" for x
    using pos gs that dist by (auto simp: seen_def)
  have seg_P: "segment st (v # gs) v x" if "x \<in> set P" for x
    using above [OF that] top_call [OF D(1)] by (simp add: segment_def)
  have closed_P: "?E `` set P \<subseteq> set P \<union> ?done"
  proof (rule subsetI, elim ImageE)
    fix x y assume xy: "(x, y) \<in> ?E" and x: "x \<in> set P"
    then have seen_xy: "y \<in> seen edges st (v # gs) x" by (simp add: seen_P edge_rel_def)
    have xS: "x \<in> set S" using x by (simp add: SP)
    with K(1) [of x] seen_xy I(6) have y: "y \<in> set S \<union> ?done" by blast
    show "y \<in> set P \<union> ?done"
    proof (cases "y \<in> set S")
      case True
      from K(3) [OF _ xS True seen_xy seg_P [OF x]] have "ix st v \<le> ix st y" by (simp add: root)
      then have "y \<notin> set S'" using order [of v y] by (auto simp: P_def)
      with True show ?thesis by (simp add: SP)
    qed (use y in blast)
  qed
  have closed: "?E `` (set P \<union> ?done) \<subseteq> set P \<union> ?done" using closed_P K(2) by blast
  have done_eq: "set (concat (comps @ [P])) = set P \<union> ?done" by auto
  have ep: "edge_part edges st' S' gs {} (set (concat (comps @ [P])))"
    unfolding edge_part_def dom ix seen low done_eq
  proof (intro conjI ballI impI)
    fix g x z assume g: "g \<in> set gs" and x: "x \<in> set S'" and z: "z \<in> set S'"
      and zx: "z \<in> seen edges st (v # gs) x" and "segment st' gs g x"
    then have "ix st g \<le> ix st x" "\<And>h. h \<in> set gs \<Longrightarrow> ix st h \<le> ix st x \<Longrightarrow> ix st h \<le> ix st g"
      by (auto simp: segment_def ix)
    moreover have "ix st x < ix st v" using order [of v x] x by (simp add: P_def)
    ultimately have "segment st (v # gs) g x" by (auto simp: segment_def)
    with g x z zx sub show "low st g \<le> ix st z" by (intro K(3)) auto
  qed (use K(1) closed in auto)
  have reach_P: "x \<in> set P \<longleftrightarrow> mutually_reachable edges v x" for x
  proof
    assume x: "x \<in> set P"
    then have xS: "x \<in> set S" by (simp add: SP)
    show "mutually_reachable edges v x"
      unfolding mutually_reachable_def using J(1) [OF vS xS above [OF x]] reaches_top [OF D(1,2) xS] by blast
  next
    assume m: "mutually_reachable edges v x"
    have stays: "y \<in> A" if "(z, y) \<in> ?E\<^sup>*" "z \<in> A" "?E `` A \<subseteq> A" for z y A
      using that by (induction rule: rtrancl_induct) auto
    have "x \<in> set P \<union> ?done" using m stays [OF _ _ closed] by (auto simp: mutually_reachable_def P_def)
    moreover have "x \<notin> ?done"
    proof
      assume "x \<in> ?done"
      with m have "v \<in> ?done" using stays [OF _ _ K(2)] unfolding mutually_reachable_def by blast
      with I(7) vS show False by blast
    qed
    ultimately show "x \<in> set P" by blast
  qed
  have vP: "v \<in> set P" by (simp add: P_def)
  note C = D(4) [unfolded components_part_def]
  have cp: "components_part edges (comps @ [P])"
    unfolding components_part_def
  proof (intro conjI)
    show "distinct (concat (comps @ [P]))" using C dist I(7) by (auto simp: SP)
    show "\<forall>c \<in> set (comps @ [P]). \<exists>v \<in> set c. set c = {w. mutually_reachable edges v w}"
      using C vP reach_P by auto
    have "\<forall>c \<in> set comps. \<forall>x \<in> set c. \<forall>y \<in> set P. (x, y) \<notin> ?E"
      using K(2) I(7) by (fastforce simp: SP)
    with C show "sorted_wrt (\<lambda>c d. \<forall>x \<in> set c. \<forall>y \<in> set d. (x, y) \<notin> ?E) (comps @ [P])"
      by (simp add: sorted_wrt_append)
  qed
  show thesis by (rule that [OF pop tarjan_invI [OF sp rp ep cp] dom ix low ps])
qed

section \<open>The loop\<close>

abbreviation awaiting :: "'n \<Rightarrow> 'n \<times> tarjan_phase" where
  "awaiting u \<equiv> (u, ProcessingSuccessors)"

definition loop_inv ::
  "('n \<Rightarrow> string) \<Rightarrow> ('n \<rightharpoonup> 'n list) \<Rightarrow> 'n set \<Rightarrow> 'n tarjan_state \<Rightarrow> 'n list list \<Rightarrow> bool" where
  "loop_inv str edges R s comps \<longleftrightarrow>
     found_sccs s = map (\<lambda>c. scc_new (map str c)) comps \<and>
     (let inv = (\<lambda>gs ens. tarjan_inv edges R (node_states s) (index_counter s) (node_stack s) gs ens comps)
      in case work_stack s of
           [] \<Rightarrow> inv [] {}
         | (v, phase) # rest \<Rightarrow>
             (\<exists>us. rest = map awaiting us \<and>
               (case phase of
                  Entering \<Rightarrow> inv us {v}
                | ProcessingSuccessors \<Rightarrow> inv (v # us) {}
                | Finishing \<Rightarrow> inv (v # us) {} \<and>
                    length (get_list edges v) \<le> ns_successor_idx (the (node_states s v)))))"

definition remaining :: "('n \<rightharpoonup> 'n list) \<Rightarrow> ('n \<rightharpoonup> node_state) \<Rightarrow> 'n \<times> tarjan_phase \<Rightarrow> nat" where
  "remaining edges st = (\<lambda>(v, phase).
     if phase = Entering then 0 else length (get_list edges v) - ns_successor_idx (the (st v)))"

definition loop_order :: "('n \<rightharpoonup> 'n list) \<Rightarrow> 'n set \<Rightarrow> ('n tarjan_state \<times> 'n tarjan_state) set" where
  "loop_order edges R =
     measures [\<lambda>s. card (R - dom (node_states s)),
       \<lambda>s. sum_list (map (remaining edges (node_states s)) (work_stack s)),
       \<lambda>s. 2 * length (work_stack s) + (case work_stack s of (v, ProcessingSuccessors) # rest \<Rightarrow> 1 | _ \<Rightarrow> 0)]"

text \<open>What a step promises: no panic, the invariant, less to do, and no discovered node forgotten.\<close>

definition step_ok ::
  "('n \<Rightarrow> string) \<Rightarrow> ('n \<rightharpoonup> 'n list) \<Rightarrow> 'n set \<Rightarrow> 'n tarjan_state \<Rightarrow> 'n tarjan_state option \<Rightarrow> bool" where
  "step_ok str edges R s r \<longleftrightarrow>
     (\<exists>s' comps. r = Some s' \<and> loop_inv str edges R s' comps \<and> (s', s) \<in> loop_order edges R \<and>
       dom (node_states s) \<subseteq> dom (node_states s'))"

lemma remaining_map_awaiting:
  assumes "\<And>u. u \<in> set us \<Longrightarrow> ns_successor_idx (the (st' u)) = ns_successor_idx (the (st u))"
  shows "sum_list (map (remaining edges st') (map awaiting us)) = sum_list (map (remaining edges st) (map awaiting us))"
  using assms by (induction us) (simp_all add: remaining_def)

lemma remaining_Finishing: "remaining edges st (v, Finishing) = remaining edges st (v, ProcessingSuccessors)"
  by (simp add: remaining_def)

lemma wf_loop_order: "wf (loop_order edges R)"
  by (simp add: loop_order_def)

lemma step_enter:
  assumes R: "finite R" and inv: "loop_inv str edges R s comps" and work: "work_stack s = (w, Entering) # rest"
  shows "step_ok str edges R s (tarjan_step str edges (w, Entering) (s\<lparr>work_stack := rest\<rparr>))"
proof -
  from inv work obtain us where us: "rest = map awaiting us"
    and I: "tarjan_inv edges R (node_states s) (index_counter s) (node_stack s) us {w} comps"
    and found: "found_sccs s = map (\<lambda>c. scc_new (map str c)) comps"
    by (auto simp: loop_inv_def)
  let ?s = "enter_node w (s\<lparr>work_stack := rest\<rparr>)"
  have 1: "loop_inv str edges R ?s comps"
    using enter_inv [OF I] found us by (auto simp: loop_inv_def enter_node_def intro!: exI [of _ us])
  have "w \<in> R" "w \<notin> dom (node_states s)"
    using reach_partD(7) [OF tarjan_invD(2) [OF I]] stack_partD(9) [OF tarjan_invD(1) [OF I]] by simp_all
  then have "card (R - dom (node_states ?s)) < card (R - dom (node_states s))"
    by (intro psubset_card_mono) (auto simp: enter_node_def R)
  then have 2: "(?s, s) \<in> loop_order edges R" by (simp add: loop_order_def)
  have 3: "dom (node_states s) \<subseteq> dom (node_states ?s)" by (auto simp: enter_node_def)
  show ?thesis unfolding step_ok_def using 1 2 3 by (auto simp: tarjan_step_def)
qed

lemma step_successor:
  assumes R: "edge_rel edges `` R \<subseteq> R" and inv: "loop_inv str edges R s comps"
    and work: "work_stack s = (v, ProcessingSuccessors) # rest"
  shows "step_ok str edges R s (tarjan_step str edges (v, ProcessingSuccessors) (s\<lparr>work_stack := rest\<rparr>))"
proof -
  let ?st = "node_states s"
  from inv work obtain us where us: "rest = map awaiting us"
    and I: "tarjan_inv edges R ?st (index_counter s) (node_stack s) (v # us) {} comps"
    and found: "found_sccs s = map (\<lambda>c. scc_new (map str c)) comps"
    by (auto simp: loop_inv_def)
  note sp = stack_partD [OF tarjan_invD(1) [OF I]]
  have "v \<in> dom ?st" using sp(5,6) by auto
  then obtain a where a: "?st v = Some a" by blast
  have vus: "v \<notin> set us" using sp(4) by auto
  show ?thesis
  proof (cases "ns_successor_idx a < length (get_list edges v)")
    case False
    let ?s = "s\<lparr>work_stack := (v, Finishing) # rest\<rparr>"
    have "tarjan_step str edges (v, ProcessingSuccessors) (s\<lparr>work_stack := rest\<rparr>) = Some ?s"
      using a False by (simp add: tarjan_step_def process_successor_def Let_def)
    moreover have "loop_inv str edges R ?s comps" using I found us a False by (auto simp: loop_inv_def intro!: exI [of _ us])
    moreover have "(?s, s) \<in> loop_order edges R" using work by (simp add: loop_order_def remaining_Finishing)
    ultimately show ?thesis unfolding step_ok_def by auto
  next
    case True
    define y where "y = get_list edges v ! ns_successor_idx a"
    define b where "b = a\<lparr>ns_successor_idx := ns_successor_idx a + 1,
      ns_lowlink := (if y \<in> set (node_stack s) then min (ns_lowlink a) (ix ?st y) else ns_lowlink a)\<rparr>"
    define st' where "st' = ?st(v \<mapsto> b)"
    define ws where "ws = (if y \<in> dom ?st then [] else [(y, Entering)]) @ (v, ProcessingSuccessors) # rest"
    let ?s = "s\<lparr>node_states := st', work_stack := ws\<rparr>"
    have I': "tarjan_inv edges R st' (index_counter s) (node_stack s) (v # us) ({y} - dom ?st) comps"
      by (rule visit_inv [OF I R a True y_def _ _ _ _ refl st'_def]) (simp_all add: b_def)
    have y_stack: "y \<in> set (node_stack s) \<longleftrightarrow> y \<in> dom ?st \<and> ns_on_stack (the (?st y))"
      using sp(6,8) by auto
    have "tarjan_step str edges (v, ProcessingSuccessors) (s\<lparr>work_stack := rest\<rparr>) = Some ?s"
    proof (cases "?st y")
      case None
      then have "y \<noteq> v" using a by auto
      with None a True y_stack show ?thesis
        by (simp add: tarjan_step_def process_successor_def y_def [symmetric] Let_def st'_def ws_def b_def domIff)
    next
      case (Some c)
      show ?thesis
      proof (cases "y = v")
        case True
        with Some a have "c = a" by simp
        with Some True \<open>ns_successor_idx a < _\<close> y_stack show ?thesis
          by (simp add: tarjan_step_def process_successor_def y_def [symmetric] Let_def st'_def ws_def b_def domIff)
      next
        case False
        with Some a True y_stack show ?thesis
          by (simp add: tarjan_step_def process_successor_def y_def [symmetric] Let_def st'_def ws_def b_def domIff)
      qed
    qed
    moreover have "loop_inv str edges R ?s comps"
      using I' found us by (auto simp: loop_inv_def ws_def insert_Diff_if split: if_splits)
    moreover have dom: "dom st' = dom ?st" using a by (auto simp: st'_def)
    moreover have "(?s, s) \<in> loop_order edges R"
    proof -
      have "sum_list (map (remaining edges st') rest) = sum_list (map (remaining edges ?st) rest)"
        unfolding us by (rule remaining_map_awaiting) (use vus in \<open>auto simp: st'_def\<close>)
      moreover have "remaining edges st' (v, ProcessingSuccessors) < remaining edges ?st (v, ProcessingSuccessors)"
        using a True by (simp add: remaining_def st'_def b_def)
      ultimately have "sum_list (map (remaining edges st') ws) < sum_list (map (remaining edges ?st) (work_stack s))"
        unfolding work ws_def by (simp add: remaining_def)
      then show ?thesis using dom by (simp add: loop_order_def)
    qed
    ultimately show ?thesis unfolding step_ok_def by auto
  qed
qed

lemma lower_parent_inner:
  assumes "work_stack s = map awaiting (u # us)" and "node_states s v = Some a" and "node_states s u = Some b"
  shows "lower_parent v s = Some (s\<lparr>node_states := (node_states s)(u \<mapsto>
    b\<lparr>ns_lowlink := min (ns_lowlink b) (ns_lowlink a)\<rparr>)\<rparr>)"
  using assms by (simp add: lower_parent_def)

lemma finish_measure:
  assumes "work_stack s = (v, Finishing) # rest" and "rest = map awaiting us" and "work_stack s' = rest"
    and "dom (node_states s') = dom (node_states s)"
    and "\<And>u. ns_successor_idx (the (node_states s' u)) = ns_successor_idx (the (node_states s u))"
  shows "(s', s) \<in> loop_order edges R"
proof -
  have "sum_list (map (remaining edges (node_states s')) rest) = sum_list (map (remaining edges (node_states s)) rest)"
    unfolding assms(2) by (rule remaining_map_awaiting) (rule assms(5))
  moreover have "(case rest of (v, ProcessingSuccessors) # rest \<Rightarrow> 1 | _ \<Rightarrow> 0) \<le> (1 :: nat)"
    by (simp split: list.split prod.split tarjan_phase.split)
  ultimately show ?thesis using assms(1,3,4) by (auto simp: loop_order_def)
qed

lemma step_finish:
  assumes inv: "loop_inv str edges R s comps" and work: "work_stack s = (v, Finishing) # rest"
  shows "step_ok str edges R s (tarjan_step str edges (v, Finishing) (s\<lparr>work_stack := rest\<rparr>))"
proof -
  let ?st = "node_states s"
  from inv work obtain us where us: "rest = map awaiting us"
    and I: "tarjan_inv edges R ?st (index_counter s) (node_stack s) (v # us) {} comps"
    and pos: "length (get_list edges v) \<le> ns_successor_idx (the (?st v))"
    and found: "found_sccs s = map (\<lambda>c. scc_new (map str c)) comps"
    by (auto simp: loop_inv_def)
  note sp = stack_partD [OF tarjan_invD(1) [OF I]]
  have "v \<in> dom ?st" using sp(5,6) by auto
  then obtain a where a: "?st v = Some a" by blast
  show ?thesis
  proof (cases "low ?st v = ix ?st v")
    case False
    obtain u ws where uws: "us = u # ws"
      and I': "tarjan_inv edges R (?st(u \<mapsto> (the (?st u))\<lparr>ns_lowlink := min (low ?st u) (low ?st v)\<rparr>))
        (index_counter s) (node_stack s) us {} comps"
      by (rule finish_inner_inv [OF I pos False])
    have "u \<in> dom ?st" using sp(5,6) by (auto simp: uws)
    then obtain b where b: "?st u = Some b" by blast
    let ?s = "s\<lparr>work_stack := rest, node_states := ?st(u \<mapsto> b\<lparr>ns_lowlink := min (ns_lowlink b) (ns_lowlink a)\<rparr>)\<rparr>"
    have "tarjan_step str edges (v, Finishing) (s\<lparr>work_stack := rest\<rparr>) = Some ?s"
      using a b False by (simp add: tarjan_step_def finish_node_def us uws lower_parent_def)
    moreover have "loop_inv str edges R ?s comps"
      using I' found a b by (auto simp: loop_inv_def us uws intro!: exI [of _ ws])
    moreover have "(?s, s) \<in> loop_order edges R"
      by (rule finish_measure [OF work us]) (use b in \<open>auto\<close>)
    ultimately show ?thesis unfolding step_ok_def by auto
  next
    case True
    obtain P S' st' where pop: "pop_component v (node_stack s) ?st = Some (P, st', S')"
      and I': "tarjan_inv edges R st' (index_counter s) S' us {} (comps @ [P])" and dom: "dom st' = dom ?st"
      and eq: "\<And>z. ix st' z = ix ?st z" "\<And>z. low st' z = low ?st z"
        "\<And>z. ns_successor_idx (the (st' z)) = ns_successor_idx (the (?st z))"
      by (rule finish_root_inv [OF I pos True]) blast
    have "v \<in> dom st'" using a dom by blast
    then obtain a' where a': "st' v = Some a'" by blast
    let ?t = "s\<lparr>work_stack := rest, node_states := st', node_stack := S',
      found_sccs := found_sccs s @ [scc_new (map str P)]\<rparr>"
    have "lower_parent v ?t = Some ?t"
    proof (cases us)
      case Nil
      then show ?thesis by (simp add: lower_parent_def us)
    next
      case (Cons u ws)
      have "u \<in> dom st'" using sp(5,6) dom by (auto simp: Cons)
      then obtain b where b: "st' u = Some b" by blast
      have "low ?st u \<le> ix ?st u" using reach_partD(3) [OF tarjan_invD(2) [OF I], of u] by (simp add: Cons)
      moreover have "ix ?st u < ix ?st v" using sp(4) by (simp add: Cons)
      ultimately have "ns_lowlink b \<le> ns_lowlink a'"
        using eq(2) [of u] eq(2) [of v] True a' b by simp
      with a' b have "st'(u \<mapsto> b\<lparr>ns_lowlink := min (ns_lowlink b) (ns_lowlink a')\<rparr>) = st'"
        by (auto simp: fun_eq_iff)
      with a' b show ?thesis by (simp add: lower_parent_def us Cons)
    qed
    then have "tarjan_step str edges (v, Finishing) (s\<lparr>work_stack := rest\<rparr>) = Some ?t"
      using a True pop by (simp add: tarjan_step_def finish_node_def)
    moreover have "loop_inv str edges R ?t (comps @ [P])"
      using I' found by (cases us) (auto simp: loop_inv_def us)
    moreover have "(?t, s) \<in> loop_order edges R"
      by (rule finish_measure [OF work us]) (simp_all add: dom eq(3))
    ultimately show ?thesis unfolding step_ok_def using dom by auto
  qed
qed

lemma loop_result:
  assumes R: "finite R" "edge_rel edges `` R \<subseteq> R" and inv: "loop_inv str edges R s comps"
  shows "\<exists>s' comps'. tarjan_loop str edges s = Some s' \<and> loop_inv str edges R s' comps' \<and> work_stack s' = [] \<and>
    dom (node_states s) \<subseteq> dom (node_states s')"
  using inv
proof (induction s arbitrary: comps rule: wf_induct_rule [OF wf_loop_order [of edges R]])
  case (1 s)
  show ?case
  proof (cases "work_stack s")
    case Nil
    with 1 show ?thesis by (subst tarjan_loop.simps) auto
  next
    case (Cons item rest)
    obtain v phase where item: "item = (v, phase)" by (cases item)
    have "step_ok str edges R s (tarjan_step str edges item (s\<lparr>work_stack := rest\<rparr>))"
    proof (cases phase)
      case Entering
      with 1(2) Cons item show ?thesis using step_enter [OF R(1)] by blast
    next
      case ProcessingSuccessors
      with 1(2) Cons item show ?thesis using step_successor [OF R(2)] by blast
    next
      case Finishing
      show ?thesis unfolding item Finishing by (rule step_finish [OF 1(2)]) (simp add: Cons item Finishing)
    qed
    then obtain t comps1 where t: "tarjan_step str edges item (s\<lparr>work_stack := rest\<rparr>) = Some t"
      "loop_inv str edges R t comps1" "(t, s) \<in> loop_order edges R" "dom (node_states s) \<subseteq> dom (node_states t)"
      unfolding step_ok_def by blast
    from 1(1) [OF t(3,2)] obtain s' comps' where s': "tarjan_loop str edges t = Some s'"
      "loop_inv str edges R s' comps'" "work_stack s' = []" "dom (node_states t) \<subseteq> dom (node_states s')" by blast
    have "tarjan_loop str edges s = Some s'"
      by (subst tarjan_loop.simps) (simp add: Cons t(1) s'(1))
    with s' t(4) show ?thesis by blast
  qed
qed

section \<open>The components\<close>

definition reachable_from :: "('n \<rightharpoonup> 'n list) \<Rightarrow> 'n list \<Rightarrow> 'n set" where
  "reachable_from edges nodes = (edge_rel edges)\<^sup>* `` set nodes"

lemma finite_reachable_from:
  assumes "finite (dom edges)"
  shows "finite (reachable_from edges nodes)"
proof (rule finite_subset)
  show "reachable_from edges nodes \<subseteq> set nodes \<union> (\<Union>u \<in> dom edges. set (get_list edges u))"
  proof
    fix v assume "v \<in> reachable_from edges nodes"
    then obtain u where u: "u \<in> set nodes" "(u, v) \<in> (edge_rel edges)\<^sup>*" by (auto simp: reachable_from_def)
    from u(2) show "v \<in> set nodes \<union> (\<Union>u \<in> dom edges. set (get_list edges u))"
    proof cases
      case (step w)
      then have "v \<in> set (get_list edges w)" "w \<in> dom edges"
        by (cases "edges w"; auto simp: edge_rel_def get_list_def)+
      then show ?thesis by blast
    qed (use u(1) in simp)
  qed
  show "finite (set nodes \<union> (\<Union>u \<in> dom edges. set (get_list edges u)))" using assms by simp
qed

lemma reachable_from_closed: "edge_rel edges `` reachable_from edges nodes \<subseteq> reachable_from edges nodes"
  by (auto simp: reachable_from_def intro: rtrancl_into_rtrancl)

lemma loop_inv_idle:
  "work_stack s = [] \<Longrightarrow> loop_inv str edges R s comps \<longleftrightarrow>
     found_sccs s = map (\<lambda>c. scc_new (map str c)) comps \<and>
     tarjan_inv edges R (node_states s) (index_counter s) (node_stack s) [] {} comps"
  by (simp add: loop_inv_def)

lemma idle_stack:
  assumes "tarjan_inv edges R st cnt S [] {} comps"
  shows "S = []" and "dom st = set (concat comps)" and "edge_rel edges `` dom st \<subseteq> dom st"
proof -
  note D = tarjan_invD [OF assms]
  show S: "S = []" using reach_partD(2) [OF D(2)] by (cases S) auto
  then show dom: "dom st = set (concat comps)" using stack_partD(6) [OF D(1)] by simp
  then show "edge_rel edges `` dom st \<subseteq> dom st" using edge_partD(2) [OF D(3)] by simp
qed

lemma add_entering:
  assumes inv: "tarjan_inv edges R st cnt S [] {} comps" and w: "w \<in> R" "w \<notin> dom st"
  shows "tarjan_inv edges R st cnt S [] {w} comps"
proof -
  note D = tarjan_invD [OF inv]
  have "stack_part st cnt S [] {w} (set (concat comps))"
    unfolding stack_part_def using stack_partD [OF D(1)] w(2) by (intro conjI ballI) auto
  moreover have "reach_part edges R st S [] {w}"
    using idle_stack(1) [OF inv] reach_partD(6) [OF D(2)] w(1) by (simp add: reach_part_def)
  moreover have "edge_part edges st S [] {w} (set (concat comps))"
    using edge_partD [OF D(3)] by (auto simp: edge_part_def)
  ultimately show ?thesis using D(4) by (rule tarjan_invI)
qed

lemma find_sccs_result:
  assumes fin: "finite (dom edges)"
  obtains comps where "find_sccs str nodes edges = Some (map (\<lambda>c. scc_new (map str c)) comps)"
    and "components_part edges comps" and "set (concat comps) = reachable_from edges nodes"
proof -
  let ?R = "reachable_from edges nodes"
  note R = finite_reachable_from [OF fin, of nodes] reachable_from_closed [of edges nodes]
  have "\<exists>s comps. fold_opt (start_from str edges) ns t = Some s \<and> loop_inv str edges ?R s comps \<and> work_stack s = [] \<and>
      set ns \<union> dom (node_states t) \<subseteq> dom (node_states s)"
    if "loop_inv str edges ?R t comps" "work_stack t = []" "set ns \<subseteq> set nodes" for ns t comps
    using that
  proof (induction ns arbitrary: t comps)
    case Nil
    then show ?case by auto
  next
    case (Cons n ns)
    have "\<exists>u comps1. start_from str edges n t = Some u \<and> loop_inv str edges ?R u comps1 \<and> work_stack u = [] \<and>
      insert n (dom (node_states t)) \<subseteq> dom (node_states u)"
    proof (cases "n \<in> dom (node_states t)")
      case True
      with Cons.prems show ?thesis by (auto simp: start_from_def)
    next
      case False
      let ?t = "t\<lparr>work_stack := [(n, Entering)]\<rparr>"
      have n: "n \<in> ?R" using Cons.prems(3) by (auto simp: reachable_from_def)
      have I: "tarjan_inv edges ?R (node_states t) (index_counter t) (node_stack t) [] {n} comps"
        by (rule add_entering [OF _ n False]) (use Cons.prems in \<open>simp add: loop_inv_idle\<close>)
      have inv: "loop_inv str edges ?R ?t comps"
        using I Cons.prems(1,2) by (simp add: loop_inv_def)
      have e: "step_ok str edges ?R ?t (tarjan_step str edges (n, Entering) (?t\<lparr>work_stack := []\<rparr>))"
        by (rule step_enter [OF R(1) inv]) simp
      then obtain t1 comps1 where t1: "tarjan_step str edges (n, Entering) (?t\<lparr>work_stack := []\<rparr>) = Some t1"
        "loop_inv str edges ?R t1 comps1" "dom (node_states t) \<subseteq> dom (node_states t1)"
        unfolding step_ok_def by auto
      have "n \<in> dom (node_states t1)" using t1(1) by (auto simp: tarjan_step_def enter_node_def)
      moreover from loop_result [OF R t1(2)] obtain u comps2 where u: "tarjan_loop str edges t1 = Some u"
        "loop_inv str edges ?R u comps2" "work_stack u = []" "dom (node_states t1) \<subseteq> dom (node_states u)" by blast
      moreover have "tarjan_loop str edges ?t = Some u"
        using t1(1) u(1) by (subst tarjan_loop.simps) simp
      then have "start_from str edges n t = Some u"
        using False Cons.prems(2) by (auto simp: start_from_def)
      ultimately show ?thesis using t1(3) by blast
    qed
    then obtain u comps1 where u: "start_from str edges n t = Some u" "loop_inv str edges ?R u comps1"
      "work_stack u = []" "insert n (dom (node_states t)) \<subseteq> dom (node_states u)" by blast
    have "set ns \<subseteq> set nodes" using Cons.prems(3) by simp
    from Cons.IH [OF u(2,3) this] obtain s comps2 where s: "fold_opt (start_from str edges) ns u = Some s"
      "loop_inv str edges ?R s comps2" "work_stack s = []" "set ns \<union> dom (node_states u) \<subseteq> dom (node_states s)" by blast
    have "fold_opt (start_from str edges) (n # ns) t = Some s" using u(1) s(1) by simp
    moreover have "set (n # ns) \<union> dom (node_states t) \<subseteq> dom (node_states s)"
      using u(4) s(4) unfolding list.set by blast
    ultimately show ?case using s(2,3) by blast
  qed
  note main = this
  have "tarjan_inv edges ?R Map.empty 0 [] [] {} []"
    by (simp add: tarjan_inv_def stack_part_def reach_part_def edge_part_def components_part_def)
  then have "loop_inv str edges ?R tarjan_init []" by (simp add: loop_inv_def tarjan_init_def)
  from main [OF this _ subset_refl] obtain s comps where s: "fold_opt (start_from str edges) nodes tarjan_init = Some s"
    "loop_inv str edges ?R s comps" "work_stack s = []" "set nodes \<subseteq> dom (node_states s)"
    by (auto simp: tarjan_init_def)
  from s(2,3) have found: "found_sccs s = map (\<lambda>c. scc_new (map str c)) comps"
    and I: "tarjan_inv edges ?R (node_states s) (index_counter s) (node_stack s) [] {} comps"
    by (simp_all add: loop_inv_idle)
  note idle = idle_stack [OF I]
  have "?R \<subseteq> dom (node_states s)"
  proof
    fix v assume "v \<in> ?R"
    then obtain u where u: "u \<in> set nodes" "(u, v) \<in> (edge_rel edges)\<^sup>*" by (auto simp: reachable_from_def)
    from u(2) show "v \<in> dom (node_states s)"
      by induction (use u(1) s(4) idle(3) in blast)+
  qed
  moreover have "dom (node_states s) \<subseteq> ?R" using reach_partD(6) [OF tarjan_invD(2) [OF I]] .
  ultimately have "set (concat comps) = ?R" using idle(2) by simp
  moreover have "find_sccs str nodes edges = Some (map (\<lambda>c. scc_new (map str c)) comps)"
    using s(1) found by (simp add: find_sccs_def)
  ultimately show thesis using tarjan_invD(4) [OF I] that by blast
qed

end
