(* ===== verification/Call_Graph_Correct.thy ===== *)
theory Call_Graph_Correct
  imports Call_Graph Tarjan_Correct
begin

text \<open>
  Lemmas on the analyses over the call graph: the report of cycles, the tree of callers as bounded
  reachability, the edit distance against its recursive definition, uncalled functions.
\<close>

section \<open>The report of cycles\<close>

lemma add_cycle_fields [simp]:
  "cr_cycles (add_cycle c r) = cr_cycles r @ [c]"
  "cr_granularity (add_cycle c r) = cr_granularity r"
  "total_sccs (cr_summary (add_cycle c r)) = total_sccs (cr_summary r) + 1"
  "cycle_count (cr_summary (add_cycle c r)) = cycle_count (cr_summary r) + (if 1 < scc_size c then 1 else 0)"
  "largest_cycle (cr_summary (add_cycle c r)) =
     (if 1 < scc_size c then max (largest_cycle (cr_summary r)) (scc_size c) else largest_cycle (cr_summary r))"
  by (simp_all add: add_cycle_def Let_def)

lemma with_explanation_fields [simp]:
  "cr_cycles (with_explanation r) = cr_cycles r" "cr_granularity (with_explanation r) = cr_granularity r"
  "cr_summary (with_explanation r) = cr_summary r"
  by (simp_all add: with_explanation_def Let_def)

lemma cycle_report_new_fields [simp]:
  "cr_cycles (cycle_report_new g) = []" "cr_granularity (cycle_report_new g) = g"
  "total_sccs (cr_summary (cycle_report_new g)) = 0" "cycle_count (cr_summary (cycle_report_new g)) = 0"
  "largest_cycle (cr_summary (cycle_report_new g)) = 0"
  by (simp_all add: cycle_report_new_def)

lemma fold_add_cycle:
  fixes h :: "scc \<Rightarrow> scc" and cs :: "scc list" and r :: cycle_report
  assumes h: "\<And>c. scc_size (h c) = scc_size c"
  defines "big \<equiv> filter (\<lambda>c. 1 < scc_size c) cs"
  defines "r' \<equiv> fold (\<lambda>c report. if 1 < scc_size c then add_cycle (h c) report else report) cs r"
  shows "cr_cycles r' = cr_cycles r @ map h big" and "cr_granularity r' = cr_granularity r"
    and "total_sccs (cr_summary r') = total_sccs (cr_summary r) + length big"
    and "cycle_count (cr_summary r') = cycle_count (cr_summary r) + length big"
    and "largest_cycle (cr_summary r') = fold max (map scc_size big) (largest_cycle (cr_summary r))"
  unfolding r'_def big_def by (induction cs arbitrary: r) (simp_all add: h max.commute)

lemma report_cycles_fields:
  fixes keys graph g cs
  defines "big \<equiv> filter (\<lambda>c. 1 < scc_size c) cs" and "r \<equiv> report_cycles keys graph g cs"
  shows "cr_cycles r = map (\<lambda>c. c\<lparr>scc_edges := component_edges keys graph c\<rparr>) big" and "cr_granularity r = g"
    and "total_sccs (cr_summary r) = length big" and "cycle_count (cr_summary r) = length big"
    and "largest_cycle (cr_summary r) = fold max (map scc_size big) 0"
proof -
  define h where "h = (\<lambda>c. c\<lparr>scc_edges := component_edges keys graph c\<rparr>)"
  have "scc_size (h c) = scc_size c" for c by (simp add: h_def)
  note F = fold_add_cycle [where h = h and cs = cs and r = "cycle_report_new g", OF this, folded big_def]
  have r: "r = with_explanation (fold (\<lambda>c report. if 1 < scc_size c then add_cycle (h c) report else report) cs
      (cycle_report_new g))" unfolding r_def report_cycles_def h_def ..
  show "cr_cycles r = map (\<lambda>c. c\<lparr>scc_edges := component_edges keys graph c\<rparr>) big" and "cr_granularity r = g"
    and "total_sccs (cr_summary r) = length big" and "cycle_count (cr_summary r) = length big"
    and "largest_cycle (cr_summary r) = fold max (map scc_size big) 0"
    unfolding r with_explanation_fields F cycle_report_new_fields by (simp_all add: h_def)
qed

lemma set_component_edges:
  "set (component_edges keys graph c) =
     {(s, func_string d) | s src d. s \<in> set (scc_nodes c) \<and> src \<in> set keys \<and> func_string src = s \<and>
        d \<in> set (get_list graph src) \<and> func_string d \<in> set (scc_nodes c)}"
  by (auto simp: component_edges_def)

lemma edge_rel_nodes:
  assumes "(u, v) \<in> edge_rel graph"
  shows "u \<in> dom graph" and "v \<in> graph_nodes graph"
proof -
  show u: "u \<in> dom graph" using assms by (cases "graph u") (auto simp: edge_rel_def get_list_def)
  then show "v \<in> graph_nodes graph" using assms by (auto simp: graph_nodes_def edge_rel_def)
qed

lemma graph_nodes_closed: "edge_rel graph `` graph_nodes graph \<subseteq> graph_nodes graph"
  using edge_rel_nodes(2) by blast

lemma reachable_from_closed_set:
  assumes "edge_rel edges `` set nodes \<subseteq> set nodes"
  shows "reachable_from edges nodes = set nodes"
proof -
  have "v \<in> set nodes" if "(u, v) \<in> (edge_rel edges)\<^sup>*" "u \<in> set nodes" for u v
    using that by induction (use assms in auto)
  then show ?thesis by (auto simp: reachable_from_def)
qed

lemma finite_graph_nodes: "finite (dom graph) \<Longrightarrow> finite (graph_nodes graph)"
  by (simp add: graph_nodes_def)

lemma mutually_reachable_equiv:
  "mutually_reachable edges u u" "mutually_reachable edges u v \<Longrightarrow> mutually_reachable edges v u"
  "mutually_reachable edges u v \<Longrightarrow> mutually_reachable edges v w \<Longrightarrow> mutually_reachable edges u w"
  by (auto simp: mutually_reachable_def intro: rtrancl_trans)

text \<open>Two nodes are in a common component exactly if each reaches the other.\<close>

lemma same_component:
  assumes "components_part edges comps" and "u \<in> set (concat comps)"
  shows "(\<exists>c \<in> set comps. u \<in> set c \<and> v \<in> set c) \<longleftrightarrow> mutually_reachable edges u v"
proof
  assume "\<exists>c \<in> set comps. u \<in> set c \<and> v \<in> set c"
  then obtain c w where "u \<in> set c" "v \<in> set c" "set c = {x. mutually_reachable edges w x}"
    using assms(1) unfolding components_part_def by blast
  then show "mutually_reachable edges u v" by (auto intro: mutually_reachable_equiv)
next
  assume uv: "mutually_reachable edges u v"
  from assms(2) obtain c where c: "c \<in> set comps" "u \<in> set c" by auto
  then obtain w where "set c = {x. mutually_reachable edges w x}"
    using assms(1) unfolding components_part_def by blast
  with c uv have "v \<in> set c" by (auto intro: mutually_reachable_equiv)
  with c show "\<exists>c \<in> set comps. u \<in> set c \<and> v \<in> set c" by blast
qed

lemma component_edges_exact:
  assumes inj: "inj_on func_string (graph_nodes graph)" and keys: "set keys = dom graph"
    and c: "set c \<subseteq> graph_nodes graph"
  shows "set (component_edges keys graph (scc_new (map func_string c))) =
    {(func_string u, func_string v) | u v. u \<in> set c \<and> v \<in> set c \<and> (u, v) \<in> edge_rel graph}"
    (is "?L = ?R")
proof -
  have in_c: "func_string u \<in> func_string ` set c \<longleftrightarrow> u \<in> set c" if "u \<in> graph_nodes graph" for u
    by (rule inj_on_image_mem_iff [OF inj that c])
  have nodes: "scc_nodes (scc_new (map func_string c)) = map func_string c" by (simp add: scc_new_def)
  show ?thesis
  proof (rule set_eqI, rule iffI)
    fix x assume "x \<in> ?L"
    then obtain t src d where t: "x = (t, func_string d)" "t \<in> func_string ` set c" "src \<in> dom graph"
      "func_string src = t" "d \<in> set (get_list graph src)" "func_string d \<in> func_string ` set c"
      unfolding set_component_edges nodes keys set_map by (elim CollectE exE conjE) (rule that)
    note x = t(1) [folded t(4)] t(2) [folded t(4)] t(3,5,6)
    have e: "(src, d) \<in> edge_rel graph" using x(4) by (simp add: edge_rel_def)
    have "src \<in> graph_nodes graph" using x(3) by (simp add: graph_nodes_def)
    then have "src \<in> set c" using x(2) by (simp add: in_c)
    moreover have "d \<in> set c" using x(5) edge_rel_nodes(2) [OF e] by (simp add: in_c)
    ultimately show "x \<in> ?R" using x(1) e by blast
  next
    fix x assume "x \<in> ?R"
    then obtain u v where x: "x = (func_string u, func_string v)" "u \<in> set c" "v \<in> set c" "(u, v) \<in> edge_rel graph"
      by blast
    have "v \<in> set (get_list graph u)" using x(4) by (simp add: edge_rel_def)
    then show "x \<in> ?L"
      unfolding set_component_edges nodes keys using x(1-3) edge_rel_nodes(1) [OF x(4)]
      by (intro CollectI exI [of _ "func_string u"] exI [of _ u] exI [of _ v]) simp
  qed
qed

lemma two_elements:
  assumes "distinct c" and "u \<in> set c"
  shows "1 < length c \<longleftrightarrow> (\<exists>w \<in> set c. w \<noteq> u)"
proof -
  have "length c = card (set c)" using assms(1) by (simp add: distinct_card)
  moreover have "card (set c - {u}) = card (set c) - 1" using assms(2) by simp
  moreover have "(\<exists>w \<in> set c. w \<noteq> u) \<longleftrightarrow> card (set c - {u}) \<noteq> 0" by auto
  ultimately show ?thesis by auto
qed

definition shares_cycle :: "cycle_report \<Rightarrow> func_key \<Rightarrow> func_key \<Rightarrow> bool" where
  "shares_cycle report u v \<longleftrightarrow>
     (\<exists>c \<in> set (cr_cycles report). func_string u \<in> set (scc_nodes c) \<and> func_string v \<in> set (scc_nodes c))"

text \<open>
  The cycles of a report: two functions share a cycle exactly if each reaches the other and they do not
  only reach themselves; the edges of a cycle are the calls between its functions.
\<close>

definition cycles_exact :: "(func_key \<rightharpoonup> func_key list) \<Rightarrow> cycle_report \<Rightarrow> bool" where
  "cycles_exact graph report \<longleftrightarrow>
     (\<forall>u \<in> graph_nodes graph. \<forall>v \<in> graph_nodes graph. shares_cycle report u v \<longleftrightarrow>
        mutually_reachable graph u v \<and> (\<exists>w. w \<noteq> u \<and> mutually_reachable graph u w)) \<and>
     (\<forall>c \<in> set (cr_cycles report). scc_size c = length (scc_nodes c) \<and> distinct (scc_nodes c) \<and>
        set (scc_edges c) = {(func_string u, func_string v) | u v. (u, v) \<in> edge_rel graph \<and>
          func_string u \<in> set (scc_nodes c) \<and> func_string v \<in> set (scc_nodes c)}) \<and>
     cycle_count (cr_summary report) = length (cr_cycles report) \<and>
     total_sccs (cr_summary report) = length (cr_cycles report)"

lemma report_cycles_exact:
  assumes inj: "inj_on func_string (graph_nodes graph)" and keys: "set keys = dom graph"
    and comps: "components_part graph comps" and all: "set (concat comps) = graph_nodes graph"
  shows "cycles_exact graph (report_cycles keys graph g (map (\<lambda>c. scc_new (map func_string c)) comps))"
    (is "cycles_exact graph ?r")
proof -
  let ?new = "\<lambda>c. scc_new (map func_string c)"
  let ?big = "filter (\<lambda>c. 1 < length c) comps"
  have size: "scc_size (?new c) = length c" "scc_nodes (?new c) = map func_string c" for c
    by (simp_all add: scc_new_def)
  have filter: "filter (\<lambda>c. 1 < scc_size c) (map ?new comps) = map ?new ?big"
    by (induction comps) (simp_all add: size)
  note F = report_cycles_fields [of keys graph g "map ?new comps", unfolded filter]
  have cycles: "cr_cycles ?r = map (\<lambda>c. (?new c)\<lparr>scc_edges := component_edges keys graph (?new c)\<rparr>) ?big"
    unfolding F(1) by simp
  have sub: "set c \<subseteq> graph_nodes graph" and dist: "distinct c" if "c \<in> set comps" for c
    using that all comps by (auto simp: components_part_def distinct_concat_iff)
  have in_cycle: "func_string u \<in> func_string ` set c \<longleftrightarrow> u \<in> set c" if "c \<in> set comps" "u \<in> graph_nodes graph" for c u
    by (rule inj_on_image_mem_iff [OF inj that(2) sub [OF that(1)]])
  have shares: "shares_cycle ?r u v \<longleftrightarrow> mutually_reachable graph u v \<and> (\<exists>w. w \<noteq> u \<and> mutually_reachable graph u w)"
    if u: "u \<in> graph_nodes graph" and v: "v \<in> graph_nodes graph" for u v
  proof -
    have "shares_cycle ?r u v \<longleftrightarrow> (\<exists>c \<in> set ?big. func_string u \<in> func_string ` set c \<and> func_string v \<in> func_string ` set c)"
      unfolding shares_cycle_def cycles by (simp add: size)
    also have "\<dots> \<longleftrightarrow> (\<exists>c \<in> set comps. 1 < length c \<and> u \<in> set c \<and> v \<in> set c)"
      unfolding set_filter using in_cycle [OF _ u] in_cycle [OF _ v] by (auto simp only: mem_Collect_eq)
    also have "\<dots> \<longleftrightarrow> (\<exists>c \<in> set comps. (\<exists>w \<in> set c. w \<noteq> u) \<and> u \<in> set c \<and> v \<in> set c)"
    proof (rule bex_cong [OF refl])
      fix c assume c: "c \<in> set comps"
      show "1 < length c \<and> u \<in> set c \<and> v \<in> set c \<longleftrightarrow> (\<exists>w \<in> set c. w \<noteq> u) \<and> u \<in> set c \<and> v \<in> set c"
        using two_elements [OF dist [OF c], of u] by (cases "u \<in> set c") simp_all
    qed
    also have "\<dots> \<longleftrightarrow> mutually_reachable graph u v \<and> (\<exists>w. w \<noteq> u \<and> mutually_reachable graph u w)"
    proof
      assume "\<exists>c \<in> set comps. (\<exists>w \<in> set c. w \<noteq> u) \<and> u \<in> set c \<and> v \<in> set c"
      then show "mutually_reachable graph u v \<and> (\<exists>w. w \<noteq> u \<and> mutually_reachable graph u w)"
        using same_component [OF comps] u all by blast
    next
      assume m: "mutually_reachable graph u v \<and> (\<exists>w. w \<noteq> u \<and> mutually_reachable graph u w)"
      then obtain w where w: "w \<noteq> u" "mutually_reachable graph u w" by blast
      obtain c where c: "c \<in> set comps" "u \<in> set c" using u all by auto
      then obtain x where "set c = {y. mutually_reachable graph x y}"
        using comps unfolding components_part_def by blast
      then have "w \<in> set c" "v \<in> set c" using c(2) w(2) m by (auto intro: mutually_reachable_equiv)
      with c w(1) show "\<exists>c \<in> set comps. (\<exists>w \<in> set c. w \<noteq> u) \<and> u \<in> set c \<and> v \<in> set c" by blast
    qed
    finally show ?thesis .
  qed
  have edges: "scc_size s = length (scc_nodes s) \<and> distinct (scc_nodes s) \<and>
      set (scc_edges s) = {(func_string u, func_string v) | u v. (u, v) \<in> edge_rel graph \<and>
        func_string u \<in> set (scc_nodes s) \<and> func_string v \<in> set (scc_nodes s)}" if "s \<in> set (cr_cycles ?r)" for s
  proof -
    from that obtain c where c: "c \<in> set comps" "s = (?new c)\<lparr>scc_edges := component_edges keys graph (?new c)\<rparr>"
      unfolding cycles by auto
    have "inj_on func_string (set c)" using inj sub [OF c(1)] by (rule inj_on_subset)
    then have d: "distinct (map func_string c)" using dist [OF c(1)] by (simp add: distinct_map)
    have "set (scc_edges s) = {(func_string u, func_string v) | u v. u \<in> set c \<and> v \<in> set c \<and> (u, v) \<in> edge_rel graph}"
      unfolding c(2) by (simp add: component_edges_exact [OF inj keys sub [OF c(1)]])
    also have "\<dots> = {(func_string u, func_string v) | u v. (u, v) \<in> edge_rel graph \<and>
        func_string u \<in> func_string ` set c \<and> func_string v \<in> func_string ` set c}"
    proof -
      have "u \<in> set c \<and> v \<in> set c \<longleftrightarrow> func_string u \<in> func_string ` set c \<and> func_string v \<in> func_string ` set c"
        if "(u, v) \<in> edge_rel graph" for u v
      proof -
        have "u \<in> graph_nodes graph" using edge_rel_nodes(1) [OF that] by (simp add: graph_nodes_def)
        then show ?thesis using in_cycle [OF c(1)] edge_rel_nodes(2) [OF that] by blast
      qed
      then show ?thesis by blast
    qed
    finally show ?thesis using d by (simp add: c(2) size)
  qed
  show ?thesis unfolding cycles_exact_def using shares edges F(3,4) by (auto simp: cycles)
qed

lemma detect_cycles_report:
  assumes enum: "enumerates enum" and fin: "finite (dom graph)" and inj: "inj_on func_string (graph_nodes graph)"
  shows "\<exists>report. detect_cycles enum graph g = Some report \<and> cr_granularity report = g \<and> cycles_exact graph report"
proof -
  have nodes: "set (enum (graph_nodes graph)) = graph_nodes graph"
    by (rule enumeratesD [OF enum finite_graph_nodes [OF fin]])
  obtain comps where comps:
    "find_sccs func_string (enum (graph_nodes graph)) graph = Some (map (\<lambda>c. scc_new (map func_string c)) comps)"
    "components_part graph comps" "set (concat comps) = reachable_from graph (enum (graph_nodes graph))"
    by (rule find_sccs_result [OF fin])
  have "set (concat comps) = graph_nodes graph"
    unfolding comps(3) using graph_nodes_closed [of graph]
    by (subst reachable_from_closed_set) (simp_all add: nodes)
  from report_cycles_exact [OF inj enumeratesD [OF enum fin] comps(2) this] show ?thesis
    by (simp add: detect_cycles_def comps(1) report_cycles_fields(2))
qed

lemma get_list_function_graph: "get_list (function_graph cg) k = map dst_key (filter (\<lambda>e. src_key e = k) cg)"
proof -
  have "get_list (fold (\<lambda>e. entry_push (src_key e) (dst_key e)) cg m) k =
      get_list m k @ map dst_key (filter (\<lambda>e. src_key e = k) cg)" for m
    by (induction cg arbitrary: m) simp_all
  then show ?thesis by (simp add: function_graph_def)
qed

lemma dom_function_graph: "dom (function_graph cg) = src_key ` set cg"
proof -
  have "dom (fold (\<lambda>e. entry_push (src_key e) (dst_key e)) cg m) = src_key ` set cg \<union> dom m" for m
    by (induction cg arbitrary: m) auto
  then show ?thesis by (simp add: function_graph_def)
qed

lemma edge_rel_function_graph: "edge_rel (function_graph cg) = (\<lambda>e. (src_key e, dst_key e)) ` set cg"
  by (force simp: edge_rel_def get_list_function_graph)

lemma graph_nodes_function_graph: "graph_nodes (function_graph cg) = src_key ` set cg \<union> dst_key ` set cg"
  by (auto simp: graph_nodes_def dom_function_graph get_list_function_graph)

lemma function_level_is_detect: "find_function_level_cycles enum cg = detect_cycles enum (function_graph cg) GranFunction"
  by (simp add: find_function_level_cycles_def detect_cycles_def Let_def graph_nodes_function_graph)

end
