(* ===== verification/Callers_Correct.thy ===== *)
theory Callers_Correct
  imports Call_Graph
begin

text \<open>
  Lemmas on \<open>analysis/impact.rs\<close> and \<open>analysis/dead.rs\<close>: the tree of callers as reachability in a
  bounded number of calls, the targets of the impact analysis, the edit distance as the least number of
  edits, and the functions the dead code analysis reports.
\<close>

section \<open>Calls\<close>

definition calls :: "project_call_graph \<Rightarrow> (func_key \<times> func_key) set" where
  "calls call_graph = (\<lambda>e. (src_key e, dst_key e)) ` set call_graph"

definition caller_rel :: "(func_key \<rightharpoonup> func_key list) \<Rightarrow> (func_key \<times> func_key) set" where
  "caller_rel reverse_graph = {(c, k). c \<in> set (get_list reverse_graph k)}"

lemma get_list_build_reverse_graph:
  "get_list (build_reverse_graph cg) k = map src_key (filter (\<lambda>e. dst_key e = k) cg)"
proof -
  have "get_list (fold (\<lambda>e. entry_push (dst_key e) (src_key e)) cg m) k =
      get_list m k @ map src_key (filter (\<lambda>e. dst_key e = k) cg)" for m
    by (induction cg arbitrary: m) simp_all
  then show ?thesis by (simp add: build_reverse_graph_def)
qed

lemma caller_rel_reverse_graph: "caller_rel (build_reverse_graph cg) = calls cg"
  by (force simp: caller_rel_def calls_def get_list_build_reverse_graph)

section \<open>The tree of callers\<close>

primrec tree_keys :: "caller_tree \<Rightarrow> func_key set" where
  "tree_keys (CallerTree function file n callers truncated note) =
     insert (file, function) (\<Union> (set (map tree_keys callers)))"

primrec tree_height :: "caller_tree \<Rightarrow> nat" where
  "tree_height (CallerTree function file n callers truncated note) = fold max (map (\<lambda>t. Suc (tree_height t)) callers) 0"

primrec tree_notes :: "caller_tree \<Rightarrow> string option set" where
  "tree_notes (CallerTree function file n callers truncated note) =
     insert note (\<Union> (set (map tree_notes callers)))"

lemma tree_keys_cycle_tree [simp]: "tree_keys (cycle_tree k) = {k}"
  by (cases k) (simp add: cycle_tree_def)

lemma tree_keys_entry_point_tree [simp]: "tree_keys (entry_point_tree k) = {k}"
  by (cases k) (simp add: entry_point_tree_def)

lemma tree_keys_child_trees:
  assumes "\<And>c. c \<in> tree_keys (build c)"
  shows "\<Union> (tree_keys ` set (child_trees build visited callers)) =
    (\<Union>c \<in> set callers - visited. tree_keys (build c)) \<union> (set callers \<inter> visited)"
proof (induction callers arbitrary: visited)
  case (Cons c callers)
  show ?case
  proof (cases "c \<in> visited")
    case True
    then show ?thesis using Cons.IH [of visited] by auto
  next
    case False
    have "\<Union> (tree_keys ` set (child_trees build visited (c # callers))) =
        tree_keys (build c) \<union> (\<Union>d \<in> set callers - insert c visited. tree_keys (build d)) \<union> (set callers \<inter> insert c visited)"
      using False Cons.IH [of "insert c visited"] by auto
    also have "\<dots> = tree_keys (build c) \<union> (\<Union>d \<in> set callers - visited. tree_keys (build d)) \<union> (set callers \<inter> visited)"
      using assms [of c] by auto
    finally show ?thesis using False by auto
  qed
qed simp

definition callers_within :: "(func_key \<times> func_key) set \<Rightarrow> nat \<Rightarrow> func_key \<Rightarrow> func_key set" where
  "callers_within R d k = {x. \<exists>n \<le> d. (x, k) \<in> R ^^ n}"

lemma callers_within_0 [simp]: "callers_within R 0 k = {k}"
  by (auto simp: callers_within_def)

lemma callers_within_Suc:
  "callers_within R (Suc d) k = insert k (\<Union>c \<in> {c. (c, k) \<in> R \<and> c \<noteq> k}. callers_within R d c)"
proof
  show "callers_within R (Suc d) k \<subseteq> insert k (\<Union>c \<in> {c. (c, k) \<in> R \<and> c \<noteq> k}. callers_within R d c)"
  proof
    fix x assume "x \<in> callers_within R (Suc d) k"
    then obtain n where "n \<le> Suc d" "(x, k) \<in> R ^^ n" by (auto simp: callers_within_def)
    then show "x \<in> insert k (\<Union>c \<in> {c. (c, k) \<in> R \<and> c \<noteq> k}. callers_within R d c)"
    proof (induction n)
      case (Suc n)
      from Suc.prems(2) obtain c where c: "(x, c) \<in> R ^^ n" "(c, k) \<in> R" by auto
      show ?case
      proof (cases "c = k")
        case True
        with c(1) Suc show ?thesis by simp
      next
        case False
        have "x \<in> callers_within R d c" using c(1) Suc.prems(1) by (auto simp: callers_within_def)
        with c(2) False show ?thesis by blast
      qed
    qed simp
  qed
  show "insert k (\<Union>c \<in> {c. (c, k) \<in> R \<and> c \<noteq> k}. callers_within R d c) \<subseteq> callers_within R (Suc d) k"
  proof
    fix x assume "x \<in> insert k (\<Union>c \<in> {c. (c, k) \<in> R \<and> c \<noteq> k}. callers_within R d c)"
    then consider "x = k" | c n where "(c, k) \<in> R" "n \<le> d" "(x, c) \<in> R ^^ n" by (auto simp: callers_within_def)
    then show "x \<in> callers_within R (Suc d) k"
    proof cases
      case 1
      then have "(x, k) \<in> R ^^ 0" by simp
      then show ?thesis unfolding callers_within_def by blast
    next
      case 2
      then have "(x, k) \<in> R ^^ Suc n" "Suc n \<le> Suc d" by auto
      then show ?thesis unfolding callers_within_def by blast
    qed
  qed
qed

lemma tree_keys_build_caller_tree:
  "tree_keys (build_caller_tree rg d k) = callers_within (caller_rel rg) d k"
proof (induction d arbitrary: k)
  case 0
  show ?case by (cases k) (simp add: Let_def)
next
  case (Suc d)
  have root: "c \<in> tree_keys (build_caller_tree rg d c)" for c
    unfolding Suc.IH by (auto simp: callers_within_def intro: exI [of _ 0])
  have rel: "{c. (c, k) \<in> caller_rel rg \<and> c \<noteq> k} = set (get_list rg k) - {k}" by (auto simp: caller_rel_def)
  show ?case
  proof (cases "get_list rg k = []")
    case True
    then show ?thesis by (simp add: callers_within_Suc rel)
  next
    case False
    then have "tree_keys (build_caller_tree rg (Suc d) k) =
        insert k (\<Union> (tree_keys ` set (child_trees (build_caller_tree rg d) {k} (get_list rg k))))"
      by (simp add: Let_def)
    also have "\<dots> = insert k (\<Union>c \<in> set (get_list rg k) - {k}. tree_keys (build_caller_tree rg d c))"
      unfolding tree_keys_child_trees [of "build_caller_tree rg d", OF root] by auto
    finally show ?thesis unfolding callers_within_Suc rel Suc.IH .
  qed
qed

text \<open>Two functions that call each other: the tree repeats them down to the depth limit.\<close>

lemma mutual_recursion_tree:
  assumes "get_list rg a = [b]" and "get_list rg b = [a]" and "a \<noteq> b"
  shows "tree_height (build_caller_tree rg d a) = d \<and> Some ''Cycle detected'' \<notin> tree_notes (build_caller_tree rg d a)"
  using assms
proof (induction d arbitrary: a b)
  case 0
  then show ?case by simp
next
  case (Suc d)
  from Suc.IH [OF Suc.prems(2,1)] Suc.prems show ?case by simp
qed

section \<open>The targets of the impact analysis\<close>

definition matching_callees :: "project_call_graph \<Rightarrow> string \<Rightarrow> string option \<Rightarrow> func_key set" where
  "matching_callees cg target file =
     dst_key ` {e \<in> set cg. names_match (dst_func e) target \<and> passes_filter file (dst_file e)}"

definition matching_callers :: "project_call_graph \<Rightarrow> string \<Rightarrow> string option \<Rightarrow> func_key set" where
  "matching_callers cg target file =
     src_key ` {e \<in> set cg. names_match (src_func e) target \<and> passes_filter file (src_file e)}"

text \<open>A table of caller trees for a set of functions, where one of equal names stands for all of them.\<close>

definition targets_for :: "(func_key \<rightharpoonup> func_key list) \<Rightarrow> nat \<Rightarrow> func_key set \<Rightarrow> (string \<rightharpoonup> caller_tree) \<Rightarrow> bool" where
  "targets_for rg d K m \<longleftrightarrow>
     dom m = func_string ` K \<and> (\<forall>s t. m s = Some t \<longrightarrow> (\<exists>k \<in> K. s = func_string k \<and> t = build_caller_tree rg d k))"

lemma targets_for_add:
  assumes "targets_for rg d K m"
  shows "targets_for rg d (insert k K) (add_target rg d k m)"
proof (cases "m (func_string k)")
  case None
  then show ?thesis using assms by (auto simp: targets_for_def add_target_def)
next
  case (Some t)
  then have "func_string k \<in> dom m" by blast
  then show ?thesis using assms Some unfolding targets_for_def add_target_def by auto
qed

lemma targets_for_fold:
  assumes "targets_for rg d K m"
  shows "targets_for rg d (K \<union> key ` {e \<in> set cg. P e}) (fold (\<lambda>e m. if P e then add_target rg d (key e) m else m) cg m)"
  using assms
proof (induction cg arbitrary: K m)
  case (Cons e cg)
  show ?case
  proof (cases "P e")
    case True
    then have "K \<union> key ` {e' \<in> set (e # cg). P e'} = insert (key e) K \<union> key ` {e \<in> set cg. P e}" by auto
    with True Cons.IH [OF targets_for_add [OF Cons.prems, of "key e"]] show ?thesis by simp
  next
    case False
    then have "K \<union> key ` {e' \<in> set (e # cg). P e'} = K \<union> key ` {e \<in> set cg. P e}" by auto
    with False Cons.IH [OF Cons.prems] show ?thesis by simp
  qed
qed simp

lemma fold_found_any:
  "fold (\<lambda>e (m, found). if P e then (f e m, True) else (m, found)) cg (m, found) =
     (fold (\<lambda>e m. if P e then f e m else m) cg m, found \<or> (\<exists>e \<in> set cg. P e))"
  by (induction cg arbitrary: m found) auto

lemma impact_analysis_targets:
  fixes cg wanted d flt
  defines "K \<equiv> (if matching_callees cg wanted flt \<noteq> {} then matching_callees cg wanted flt
    else matching_callers cg wanted flt)"
  shows "K = {} \<longleftrightarrow> (\<exists>err. impact_analysis enum cg wanted d flt = Inl err)"
    and "impact_analysis enum cg wanted d flt = Inr r \<Longrightarrow> targets_for (build_reverse_graph cg) d K (ir_targets r)"
    and "impact_analysis enum cg wanted d flt = Inr r \<Longrightarrow> ir_total_targets r = card (dom (ir_targets r))"
proof -
  let ?rg = "build_reverse_graph cg"
  let ?P = "\<lambda>e. names_match (dst_func e) wanted \<and> passes_filter flt (dst_file e)"
  let ?Q = "\<lambda>e. names_match (src_func e) wanted \<and> passes_filter flt (src_file e)"
  have empty: "targets_for ?rg d {} Map.empty" by (simp add: targets_for_def)
  define m1 where "m1 = fold (\<lambda>e m. if ?P e then add_target ?rg d (dst_key e) m else m) cg Map.empty"
  define m2 where "m2 = fold (\<lambda>e m. if ?Q e then add_target ?rg d (src_key e) m else m) cg m1"
  have t1: "targets_for ?rg d (matching_callees cg wanted flt) m1"
    using targets_for_fold [OF empty, where key = dst_key and P = ?P and cg = cg] by (simp add: matching_callees_def m1_def)
  have found: "(\<exists>e \<in> set cg. ?P e) \<longleftrightarrow> matching_callees cg wanted flt \<noteq> {}"
    by (auto simp: matching_callees_def)
  have t2: "targets_for ?rg d (matching_callees cg wanted flt \<union> matching_callers cg wanted flt) m2"
    using targets_for_fold [OF t1, where key = src_key and P = ?Q and cg = cg] by (simp add: matching_callers_def m2_def)
  define m where "m = (if matching_callees cg wanted flt \<noteq> {} then m1 else m2)"
  have t: "targets_for ?rg d K m"
    using t1 t2 by (auto simp: m_def K_def)
  have run: "impact_analysis enum cg wanted d flt =
      (if m = Map.empty then Inl (FunctionNotFound wanted flt (find_similar_functions enum cg wanted))
       else Inr \<lparr>ir_targets = m, ir_total_targets = card (dom m)\<rparr>)"
    unfolding impact_analysis_def Let_def fold_found_any case_prod_conv m1_def [symmetric] m2_def [symmetric] m_def found
    by simp
  have "m = Map.empty \<longleftrightarrow> K = {}" using t by (auto simp: targets_for_def)
  then show "K = {} \<longleftrightarrow> (\<exists>err. impact_analysis enum cg wanted d flt = Inl err)" unfolding run by auto
  show "impact_analysis enum cg wanted d flt = Inr r \<Longrightarrow> targets_for ?rg d K (ir_targets r)"
    and "impact_analysis enum cg wanted d flt = Inr r \<Longrightarrow> ir_total_targets r = card (dom (ir_targets r))"
    using t unfolding run by (auto split: if_splits)
qed

section \<open>Edit distance\<close>

text \<open>One edit: a character is inserted, deleted or replaced.\<close>

definition edit :: "(string \<times> string) set" where
  "edit = {(u @ x @ v, u @ y @ v) | u x y v. length x \<le> 1 \<and> length y \<le> 1}"

fun lev :: "string \<Rightarrow> string \<Rightarrow> nat" where
  "lev [] t = length t"
| "lev s [] = length s"
| "lev (a # s) (b # t) = min (min (lev s (b # t) + 1) (lev (a # s) t + 1)) (lev s t + (if a = b then 0 else 1))"

lemma lev_Nil2 [simp]: "lev s [] = length s"
  by (cases s) simp_all

lemma lev_drop: "lev (a # s) t \<le> lev s t + 1"
  by (cases t) simp_all

lemma lev_add: "lev s t \<le> lev (a # s) t + 1"
proof (induction t)
  case (Cons b t)
  have "lev s (b # t) \<le> lev s t + 1"
  proof (cases s)
    case (Cons c s')
    then show ?thesis by simp
  qed simp
  with Cons.IH show ?case by (auto simp: min_def)
qed simp

lemma lev_replace: "lev (a # s) t \<le> lev (b # s) t + 1"
proof (induction t)
  case (Cons c t)
  then show ?case by (auto simp: min_def)
qed simp

lemma lev_edit: "length x \<le> 1 \<Longrightarrow> length y \<le> 1 \<Longrightarrow> lev (u @ x @ v) t \<le> lev (u @ y @ v) t + 1"
proof (induction u arbitrary: t)
  case Nil
  consider "x = []" "y = []" | a where "x = [a]" "y = []" | b where "x = []" "y = [b]" | a b where "x = [a]" "y = [b]"
    using Nil by (cases x; cases y) auto
  then show ?case using lev_drop lev_add lev_replace by cases auto
next
  case (Cons c u)
  note IH = Cons.IH [OF Cons.prems]
  show ?case
  proof (induction t)
    case Nil
    then show ?case using Cons.prems by (cases x; cases y) auto
  next
    case (Cons b t)
    have "lev (u @ x @ v) (b # t) \<le> lev (u @ y @ v) (b # t) + 1" "lev (u @ x @ v) t \<le> lev (u @ y @ v) t + 1"
      by (rule IH)+
    with Cons.IH show ?case by (auto simp: min_def)
  qed
qed

lemma edit_cases:
  assumes "(s, t) \<in> edit"
  obtains u x y v where "s = u @ x @ v" "t = u @ y @ v" "length x \<le> 1" "length y \<le> 1"
  using assms unfolding edit_def by blast

lemma lev_steps: "(s, t) \<in> edit ^^ n \<Longrightarrow> lev s t \<le> n"
proof (induction n arbitrary: s)
  case 0
  have "lev s s = 0" for s by (induction s) simp_all
  with 0 show ?case by simp
next
  case (Suc n)
  then obtain r where r: "(s, r) \<in> edit" "(r, t) \<in> edit ^^ n" by (metis relpow_Suc_E2)
  from r(1) obtain u x y v where "s = u @ x @ v" "r = u @ y @ v" "length x \<le> 1" "length y \<le> 1" by (rule edit_cases)
  then have "lev s t \<le> lev r t + 1" using lev_edit by simp
  with Suc.IH [OF r(2)] show ?case by simp
qed

lemma edit_Cons:
  assumes "(s, t) \<in> edit"
  shows "(c # s, c # t) \<in> edit"
proof (rule edit_cases [OF assms])
  fix u x y v assume "s = u @ x @ v" "t = u @ y @ v" "length x \<le> 1" "length y \<le> 1"
  then have "c # s = (c # u) @ x @ v \<and> c # t = (c # u) @ y @ v \<and> length x \<le> 1 \<and> length y \<le> 1" by simp
  then show ?thesis unfolding edit_def by blast
qed

lemma edits_Cons: "(s, t) \<in> edit ^^ n \<Longrightarrow> (c # s, c # t) \<in> edit ^^ n"
  by (induction n arbitrary: t) (auto intro: edit_Cons)

lemma editI: "length x \<le> 1 \<Longrightarrow> length y \<le> 1 \<Longrightarrow> (x @ v, y @ v) \<in> edit"
  unfolding edit_def by (rule CollectI) (metis append_Nil)

lemma edits_insert: "([], t) \<in> edit ^^ length t"
proof (induction t)
  case (Cons b t)
  have "([], [b]) \<in> edit" using editI [of "[]" "[b]" "[]"] by simp
  moreover have "([b], b # t) \<in> edit ^^ length t" using edits_Cons [OF Cons] by simp
  ultimately have "([], b # t) \<in> edit ^^ Suc (length t)" by (rule relpow_Suc_I2)
  then show ?case by simp
qed simp

lemma edits_delete: "(s, []) \<in> edit ^^ length s"
proof (induction s)
  case (Cons a s)
  have "(a # s, s) \<in> edit" using editI [of "[a]" "[]" s] by simp
  from relpow_Suc_I2 [OF this Cons] show ?case by simp
qed simp

lemma edits_lev: "(s, t) \<in> edit ^^ lev s t"
proof (induction s t rule: lev.induct)
  case (1 t)
  show ?case using edits_insert by simp
next
  case (2 a s)
  show ?case using edits_delete [of "a # s"] by simp
next
  case (3 a s b t)
  have 1: "(a # s, b # t) \<in> edit ^^ Suc (lev s (b # t))"
    by (rule relpow_Suc_I2 [OF _ 3(1)]) (use editI [of "[a]" "[]" s] in simp)
  have 2: "(a # s, b # t) \<in> edit ^^ Suc (lev (a # s) t)"
    by (rule relpow_Suc_I [OF 3(2)]) (use editI [of "[]" "[b]" t] in simp)
  have 3: "(a # s, b # t) \<in> edit ^^ (lev s t + (if a = b then 0 else 1))"
  proof (cases "a = b")
    case True
    with edits_Cons [OF 3(3)] show ?thesis by simp
  next
    case False
    have "(a # s, b # s) \<in> edit" using editI [of "[a]" "[b]" s] by simp
    from relpow_Suc_I2 [OF this edits_Cons [OF 3(3)]] False show ?thesis by simp
  qed
  show ?case using 1 2 3 by (simp add: min_def)
qed

lemma lev_least: "lev s t = (LEAST n. (s, t) \<in> edit ^^ n)"
  by (rule Least_equality [symmetric]) (auto intro: edits_lev lev_steps)

lemma edit_rev: "(s, t) \<in> edit \<Longrightarrow> (rev s, rev t) \<in> edit"
proof (erule edit_cases)
  fix u x y v :: string assume "length x \<le> 1" "length y \<le> 1" "s = u @ x @ v" "t = u @ y @ v"
  then have "rev s = rev v @ rev x @ rev u \<and> rev t = rev v @ rev y @ rev u \<and> length (rev x) \<le> 1 \<and> length (rev y) \<le> 1" by simp
  then show "(rev s, rev t) \<in> edit" unfolding edit_def by blast
qed

lemma edits_rev: "(s, t) \<in> edit ^^ n \<Longrightarrow> (rev s, rev t) \<in> edit ^^ n"
  by (induction n arbitrary: t) (auto intro: edit_rev)

lemma lev_rev: "lev (rev s) (rev t) = lev s t"
proof -
  have "(rev s, rev t) \<in> edit ^^ n \<longleftrightarrow> (s, t) \<in> edit ^^ n" for n
    using edits_rev [of s t n] edits_rev [of "rev s" "rev t" n] by auto
  then show ?thesis by (simp add: lev_least)
qed

text \<open>The cell \<open>(i, j)\<close> of the matrix is the distance of the prefixes of \<open>i\<close> and \<open>j\<close> characters.\<close>

definition prefix_dist :: "string \<Rightarrow> string \<Rightarrow> nat \<Rightarrow> nat \<Rightarrow> nat" where
  "prefix_dist s t i j = lev (rev (take i s)) (rev (take j t))"

lemma prefix_dist_0 [simp]:
  "j \<le> length t \<Longrightarrow> prefix_dist s t 0 j = j" "i \<le> length s \<Longrightarrow> prefix_dist s t i 0 = i"
  by (simp_all add: prefix_dist_def)

lemma prefix_dist_Suc:
  assumes "i < length s" and "j < length t"
  shows "prefix_dist s t (i + 1) (j + 1) =
    min (min (prefix_dist s t i (j + 1) + 1) (prefix_dist s t (i + 1) j + 1))
      (prefix_dist s t i j + (if s ! i = t ! j then 0 else 1))"
  using assms by (simp add: prefix_dist_def take_Suc_conv_app_nth)

text \<open>The border and the rows above \<open>i\<close> and the first \<open>j\<close> inner cells of row \<open>i + 1\<close> are filled.\<close>

definition filled :: "string \<Rightarrow> string \<Rightarrow> nat \<Rightarrow> nat \<Rightarrow> (nat \<Rightarrow> nat \<Rightarrow> nat) \<Rightarrow> bool" where
  "filled s t i j m \<longleftrightarrow>
     (\<forall>k \<le> length s. \<forall>l \<le> length t. (k = 0 \<or> l = 0 \<or> k \<le> i \<or> (k = i + 1 \<and> l \<le> j)) \<longrightarrow> m k l = prefix_dist s t k l)"

lemma filled_cell:
  assumes "filled s t i j m" and "i < length s" and "j < length t"
  shows "filled s t i (j + 1) (set_cell (i + 1) (j + 1) (lev_cell m i j (s ! i) (t ! j)) m)"
proof -
  have "m i (j + 1) = prefix_dist s t i (j + 1)" "m (i + 1) j = prefix_dist s t (i + 1) j" "m i j = prefix_dist s t i j"
    using assms(1) [unfolded filled_def, rule_format, of i "j + 1"] assms(1) [unfolded filled_def, rule_format, of "i + 1" j]
      assms(1) [unfolded filled_def, rule_format, of i j] assms(2,3) by simp_all
  then have cell: "lev_cell m i j (s ! i) (t ! j) = prefix_dist s t (i + 1) (j + 1)"
    unfolding lev_cell_def prefix_dist_Suc [OF assms(2,3)] by simp
  show ?thesis
    unfolding cell filled_def
  proof (intro allI impI)
    fix k l assume kl: "k \<le> length s" "l \<le> length t" "k = 0 \<or> l = 0 \<or> k \<le> i \<or> (k = i + 1 \<and> l \<le> j + 1)"
    show "set_cell (i + 1) (j + 1) (prefix_dist s t (i + 1) (j + 1)) m k l = prefix_dist s t k l"
    proof (cases "k = i + 1 \<and> l = j + 1")
      case False
      then have "k = 0 \<or> l = 0 \<or> k \<le> i \<or> (k = i + 1 \<and> l \<le> j)" using kl(3) by auto
      with assms(1) kl(1,2) have "m k l = prefix_dist s t k l" unfolding filled_def by blast
      with False show ?thesis by (auto simp: set_cell_def)
    qed (simp add: set_cell_def)
  qed
qed

lemma filled_border:
  "filled s t 0 0 (for_range (length t + 1) (\<lambda>j. set_cell 0 j j)
     (for_range (length s + 1) (\<lambda>i. set_cell i 0 i) (\<lambda>i j. 0)))"
proof -
  have 1: "for_range n (\<lambda>i. set_cell i 0 i) m = (\<lambda>i j. if i < n \<and> j = 0 then i else m i j)" for n m
    by (induction n) (auto simp: for_range_Suc set_cell_def fun_eq_iff)
  have 2: "for_range n (\<lambda>j. set_cell 0 j j) m = (\<lambda>i j. if i = 0 \<and> j < n then j else m i j)" for n m
    by (induction n) (auto simp: for_range_Suc set_cell_def fun_eq_iff)
  show ?thesis unfolding 1 2 filled_def by auto
qed

lemma levenshtein_lev: "levenshtein_distance s t = lev s t"
proof -
  let ?row = "\<lambda>i. for_range (length t) (\<lambda>j m. set_cell (i + 1) (j + 1) (lev_cell m i j (s ! i) (t ! j)) m)"
  have row: "filled s t (i + 1) 0 (?row i m)" if "filled s t i 0 m" "i < length s" for i m
  proof -
    have "filled s t i (length t) (?row i m)"
      by (rule for_range_counted [where P = "filled s t i"]) (use that filled_cell in auto)
    then show ?thesis unfolding filled_def by (auto simp: le_Suc_eq)
  qed
  let ?m = "for_range (length t + 1) (\<lambda>j. set_cell 0 j j) (for_range (length s + 1) (\<lambda>i. set_cell i 0 i) (\<lambda>i j. 0))"
  have "filled s t (length s) 0 (for_range (length s) ?row ?m)"
    by (rule for_range_counted [where P = "\<lambda>i. filled s t i 0"]) (use filled_border row in auto)
  then have "for_range (length s) ?row ?m (length s) (length t) = prefix_dist s t (length s) (length t)"
    unfolding filled_def by blast
  also have "\<dots> = lev s t" by (simp add: prefix_dist_def lev_rev)
  finally show ?thesis by (cases "s = [] \<or> t = []") (auto simp: levenshtein_distance_def Let_def)
qed

section \<open>Uncalled functions\<close>

lemma fold_dead_report:
  fixes skip :: "function_ref \<Rightarrow> bool" and enrich :: "function_ref \<Rightarrow> function_ref"
  shows "fold (\<lambda>f (dead, possibly, by_file). if skip f then (dead, possibly, by_file)
      else if fr_is_public f then (dead, possibly @ [enrich f], by_file)
      else (dead @ [enrich f], possibly, entry_push (fr_file f) (fr_name f) by_file)) fs (d, p, m) =
    (d @ map enrich (filter (\<lambda>f. \<not> skip f \<and> \<not> fr_is_public f) fs),
     p @ map enrich (filter (\<lambda>f. \<not> skip f \<and> fr_is_public f) fs),
     fold (\<lambda>f. entry_push (fr_file f) (fr_name f)) (filter (\<lambda>f. \<not> skip f \<and> \<not> fr_is_public f) fs) m)"
  by (induction fs arbitrary: d p m) simp_all

lemma get_list_by_file:
  "get_list (fold (\<lambda>f. entry_push (fr_file f) (fr_name f)) fs m) x =
     get_list m x @ map fr_name (filter (\<lambda>f. fr_file f = x) fs)"
  by (induction fs arbitrary: m) simp_all

lemma dead_code_analysis_fields:
  fixes cg fs ep
  defines "r \<equiv> dead_code_analysis cg fs ep"
    and "alive \<equiv> \<lambda>f. fr_key f \<in> dst_key ` set cg \<or> implicitly_called ep f"
  shows "dead_functions r = filter (\<lambda>f. \<not> alive f \<and> \<not> fr_is_public f) fs"
    and "possibly_dead r = filter (\<lambda>f. \<not> alive f \<and> fr_is_public f) fs"
    and "total_dead r = length (dead_functions r)" and "total_possibly_dead r = length (possibly_dead r)"
    and "get_list (dead_by_file r) x = map fr_name (filter (\<lambda>f. fr_file f = x) (dead_functions r))"
proof -
  define dead where "dead = filter (\<lambda>f. \<not> alive f \<and> \<not> fr_is_public f) fs"
  have r: "r = dead_report fs (dead, filter (\<lambda>f. \<not> alive f \<and> fr_is_public f) fs,
      fold (\<lambda>f. entry_push (fr_file f) (fr_name f)) dead Map.empty)"
    using fold_dead_report [of alive "\<lambda>f. f" fs "[]" "[]" Map.empty]
    by (simp add: r_def dead_code_analysis_def Let_def alive_def dead_def)
  show "dead_functions r = filter (\<lambda>f. \<not> alive f \<and> \<not> fr_is_public f) fs"
    and "possibly_dead r = filter (\<lambda>f. \<not> alive f \<and> fr_is_public f) fs"
    and "total_dead r = length (dead_functions r)" and "total_possibly_dead r = length (possibly_dead r)"
    and "get_list (dead_by_file r) x = map fr_name (filter (\<lambda>f. fr_file f = x) (dead_functions r))"
    by (simp_all add: r dead_report_def get_list_by_file, simp_all add: dead_def)
qed

lemma called_iff: "k \<in> dst_key ` set cg \<longleftrightarrow> (\<exists>g. (g, k) \<in> (calls cg)\<^sup>+)"
proof
  assume "k \<in> dst_key ` set cg"
  then obtain e where "e \<in> set cg" "k = dst_key e" by blast
  then have "(src_key e, k) \<in> calls cg" by (auto simp: calls_def)
  then show "\<exists>g. (g, k) \<in> (calls cg)\<^sup>+" by blast
next
  assume "\<exists>g. (g, k) \<in> (calls cg)\<^sup>+"
  then obtain g where "(g, k) \<in> (calls cg)\<^sup>+" ..
  then obtain h where "(h, k) \<in> calls cg" by (auto dest: tranclD2)
  then show "k \<in> dst_key ` set cg" by (auto simp: calls_def)
qed

end
