(* ===== verification/Call_Graph_Properties.thy ===== *)
theory Call_Graph_Properties
  imports Call_Graph_Correct Callers_Correct "HOL-Library.Char_ord" "HOL-Library.Product_Lexorder"
begin

text \<open>
  The properties of the analyses over the call graph: strongly connected components, cycles, callers,
  similar names and uncalled functions, with sample graphs on which their hypotheses hold.
\<close>

section \<open>Sample graphs\<close>

definition ring_edges :: "string \<rightharpoonup> string list" where
  "ring_edges = [''a'' \<mapsto> [''b''], ''b'' \<mapsto> [''c''], ''c'' \<mapsto> [''a'', ''d'']]"

definition call_sample :: project_call_graph where
  "call_sample =
     [\<lparr>src_file = ''m.py'', src_func = ''ping'', dst_file = ''m.py'', dst_func = ''pong''\<rparr>,
      \<lparr>src_file = ''m.py'', src_func = ''pong'', dst_file = ''m.py'', dst_func = ''ping''\<rparr>]"

lemma enumerates_keys: "enumerates (sorted_list_of_set :: func_key set \<Rightarrow> func_key list)"
  by (simp add: enumerates_def)

section \<open>Strongly connected components and cycles\<close>

text \<open>
  C24: On a graph with finitely many nodes \<open>find_sccs\<close> always answers, without a panic: with the
  strongly connected components of the graph reachable from \<open>nodes\<close>, every node in exactly one of them,
  in an order in which no component has an edge to a later one.
\<close>

theorem find_sccs_exact:
  assumes "finite (dom edges)"
  shows "\<exists>comps. find_sccs to_scc_string nodes edges = Some (map (\<lambda>c. scc_new (map to_scc_string c)) comps) \<and>
    distinct (concat comps) \<and> set (concat comps) = reachable_from edges nodes \<and>
    (\<forall>c \<in> set comps. \<exists>v \<in> set c. set c = {w. mutually_reachable edges v w}) \<and>
    sorted_wrt (\<lambda>c d. \<forall>x \<in> set c. \<forall>y \<in> set d. (x, y) \<notin> edge_rel edges) comps"
  by (rule find_sccs_result [OF assms, of to_scc_string nodes]) (auto simp: components_part_def)

theorem find_sccs_exact_witness:
  "finite (dom ring_edges) \<and> (\<exists>comps. find_sccs (\<lambda>s. s) [''d'', ''a''] ring_edges = Some (map scc_new comps) \<and>
     distinct (concat comps))"
  using find_sccs_exact [of ring_edges "\<lambda>s. s" "[''d'', ''a'']"] by (auto simp: ring_edges_def)

text \<open>
  C25: The cycles of the functions of a project: where the names of the functions are distinct, two
  functions appear in a common cycle of the report exactly if each calls the other through a chain of
  calls and they do not call only themselves; the edges of a cycle are the calls between its functions.
\<close>

theorem function_level_cycles_exact:
  assumes "enumerates enum" and "inj_on func_string (src_key ` set call_graph \<union> dst_key ` set call_graph)"
  shows "\<exists>report. find_function_level_cycles enum call_graph = Some report \<and>
    detect_cycles enum (function_graph call_graph) GranFunction = Some report \<and>
    cr_granularity report = GranFunction \<and> cycles_exact (function_graph call_graph) report"
proof -
  have "finite (dom (function_graph call_graph))" by (simp add: dom_function_graph)
  from detect_cycles_report [OF assms(1) this, of GranFunction] assms(2) show ?thesis
    by (auto simp: function_level_is_detect graph_nodes_function_graph)
qed

theorem function_level_cycles_exact_witness:
  "inj_on func_string (src_key ` set call_sample \<union> dst_key ` set call_sample) \<and>
   (\<exists>report. find_function_level_cycles sorted_list_of_set call_sample = Some report)"
proof -
  have "inj_on func_string {(''m.py'', ''ping''), (''m.py'', ''pong'')}"
    by (rule inj_onI) (auto simp: func_string_def)
  then have "inj_on func_string (src_key ` set call_sample \<union> dst_key ` set call_sample)"
    by (simp add: call_sample_def src_key_def dst_key_def insert_commute)
  with function_level_cycles_exact [OF enumerates_keys this] show ?thesis by blast
qed

section \<open>Callers\<close>

text \<open>
  C26: The impact analysis fails exactly if no function of the graph has a matching name and file. Else
  it has a tree for every matching callee, or for every matching caller if no callee matches, and the
  functions in the tree of \<open>k\<close> are those from which \<open>k\<close> is reached by at most \<open>max_depth\<close> calls.
\<close>

theorem impact_analysis_exact:
  "case impact_analysis enum call_graph target max_depth target_file of
     Inl err \<Rightarrow> matching_callees call_graph target target_file = {} \<and> matching_callers call_graph target target_file = {}
   | Inr r \<Rightarrow>
       (let K = (if matching_callees call_graph target target_file \<noteq> {} then matching_callees call_graph target target_file
                 else matching_callers call_graph target target_file)
        in K \<noteq> {} \<and> dom (ir_targets r) = func_string ` K \<and> ir_total_targets r = card (func_string ` K) \<and>
           (\<forall>s t. ir_targets r s = Some t \<longrightarrow>
              (\<exists>k \<in> K. s = func_string k \<and> tree_keys t = callers_within (calls call_graph) max_depth k)))"
proof (cases "impact_analysis enum call_graph target max_depth target_file")
  case (Inl err)
  then show ?thesis
    using impact_analysis_targets(1) [of call_graph target target_file enum max_depth] by (auto split: if_splits)
next
  case (Inr r)
  define K where "K = (if matching_callees call_graph target target_file \<noteq> {}
    then matching_callees call_graph target target_file else matching_callers call_graph target target_file)"
  have "K \<noteq> {}" using impact_analysis_targets(1) [of call_graph target target_file enum max_depth] Inr by (simp add: K_def)
  moreover have t: "targets_for (build_reverse_graph call_graph) max_depth K (ir_targets r)"
    unfolding K_def by (rule impact_analysis_targets(2) [OF Inr])
  moreover have "ir_total_targets r = card (dom (ir_targets r))" by (rule impact_analysis_targets(3) [OF Inr])
  moreover have "\<exists>k \<in> K. s = func_string k \<and> tree_keys u = callers_within (calls call_graph) max_depth k"
    if "ir_targets r s = Some u" for s u
  proof -
    from t that obtain k where k: "k \<in> K" "s = func_string k" "u = build_caller_tree (build_reverse_graph call_graph) max_depth k"
      unfolding targets_for_def by blast
    then show ?thesis
      by (intro bexI [of _ k] conjI) (simp_all only: tree_keys_build_caller_tree caller_rel_reverse_graph)
  qed
  ultimately show ?thesis unfolding Inr K_def [symmetric] by (simp add: targets_for_def)
qed

theorem impact_analysis_exact_witness:
  "\<exists>r t. impact_analysis sorted_list_of_set call_sample ''ping'' 5 None = Inr r \<and>
     ir_targets r ''m.py:ping'' = Some t \<and>
     tree_keys t = callers_within (calls call_sample) 5 (''m.py'', ''ping'')"
proof -
  have K: "matching_callees call_sample ''ping'' None = {(''m.py'', ''ping'')}"
  proof -
    have "last_segment ''pong'' = ''pong''" by (simp add: last_segment_def starts_with_def)
    then have "names_match ''ping'' ''ping''" "\<not> names_match ''pong'' ''ping''"
      by (simp_all add: names_match_def contains_str_def starts_with_def)
    moreover have "matching_callees call_sample ''ping'' None =
        dst_key ` set (filter (\<lambda>e. names_match (dst_func e) ''ping'') call_sample)"
      by (simp add: matching_callees_def passes_filter_def)
    ultimately show ?thesis by (simp add: call_sample_def dst_key_def)
  qed
  show ?thesis
  proof (cases "impact_analysis sorted_list_of_set call_sample ''ping'' 5 None")
    case (Inl err)
    with impact_analysis_exact [where enum = sorted_list_of_set and call_graph = call_sample and target = "''ping''"
        and max_depth = 5 and target_file = None] K show ?thesis by simp
  next
    case (Inr r)
    have if_K: "(if {x} \<noteq> {} then {x} else S) = {x}" for x :: func_key and S by simp
    note E = impact_analysis_exact [where enum = sorted_list_of_set and call_graph = call_sample and target = "''ping''"
        and max_depth = 5 and target_file = None, unfolded Inr K sum.case Let_def if_K]
    have d: "dom (ir_targets r) = {func_string (''m.py'', ''ping'')}"
      using E by (elim conjE) (simp only: image_insert image_empty)
    note E' = E [THEN conjunct2, THEN conjunct2, THEN conjunct2, rule_format]
    have t: "tree_keys u = callers_within (calls call_sample) 5 (''m.py'', ''ping'')" if "ir_targets r s = Some u" for s u
    proof -
      have single: "\<exists>k \<in> {x}. A k \<and> B k \<Longrightarrow> B x" for x :: func_key and A B by blast
      show ?thesis by (rule single [OF E' [OF that]])
    qed
    have "''m.py:ping'' \<in> dom (ir_targets r)" unfolding d by (simp add: func_string_def)
    then obtain u where u: "ir_targets r ''m.py:ping'' = Some u" unfolding dom_def by (elim CollectE not_None_eq [THEN iffD1, THEN exE])
    show ?thesis using Inr u t [OF u] by (intro exI [of _ r] exI [of _ u]) simp
  qed
qed

text \<open>
  C27: The tree of callers of two functions that only call each other repeats them to the depth limit:
  no node carries the note of a detected cycle.
\<close>

theorem impact_repeats_cycles:
  assumes "get_list (build_reverse_graph call_graph) a = [b]" and "get_list (build_reverse_graph call_graph) b = [a]"
    and "a \<noteq> b"
  shows "tree_height (build_caller_tree (build_reverse_graph call_graph) max_depth a) = max_depth \<and>
    Some ''Cycle detected'' \<notin> tree_notes (build_caller_tree (build_reverse_graph call_graph) max_depth a)"
  by (rule mutual_recursion_tree [OF assms])

theorem impact_repeats_cycles_witness:
  "tree_height (build_caller_tree (build_reverse_graph call_sample) 1000 (''m.py'', ''ping'')) = 1000"
proof -
  have "get_list (build_reverse_graph call_sample) (''m.py'', ''ping'') = [(''m.py'', ''pong'')]"
    "get_list (build_reverse_graph call_sample) (''m.py'', ''pong'') = [(''m.py'', ''ping'')]"
    by (simp_all add: get_list_build_reverse_graph call_sample_def src_key_def dst_key_def)
  from impact_repeats_cycles [OF this] show ?thesis by simp
qed

text \<open>
  C28: \<open>levenshtein_distance\<close> is the least number of insertions, deletions and replacements of one
  character that turn the first string into the second.
\<close>

theorem levenshtein_least_edits: "levenshtein_distance s1 s2 = (LEAST n. (s1, s2) \<in> edit ^^ n)"
  by (simp add: levenshtein_lev lev_least)

section \<open>Uncalled functions\<close>


text \<open>
  Functions that call each other are never reported as dead, even where nothing else calls them:
  no function on a chain of calls that returns to it is in the report.
\<close>

theorem dead_code_misses_cycles:
  assumes "(fr_key f, fr_key f) \<in> (calls call_graph)\<^sup>+"
  shows "f \<notin> set (dead_functions (dead_code_analysis call_graph all_functions entry_points)) \<and>
    f \<notin> set (possibly_dead (dead_code_analysis call_graph all_functions entry_points))"
proof -
  have "fr_key f \<in> dst_key ` set call_graph" using assms called_iff by blast
  then show ?thesis by (simp add: dead_code_analysis_fields)
qed

definition ping_function :: function_ref where
  "ping_function = \<lparr>fr_file = ''m.py'', fr_name = ''ping'', fr_ref_count = 0, fr_is_public = False, fr_is_test = False,
     fr_is_trait_method = False, fr_has_decorator = False\<rparr>"

theorem dead_code_misses_cycles_witness:
  "(fr_key ping_function, fr_key ping_function) \<in> (calls call_sample)\<^sup>+ \<and>
   ping_function \<notin> set (dead_functions (dead_code_analysis call_sample [ping_function] None))"
proof -
  have "((''m.py'', ''ping''), (''m.py'', ''pong'')) \<in> calls call_sample"
    "((''m.py'', ''pong''), (''m.py'', ''ping'')) \<in> calls call_sample"
    by (simp_all add: calls_def call_sample_def src_key_def dst_key_def)
  then have "(fr_key ping_function, fr_key ping_function) \<in> (calls call_sample)\<^sup>+"
    unfolding fr_key_def ping_function_def by (simp add: trancl_into_trancl2)
  with dead_code_misses_cycles [OF this] show ?thesis by simp
qed

end
