(* ===== verification/Abstract_Value.thy ===== *)
theory Abstract_Value
  imports Text
begin

text \<open>
  The values and states of the abstract interpretation of \<open>dataflow/abstract_interp.rs\<close>: nullability,
  constants, intervals, the arithmetic on intervals, join and widening. A 64-bit float is its bit
  pattern; the only float operations the code uses are the parser, the test for NaN and equality.
\<close>

section \<open>Floats\<close>

type_synonym f64 = nat

definition f64_infinity :: f64 where
  "f64_infinity = 2047 * 2 ^ 52"

definition f64_is_nan :: "f64 \<Rightarrow> bool" where
  "f64_is_nan b \<longleftrightarrow> f64_infinity < b mod 2 ^ 63"

definition f64_eq :: "f64 \<Rightarrow> f64 \<Rightarrow> bool" where
  "f64_eq a b \<longleftrightarrow>
     \<not> f64_is_nan a \<and> \<not> f64_is_nan b \<and> (a = b \<or> (a mod 2 ^ 63 = 0 \<and> b mod 2 ^ 63 = 0))"

text \<open>The float nearest to \<open>n / d\<close>, ties to even, infinity where the fraction is too large.\<close>

fun bit_length :: "nat \<Rightarrow> nat" where
  "bit_length n = (if n = 0 then 0 else 1 + bit_length (n div 2))"

declare bit_length.simps [simp del]

definition round_half_even :: "nat \<Rightarrow> nat \<Rightarrow> nat" where
  "round_half_even n d =
     (let q = n div d; r = n mod d in if 2 * r < d \<or> (2 * r = d \<and> even q) then q else q + 1)"

definition f64_of_ratio :: "nat \<Rightarrow> nat \<Rightarrow> f64" where
  "f64_of_ratio n d =
     (if n = 0 then 0
      else
        let k = int (bit_length n) - int (bit_length d);
            e = (if d * 2 ^ nat k \<le> n * 2 ^ nat (- k) then k else k - 1);
            q = max (- 1074) (e - 52);
            m = round_half_even (n * 2 ^ nat (- q)) (d * 2 ^ nat q)
        in min f64_infinity (nat (q + 1074) * 2 ^ 52 + m))"

text \<open>\<open>s.parse::<f64>()\<close>: a decimal number, or infinity or not-a-number in any case.\<close>

definition split_sign :: "string \<Rightarrow> bool \<times> string" where
  "split_sign s =
     (case s of [] \<Rightarrow> (False, [])
      | c # cs \<Rightarrow> if c = CHR ''-'' then (True, cs) else if c = CHR ''+'' then (False, cs) else (False, s))"

definition parse_exponent :: "string \<Rightarrow> int option" where
  "parse_exponent s =
     (case s of [] \<Rightarrow> Some 0
      | c # cs \<Rightarrow>
          if c = CHR ''e'' \<or> c = CHR ''E'' then
            (case split_sign cs of (negative, digits) \<Rightarrow>
               if digits = [] \<or> \<not> list_all is_ascii_digit digits then None
               else Some (if negative then - digits_value digits else digits_value digits))
          else None)"

definition parse_decimal :: "string \<Rightarrow> f64 option" where
  "parse_decimal s =
     (let whole = takeWhile is_ascii_digit s;
          rest = dropWhile is_ascii_digit s;
          (fraction, rest) =
            (case rest of [] \<Rightarrow> ([], [])
             | c # cs \<Rightarrow> if c = CHR ''.'' then (takeWhile is_ascii_digit cs, dropWhile is_ascii_digit cs) else ([], rest))
      in if whole = [] \<and> fraction = [] then None
         else map_option (\<lambda>e.
           let e10 = e - int (length fraction)
           in f64_of_ratio (nat (digits_value (whole @ fraction)) * 10 ^ nat e10) (10 ^ nat (- e10)))
           (parse_exponent rest))"

definition parse_f64 :: "string \<Rightarrow> f64 option" where
  "parse_f64 s =
     (case split_sign s of (negative, rest) \<Rightarrow>
        map_option (\<lambda>b. if negative then 2 ^ 63 + b else b)
          (if to_lowercase rest \<in> {''inf'', ''infinity''} then Some f64_infinity
           else if to_lowercase rest = ''nan'' then Some (f64_infinity + 2 ^ 51)
           else parse_decimal rest))"

section \<open>Abstract values\<close>

datatype nullability = Never | Maybe | Always

datatype constant_value = ConstInt i64 | ConstFloat f64 | ConstString string | ConstBool bool | ConstNull

fun constant_eq :: "constant_value \<Rightarrow> constant_value \<Rightarrow> bool" where
  "constant_eq (ConstInt a) (ConstInt b) \<longleftrightarrow> a = b"
| "constant_eq (ConstFloat a) (ConstFloat b) \<longleftrightarrow> (f64_is_nan a \<and> f64_is_nan b) \<or> f64_eq a b"
| "constant_eq (ConstString a) (ConstString b) \<longleftrightarrow> a = b"
| "constant_eq (ConstBool a) (ConstBool b) \<longleftrightarrow> a = b"
| "constant_eq ConstNull ConstNull \<longleftrightarrow> True"
| "constant_eq _ _ \<longleftrightarrow> False"

text \<open>A bound of an interval is \<open>None\<close> where the interval is unbounded on that side.\<close>

type_synonym interval = "i64 option \<times> i64 option"

record abstract_value =
  av_type :: "string option"
  av_range :: "interval option"
  av_nullable :: nullability
  av_constant :: "constant_value option"

definition value_eq :: "abstract_value \<Rightarrow> abstract_value \<Rightarrow> bool" where
  "value_eq a b \<longleftrightarrow>
     av_type a = av_type b \<and> av_range a = av_range b \<and> av_nullable a = av_nullable b \<and>
     rel_option constant_eq (av_constant a) (av_constant b)"

definition av_top :: abstract_value where
  "av_top = \<lparr>av_type = None, av_range = None, av_nullable = Maybe, av_constant = None\<rparr>"

definition av_bottom :: abstract_value where
  "av_bottom = \<lparr>av_type = Some ''<bottom>'', av_range = Some (None, None), av_nullable = Never, av_constant = None\<rparr>"

fun from_constant :: "constant_value \<Rightarrow> abstract_value" where
  "from_constant (ConstInt v) =
     \<lparr>av_type = Some ''int'', av_range = Some (Some v, Some v), av_nullable = Never, av_constant = Some (ConstInt v)\<rparr>"
| "from_constant (ConstFloat v) =
     \<lparr>av_type = Some ''float'', av_range = None, av_nullable = Never, av_constant = Some (ConstFloat v)\<rparr>"
| "from_constant (ConstString s) =
     (let len = wrap_i64 (int (length s))
      in \<lparr>av_type = Some ''str'', av_range = Some (Some len, Some len), av_nullable = Never,
          av_constant = Some (ConstString s)\<rparr>)"
| "from_constant (ConstBool v) =
     \<lparr>av_type = Some ''bool'', av_range = Some (Some (of_bool v), Some (of_bool v)), av_nullable = Never,
      av_constant = Some (ConstBool v)\<rparr>"
| "from_constant ConstNull =
     \<lparr>av_type = Some ''NoneType'', av_range = None, av_nullable = Always, av_constant = None\<rparr>"

definition unwrap_or :: "'a option \<Rightarrow> 'a \<Rightarrow> 'a" where
  "unwrap_or x d = (case x of None \<Rightarrow> d | Some v \<Rightarrow> v)"

definition may_be_zero :: "abstract_value \<Rightarrow> bool" where
  "may_be_zero a =
     (case av_range a of None \<Rightarrow> True
      | Some (low, high) \<Rightarrow> unwrap_or low i64_min \<le> 0 \<and> 0 \<le> unwrap_or high i64_max)"

definition may_be_null :: "abstract_value \<Rightarrow> bool" where
  "may_be_null a \<longleftrightarrow> av_nullable a \<noteq> Never"

definition is_constant :: "abstract_value \<Rightarrow> bool" where
  "is_constant a \<longleftrightarrow> av_constant a \<noteq> None"

section \<open>Abstract states\<close>

type_synonym abstract_state = "string \<rightharpoonup> abstract_value"

definition state_get :: "abstract_state \<Rightarrow> string \<Rightarrow> abstract_value" where
  "state_get st var = unwrap_or (st var) av_top"

definition state_set :: "abstract_state \<Rightarrow> string \<Rightarrow> abstract_value \<Rightarrow> abstract_state" where
  "state_set st var a = st(var \<mapsto> a)"

definition state_eq :: "abstract_state \<Rightarrow> abstract_state \<Rightarrow> bool" where
  "state_eq s t \<longleftrightarrow> (\<forall>var. rel_option value_eq (s var) (t var))"

section \<open>Arithmetic\<close>

definition add_bound :: "i64 \<Rightarrow> i64 \<Rightarrow> i64 option" where
  "add_bound constant l =
     (let result = sat_i64 (l + constant)
      in if (0 < constant \<and> result = i64_max \<and> l \<noteq> i64_max - constant) \<or>
            (constant < 0 \<and> result = i64_min \<and> l \<noteq> i64_min - constant)
         then None else Some result)"

definition sub_bound :: "i64 \<Rightarrow> i64 \<Rightarrow> i64 option" where
  "sub_bound constant l =
     (let result = sat_i64 (l - constant)
      in if (0 < constant \<and> result = i64_min \<and> l \<noteq> i64_min + constant) \<or>
            (constant < 0 \<and> result = i64_max \<and> l \<noteq> i64_max + constant)
         then None else Some result)"

definition compute_mul :: "i64 \<Rightarrow> i64 option \<Rightarrow> i64 option" where
  "compute_mul constant bound =
     (case bound of None \<Rightarrow> None
      | Some b \<Rightarrow>
          if constant = 0 then Some 0 else if in_i64 (b * constant) then Some (b * constant) else None)"

definition arithmetic_range :: "char \<Rightarrow> i64 \<Rightarrow> interval \<Rightarrow> interval" where
  "arithmetic_range op constant = (\<lambda>(low, high).
     if op = CHR ''+'' then (Option.bind low (add_bound constant), Option.bind high (add_bound constant))
     else if op = CHR ''-'' then (Option.bind low (sub_bound constant), Option.bind high (sub_bound constant))
     else if op = CHR ''*'' then
       (let low_mul = compute_mul constant low; high_mul = compute_mul constant high
        in if constant < 0 then (high_mul, low_mul)
           else if constant = 0 then (Some 0, Some 0)
           else (low_mul, high_mul))
     else (None, None))"

definition apply_arithmetic :: "abstract_value \<Rightarrow> char \<Rightarrow> i64 \<Rightarrow> abstract_value" where
  "apply_arithmetic operand op constant =
     (let new_range = map_option (arithmetic_range op constant) (av_range operand);
          new_constant =
            (if is_constant operand then
               (case new_range of
                  Some (Some l, Some h) \<Rightarrow> if l = h then Some (ConstInt l) else None
                | _ \<Rightarrow> None)
             else None)
      in \<lparr>av_type = av_type operand, av_range = new_range, av_nullable = av_nullable operand,
          av_constant = new_constant\<rparr>)"

section \<open>Join and widening\<close>

text \<open>Two bounds combined, unbounded where one of them is.\<close>

definition both_bounds :: "(i64 \<Rightarrow> i64 \<Rightarrow> i64) \<Rightarrow> i64 option \<Rightarrow> i64 option \<Rightarrow> i64 option" where
  "both_bounds f a b = (case (a, b) of (Some a, Some b) \<Rightarrow> Some (f a b) | _ \<Rightarrow> None)"

definition join_range :: "interval option \<Rightarrow> interval option \<Rightarrow> interval option" where
  "join_range a b =
     (case (a, b) of
        (None, None) \<Rightarrow> None
      | (Some r, None) \<Rightarrow> Some r
      | (None, Some r) \<Rightarrow> Some r
      | (Some (a_low, a_high), Some (b_low, b_high)) \<Rightarrow>
          Some (both_bounds min a_low b_low, both_bounds max a_high b_high))"

definition join_values :: "abstract_value \<Rightarrow> abstract_value \<Rightarrow> abstract_value" where
  "join_values a b =
     \<lparr>av_type = (if av_type a = av_type b then av_type a else None),
      av_range = join_range (av_range a) (av_range b),
      av_nullable =
        (case (av_nullable a, av_nullable b) of
           (Never, Never) \<Rightarrow> Never | (Always, Always) \<Rightarrow> Always | _ \<Rightarrow> Maybe),
      av_constant =
        (case (av_constant a, av_constant b) of
           (Some ca, Some cb) \<Rightarrow> if constant_eq ca cb then Some ca else None
         | _ \<Rightarrow> None)\<rparr>"

text \<open>A variable of the result is one of some state; a state without it has \<open>top()\<close> for it.\<close>

fun join_states :: "abstract_state list \<Rightarrow> abstract_state" where
  "join_states [] = Map.empty"
| "join_states [s] = s"
| "join_states (s # t # sts) = (\<lambda>var.
     if list_ex (\<lambda>u. u var \<noteq> None) (s # t # sts)
     then Some (fold (\<lambda>u joined. join_values joined (state_get u var)) (t # sts) (state_get s var))
     else None)"

definition widen_low :: "i64 option \<Rightarrow> i64 option \<Rightarrow> i64 option" where
  "widen_low old_low new_low =
     (case (old_low, new_low) of
        (None, _) \<Rightarrow> None
      | (_, None) \<Rightarrow> None
      | (Some l, Some n) \<Rightarrow> if n < l then None else Some n)"

definition widen_high :: "i64 option \<Rightarrow> i64 option \<Rightarrow> i64 option" where
  "widen_high old_high new_high =
     (case (old_high, new_high) of
        (None, _) \<Rightarrow> None
      | (_, None) \<Rightarrow> None
      | (Some h, Some n) \<Rightarrow> if h < n then None else Some n)"

definition widen_range :: "interval option \<Rightarrow> interval option \<Rightarrow> interval option" where
  "widen_range old new =
     (case (old, new) of
        (None, None) \<Rightarrow> None
      | (None, r) \<Rightarrow> r
      | (_, None) \<Rightarrow> None
      | (Some (old_low, old_high), Some (new_low, new_high)) \<Rightarrow>
          Some (widen_low old_low new_low, widen_high old_high new_high))"

definition widen_value :: "abstract_value \<Rightarrow> abstract_value \<Rightarrow> abstract_value" where
  "widen_value old new =
     \<lparr>av_type = av_type new, av_range = widen_range (av_range old) (av_range new),
      av_nullable = av_nullable new, av_constant = None\<rparr>"

definition widen_state :: "abstract_state \<Rightarrow> abstract_state \<Rightarrow> abstract_state" where
  "widen_state old new = (\<lambda>var.
     if old var = None \<and> new var = None then None
     else Some (widen_value (state_get old var) (state_get new var)))"

end
