(* ===== verification/Abstract_Parse.thy ===== *)
theory Abstract_Parse
  imports Abstract_Value
begin

text \<open>
  What the abstract interpretation of \<open>dataflow/abstract_interp.rs\<close> reads from a source line: comments and
  string literals, the right-hand side of an assignment and its abstract value, divisors and dereferenced
  variables.
\<close>

section \<open>Keywords\<close>

definition get_null_keywords :: "string \<Rightarrow> string list" where
  "get_null_keywords language =
     (let l = to_lowercase language
      in if l = ''python'' then [''None'']
         else if l \<in> {''typescript'', ''javascript''} then [''null'', ''undefined'']
         else if l = ''go'' then [''nil'']
         else if l = ''rust'' then []
         else if l \<in> {''java'', ''kotlin'', ''csharp'', ''c#''} then [''null'']
         else if l = ''swift'' then [''nil'']
         else [''null'', ''nil'', ''None''])"

definition get_boolean_keywords :: "string \<Rightarrow> string \<rightharpoonup> bool" where
  "get_boolean_keywords language =
     (let l = to_lowercase language
      in if l = ''python'' then [''True'' \<mapsto> True, ''False'' \<mapsto> False]
         else if l \<in> {''typescript'', ''javascript'', ''go'', ''rust'', ''java'', ''kotlin'', ''csharp'', ''c#'', ''swift''}
         then [''true'' \<mapsto> True, ''false'' \<mapsto> False]
         else [''True'' \<mapsto> True, ''False'' \<mapsto> False, ''true'' \<mapsto> True, ''false'' \<mapsto> False])"

definition get_comment_pattern :: "string \<Rightarrow> string" where
  "get_comment_pattern language =
     (let l = to_lowercase language
      in if l = ''python'' then ''#''
         else if l \<in> {''typescript'', ''javascript'', ''go'', ''rust'', ''java'', ''csharp'', ''c#'', ''kotlin'', ''swift''}
         then ''//''
         else ''#'')"

section \<open>Comments and string literals\<close>

definition double_quote :: char where "double_quote = CHR 0x22"
definition single_quote :: char where "single_quote = CHR 0x27"
definition back_quote :: char where "back_quote = CHR 0x60"
definition backslash :: char where "backslash = CHR 0x5C"

text \<open>
  The loop of \<open>strip_comment\<close> over the rest of the line: whether the next character is escaped, and the
  quote that closes the string the position lies in.
\<close>

fun strip_comment_loop :: "string \<Rightarrow> bool \<Rightarrow> char option \<Rightarrow> string \<Rightarrow> string" where
  "strip_comment_loop pattern escape_next string_char [] = []"
| "strip_comment_loop pattern escape_next string_char (c # s) =
     (if escape_next then c # strip_comment_loop pattern False string_char s
      else if c = backslash then c # strip_comment_loop pattern True string_char s
      else
        case string_char of
          Some d \<Rightarrow> c # strip_comment_loop pattern False (if c = d then None else string_char) s
        | None \<Rightarrow>
            if c = double_quote \<or> c = single_quote then c # strip_comment_loop pattern False (Some c) s
            else if starts_with pattern (c # s) then []
            else c # strip_comment_loop pattern False None s)"

definition strip_comment :: "string \<Rightarrow> string \<Rightarrow> string" where
  "strip_comment line language = strip_comment_loop (get_comment_pattern language) False None line"

text \<open>The rest of a string literal blanked, and what follows its closing quote.\<close>

fun blank_string :: "char \<Rightarrow> string \<Rightarrow> string \<times> string" where
  "blank_string delim [] = ([], [])"
| "blank_string delim (c # s) =
     (if c = backslash then
        (case s of
           [] \<Rightarrow> ('' '', [])
         | d # t \<Rightarrow> (case blank_string delim t of (out, rest) \<Rightarrow> (''  '' @ out, rest)))
      else if c = delim then ([delim], s)
      else (case blank_string delim s of (out, rest) \<Rightarrow> ('' '' @ out, rest)))"

text \<open>The same for a raw string closed by a quote and \<open>hashes\<close> hash signs.\<close>

fun blank_raw :: "nat \<Rightarrow> string \<Rightarrow> string \<times> string" where
  "blank_raw hashes [] = ([], [])"
| "blank_raw hashes (c # s) =
     (if c = double_quote \<and> length (takeWhile ((=) CHR ''#'') (take hashes s)) = hashes
      then (c # take hashes s, drop hashes s)
      else (case blank_raw hashes s of (out, rest) \<Rightarrow> ('' '' @ out, rest)))"

lemma blank_string_length: "blank_string delim s = (out, rest) \<Longrightarrow> length out + length rest = length s"
  by (induction delim s arbitrary: out rest rule: blank_string.induct)
    (auto split: if_splits list.splits prod.splits)

lemma blank_raw_length: "blank_raw hashes s = (out, rest) \<Longrightarrow> length out + length rest = length s"
proof (induction s arbitrary: out rest)
  case (Cons c s)
  show ?case
  proof (cases "c = double_quote \<and> length (takeWhile ((=) CHR ''#'') (take hashes s)) = hashes")
    case True
    then have "hashes \<le> length s"
      using length_takeWhile_le [of "(=) CHR ''#''" "take hashes s"] by simp
    with True Cons.prems show ?thesis by auto
  next
    case False
    with Cons show ?thesis by (auto split: prod.splits)
  qed
qed simp

function strip_strings_loop :: "bool \<Rightarrow> string \<Rightarrow> string" where
  "strip_strings_loop rust [] = []"
| "strip_strings_loop rust (c # s) =
     (let hashes = takeWhile ((=) CHR ''#'') s; after = dropWhile ((=) CHR ''#'') s
      in if rust \<and> c = CHR ''r'' \<and> after \<noteq> [] \<and> hd after = double_quote then
           (case blank_raw (length hashes) (tl after) of (out, rest) \<Rightarrow>
              c # hashes @ double_quote # out @ strip_strings_loop rust rest)
         else if c \<in> {double_quote, single_quote, back_quote} then
           (case blank_string c s of (out, rest) \<Rightarrow> c # out @ strip_strings_loop rust rest)
         else c # strip_strings_loop rust s)"
  by pat_completeness auto
termination strip_strings_loop
proof (relation "measure (\<lambda>(rust, s). length s)")
  fix rust c s hashes after out rest
  assume h: "after = dropWhile ((=) CHR ''#'') s" "rust \<and> c = CHR ''r'' \<and> after \<noteq> [] \<and> hd after = double_quote"
    and "(out, rest) = blank_raw (length (hashes :: string)) (tl after)"
  then have "length rest \<le> length (tl after)" using blank_raw_length [of "length hashes" "tl after" out rest] by simp
  moreover have "length after \<le> length s" unfolding h(1) by (rule length_dropWhile_le)
  ultimately show "((rust, rest), rust, c # s) \<in> measure (\<lambda>(rust, s). length s)" by simp
next
  fix rust c s and hashes after :: string and out rest
  assume "(out, rest) = blank_string c s"
  then show "((rust, rest), rust, c # s) \<in> measure (\<lambda>(rust, s). length s)"
    using blank_string_length [of c s out rest] by simp
qed simp_all

definition strip_strings :: "string \<Rightarrow> string \<Rightarrow> string" where
  "strip_strings line language = strip_strings_loop (language = ''rust'') line"

text \<open>The blanked text has the characters of the line or spaces in their place.\<close>

abbreviation blanked :: "char \<Rightarrow> char \<Rightarrow> bool" where
  "blanked a b \<equiv> b = a \<or> b = CHR '' ''"

lemma blanked_refl: "list_all2 blanked s s"
  by (simp add: list_all2_refl)

lemma blank_string_positions: "blank_string delim s = (out, rest) \<Longrightarrow> \<exists>p. s = p @ rest \<and> list_all2 blanked p out"
proof (induction delim s arbitrary: out rest rule: blank_string.induct)
  case (2 delim c s)
  show ?case
  proof (cases "c = backslash")
    case True
    show ?thesis
    proof (cases s)
      case Nil
      with True 2(3) show ?thesis by auto
    next
      case (Cons d t)
      obtain o' where o: "blank_string delim t = (o', rest)" "out = ''  '' @ o'"
        using True Cons 2(3) by (auto split: prod.splits)
      from 2(1) [OF True Cons o(1)] obtain p where "t = p @ rest" "list_all2 blanked p o'" by blast
      then show ?thesis using Cons o(2) by (intro exI [of _ "c # d # p"]) simp
    qed
  next
    case False
    show ?thesis
    proof (cases "c = delim")
      case True
      with False 2(3) show ?thesis by auto
    next
      case delim: False
      obtain o' where o: "blank_string delim s = (o', rest)" "out = '' '' @ o'"
        using False delim 2(3) by (auto split: prod.splits)
      from 2(2) [OF False delim o(1)] obtain p where "s = p @ rest" "list_all2 blanked p o'" by blast
      then show ?thesis using o(2) by (intro exI [of _ "c # p"]) simp
    qed
  qed
qed simp

lemma blank_raw_positions: "blank_raw hashes s = (out, rest) \<Longrightarrow> \<exists>p. s = p @ rest \<and> list_all2 blanked p out"
proof (induction s arbitrary: out rest)
  case (Cons c s)
  show ?case
  proof (cases "c = double_quote \<and> length (takeWhile ((=) CHR ''#'') (take hashes s)) = hashes")
    case True
    with Cons.prems have "out = c # take hashes s" "rest = drop hashes s" by auto
    then show ?thesis by (intro exI [of _ "c # take hashes s"]) (simp add: blanked_refl)
  next
    case False
    then obtain o' where o: "blank_raw hashes s = (o', rest)" "out = '' '' @ o'"
      using Cons.prems by (auto split: prod.splits)
    from Cons.IH [OF o(1)] obtain p where "s = p @ rest" "list_all2 blanked p o'" by blast
    then show ?thesis using o(2) by (intro exI [of _ "c # p"]) simp
  qed
qed simp

lemma strip_strings_loop_positions: "list_all2 blanked line (strip_strings_loop rust line)"
proof (induction rust line rule: strip_strings_loop.induct)
  case (2 rust c s)
  define hashes where "hashes = takeWhile ((=) CHR ''#'') s"
  define after where "after = dropWhile ((=) CHR ''#'') s"
  have s: "s = hashes @ after" by (simp add: hashes_def after_def)
  show ?case
  proof (cases "rust \<and> c = CHR ''r'' \<and> after \<noteq> [] \<and> hd after = double_quote")
    case True
    obtain out rest where r: "blank_raw (length hashes) (tl after) = (out, rest)" by (rule prod.exhaust)
    from blank_raw_positions [OF r] obtain p where p: "tl after = p @ rest" "list_all2 blanked p out" by blast
    have a: "after = double_quote # p @ rest" using True p(1) by (cases after) auto
    moreover have "list_all2 blanked rest (strip_strings_loop rust rest)"
      using 2(1) [OF refl refl] True r by (simp add: hashes_def after_def)
    ultimately have "list_all2 blanked (c # hashes @ double_quote # p @ rest)
        (c # hashes @ double_quote # out @ strip_strings_loop rust rest)"
      using p(2) by (simp add: list_all2_appendI blanked_refl)
    moreover have "strip_strings_loop rust (c # s) = c # hashes @ double_quote # out @ strip_strings_loop rust rest"
      using True r by (simp add: hashes_def after_def)
    moreover have "c # s = c # hashes @ double_quote # p @ rest" using s a by simp
    ultimately show ?thesis by (simp only:)
  next
    case False
    show ?thesis
    proof (cases "c \<in> {double_quote, single_quote, back_quote}")
      case True
      obtain out rest where r: "blank_string c s = (out, rest)" by (rule prod.exhaust)
      from blank_string_positions [OF r] obtain p where p: "s = p @ rest" "list_all2 blanked p out" by blast
      have "list_all2 blanked rest (strip_strings_loop rust rest)"
        using 2(2) [OF refl refl] False True r by (simp add: hashes_def after_def)
      then have "list_all2 blanked (p @ rest) (out @ strip_strings_loop rust rest)"
        using p(2) by (simp add: list_all2_appendI)
      moreover have "strip_strings_loop rust (c # s) = c # out @ strip_strings_loop rust rest"
        using False True r by (simp add: after_def [symmetric] Let_def) auto
      ultimately show ?thesis using p(1) by simp
    next
      case plain: False
      then show ?thesis
        using 2(3) [OF refl refl] False by (simp add: hashes_def [symmetric] after_def [symmetric] Let_def) auto
    qed
  qed
qed simp

section \<open>Assignments\<close>

text \<open>
  The text after the first occurrence of a pattern, where no word character stands before it.
\<close>

definition after_pattern :: "string \<Rightarrow> string \<Rightarrow> string option" where
  "after_pattern line pattern =
     (case find_str pattern line of None \<Rightarrow> None
      | Some idx \<Rightarrow>
          if idx = 0 \<or> \<not> is_word_char (line ! (idx - 1)) then Some (trim (drop (idx + length pattern) line)) else None)"

definition augmented_rhs :: "string \<Rightarrow> string \<Rightarrow> char \<Rightarrow> string option" where
  "augmented_rhs line var op =
     (let op_str = [op, CHR ''='']
      in map_option (\<lambda>rhs. var @ '' '' @ [op] @ '' '' @ rhs)
           (first_some (after_pattern line)
              [var @ '' '' @ op_str @ '' '', var @ '' '' @ op_str, var @ op_str @ '' '', var @ op_str]))"

definition extract_rhs :: "string \<Rightarrow> string \<Rightarrow> string option" where
  "extract_rhs line var =
     (let line = trim line
      in case first_some (augmented_rhs line var) ''+-*/%'' of
           Some rhs \<Rightarrow> Some rhs
         | None \<Rightarrow>
             first_some (after_pattern line)
               [var @ '' = '', var @ ''= '', var @ '' ='', var @ ''='', var @ '' := ''])"

definition simple_arithmetic_with :: "string \<Rightarrow> char \<Rightarrow> (string \<times> char \<times> i64) option" where
  "simple_arithmetic_with rhs op =
     (case (case split_once ('' '' @ [op] @ '' '') rhs of Some parts \<Rightarrow> Some parts | None \<Rightarrow> split_once [op] rhs) of
        None \<Rightarrow> None
      | Some (left, right) \<Rightarrow>
          let left = trim left; right = trim right
          in case (if is_identifier left then parse_i64 right else None) of
               Some c \<Rightarrow> Some (left, op, c)
             | None \<Rightarrow>
                 if op = CHR ''+'' \<or> op = CHR ''*'' then
                   (case parse_i64 left of
                      Some c \<Rightarrow> if is_identifier right then Some (right, op, c) else None
                    | None \<Rightarrow> None)
                 else None)"

definition parse_simple_arithmetic :: "string \<Rightarrow> (string \<times> char \<times> i64) option" where
  "parse_simple_arithmetic rhs = first_some (simple_arithmetic_with (trim rhs)) ''+-*''"

text \<open>A text between two copies of a quote.\<close>

definition quoted_by :: "string \<Rightarrow> string \<Rightarrow> bool" where
  "quoted_by quote s \<longleftrightarrow> starts_with quote s \<and> ends_with quote s \<and> 2 * length quote \<le> length s"

definition unquote :: "nat \<Rightarrow> string \<Rightarrow> string" where
  "unquote n s = drop n (take (length s - n) s)"

definition rhs_value :: "string \<Rightarrow> abstract_state \<Rightarrow> string \<Rightarrow> abstract_value" where
  "rhs_value rhs st language =
     (if rhs = [] then av_top
      else
        case parse_i64 rhs of Some v \<Rightarrow> from_constant (ConstInt v)
      | None \<Rightarrow>
        (case (if contains_str ''.'' rhs \<or> contains_str ''e'' (to_lowercase rhs) then parse_f64 rhs else None) of
           Some v \<Rightarrow> from_constant (ConstFloat v)
         | None \<Rightarrow>
             if quoted_by [double_quote] rhs \<or> quoted_by [single_quote] rhs then
               from_constant (ConstString (unquote 1 rhs))
             else if quoted_by (replicate 3 double_quote) rhs \<or> quoted_by (replicate 3 single_quote) rhs then
               from_constant (ConstString (unquote 3 rhs))
             else if rhs \<in> set (get_null_keywords language) then
               (if rhs = ''undefined'' then
                  \<lparr>av_type = Some ''undefined'', av_range = None, av_nullable = Always, av_constant = None\<rparr>
                else from_constant ConstNull)
             else
               case get_boolean_keywords language rhs of Some b \<Rightarrow> from_constant (ConstBool b)
             | None \<Rightarrow>
                 if is_identifier rhs then state_get st rhs
                 else
                   (case parse_simple_arithmetic rhs of
                      Some (operand_var, op, constant) \<Rightarrow> apply_arithmetic (state_get st operand_var) op constant
                    | None \<Rightarrow> av_top)))"

definition parse_rhs_abstract :: "string \<Rightarrow> string \<Rightarrow> abstract_state \<Rightarrow> string \<Rightarrow> abstract_value" where
  "parse_rhs_abstract line var st language =
     (case extract_rhs (strip_comment line language) var of
        None \<Rightarrow> av_top
      | Some rhs \<Rightarrow> rhs_value (trim rhs) st language)"

section \<open>Divisors and dereferences\<close>

definition extract_divisor :: "string \<Rightarrow> string option" where
  "extract_divisor s =
     (let s = trim s
      in if s = [] \<or> hd s = CHR ''('' then None
         else
           let ident = takeWhile is_word_char s
           in if ident = [] \<or> is_ascii_digit (hd ident) then None else Some ident)"

definition deref_keywords :: "string list" where
  "deref_keywords = [''self'', ''this'', ''super'', ''cls'']"

function extract_deref_patterns :: "string \<Rightarrow> string list" where
  "extract_deref_patterns code =
     (let s = dropWhile (\<lambda>c. \<not> is_alphabetic c \<and> c \<noteq> CHR ''_'') code
      in if s = [] then []
         else
           let ident = takeWhile is_word_char s; rest = dropWhile is_word_char s
           in if rest \<noteq> [] \<and> hd rest \<in> {CHR ''.'', CHR ''[''} \<and> ident \<noteq> [] \<and>
                 \<not> is_ascii_digit (hd ident) \<and> ident \<notin> set deref_keywords
              then ident # extract_deref_patterns rest
              else extract_deref_patterns rest)"
  by pat_completeness auto
termination extract_deref_patterns
proof -
  have less: "length (dropWhile is_word_char (dropWhile P code)) < length code"
    if "dropWhile P code \<noteq> []" and "\<And>c. \<not> P c \<Longrightarrow> is_word_char c" for P and code :: string
  proof -
    from that(1) obtain c t where t: "dropWhile P code = c # t" by (meson neq_Nil_conv)
    then have "\<not> P c" using hd_dropWhile [of P code] by simp
    then have "length (dropWhile is_word_char (dropWhile P code)) \<le> length t"
      using that(2) length_dropWhile_le [of is_word_char t] by (simp add: t)
    moreover have "length (dropWhile P code) \<le> length code" by (rule length_dropWhile_le)
    ultimately show ?thesis by (simp add: t)
  qed
  have w: "\<not> (\<not> is_alphabetic c \<and> c \<noteq> CHR ''_'') \<Longrightarrow> is_word_char c" for c
    by (auto simp: is_word_char_def is_alphanumeric_def)
  show ?thesis
    by (relation "measure length", rule wf_measure) (simp only: in_measure, rule less, assumption, erule w)+
qed

declare extract_deref_patterns.simps [simp del]

end
