(* ===== verification/Abstract_Interp.thy ===== *)
theory Abstract_Interp
  imports Abstract_Parse Reaching Dominators "HOL-Library.Char_ord" "HOL-Library.Product_Lexorder"
begin

text \<open>
  The abstract interpreter of \<open>dataflow/abstract_interp.rs\<close>: the initial state, the transfer function of a
  block, the round-robin solver with widening at the loop headers, the warnings about divisions and null
  dereferences, and the queries of the result. \<open>DfgInfo\<close> enters only by its list of references.
\<close>

section \<open>Transfer functions\<close>

definition init_params :: "cfg_info \<Rightarrow> var_ref list \<Rightarrow> abstract_state" where
  "init_params cfg refs =
     (case find (\<lambda>b. blk_id b = entry_block cfg) (cfg_blocks cfg) of
        None \<Rightarrow> Map.empty
      | Some entry \<Rightarrow>
          fold (\<lambda>r st.
            if vr_ref_type r = RefDefinition \<and> in_lines (vr_line r) entry then st(vr_name r \<mapsto> av_top) else st)
            refs Map.empty)"

text \<open>The definitions of a block in the order of their position.\<close>

definition defs_in_block :: "var_ref list \<Rightarrow> cfg_block \<Rightarrow> var_ref list" where
  "defs_in_block refs b =
     sort_key (\<lambda>r. (vr_line r, vr_column r)) (filter (\<lambda>r. vr_ref_type r = RefDefinition \<and> in_lines (vr_line r) b) refs)"

definition transfer_definition :: "string list option \<Rightarrow> string \<Rightarrow> var_ref \<Rightarrow> abstract_state \<Rightarrow> abstract_state" where
  "transfer_definition source_lines language r st =
     (let new_value =
        (case source_lines of
           None \<Rightarrow> av_top
         | Some lines \<Rightarrow>
             let line_idx = vr_line r - 1
             in if line_idx < length lines then parse_rhs_abstract (lines ! line_idx) (vr_name r) st language
                else av_top)
      in state_set st (vr_name r) new_value)"

definition transfer_block ::
  "abstract_state \<Rightarrow> cfg_block \<Rightarrow> var_ref list \<Rightarrow> string list option \<Rightarrow> string \<Rightarrow> abstract_state" where
  "transfer_block st b refs source_lines language =
     fold (transfer_definition source_lines language) (defs_in_block refs b) st"

definition compute_state_at_line ::
  "cfg_block \<Rightarrow> var_ref list \<Rightarrow> abstract_state \<Rightarrow> string list option \<Rightarrow> nat \<Rightarrow> string \<Rightarrow> abstract_state" where
  "compute_state_at_line b refs state_in source_lines target_line language =
     fold (transfer_definition source_lines language)
       (sort_key (\<lambda>r. (vr_line r, vr_column r))
          (filter (\<lambda>r. vr_ref_type r = RefDefinition \<and> in_lines (vr_line r) b \<and> vr_line r < target_line) refs))
       state_in"

section \<open>Warnings\<close>

definition div_patterns :: "string \<Rightarrow> string list" where
  "div_patterns language = (if language = ''python'' then [''/'', ''//'', ''%''] else [''/'', ''%''])"

text \<open>
  The divisors found by the loop over the occurrences of one operator, from \<open>search_start\<close> on. No
  operator is empty.
\<close>

function divisors :: "string \<Rightarrow> string \<Rightarrow> nat \<Rightarrow> string list" where
  "divisors code op search_start =
     (case find_str op (drop search_start code) of
        None \<Rightarrow> []
      | Some pos \<Rightarrow>
          if op = [] then []
          else
            let actual_pos = search_start + pos; followed = op = ''/'' \<and> actual_pos + 1 < length code
            in if followed \<and> code ! (actual_pos + 1) = CHR ''/'' then divisors code op (actual_pos + 2)
               else if followed \<and> 0 < actual_pos \<and> code ! (actual_pos - 1) = CHR ''/''
               then divisors code op (actual_pos + 1)
               else
                 (case extract_divisor (trim (drop (actual_pos + length op) code)) of
                    Some div_var \<Rightarrow> if is_identifier div_var then [div_var] else []
                  | None \<Rightarrow> []) @ divisors code op (actual_pos + length op))"
  by pat_completeness auto
termination divisors
proof -
  have less: "length code - (start + pos + n) < length code - start"
    if f: "find_str op (drop start code) = Some pos" and op: "op \<noteq> []" and n: "0 < n" for code op start pos n
  proof -
    have "0 < length op" using op by simp
    moreover have "pos + length op \<le> length code - start" using find_str_le [OF f] by simp
    ultimately show ?thesis using n by linarith
  qed
  show ?thesis
  proof (relation "measure (\<lambda>(code, op, start). length code - start)")
    fix code op :: string and start pos n
    assume "find_str op (drop start code) = Some pos" and "op \<noteq> []"
    note l = less [OF this]
    fix actual_pos followed
    assume a: "actual_pos = start + pos"
    show "((code, op, actual_pos + 2), code, op, start) \<in> measure (\<lambda>(code, op, start). length code - start)"
      "((code, op, actual_pos + 1), code, op, start) \<in> measure (\<lambda>(code, op, start). length code - start)"
      "((code, op, actual_pos + length op), code, op, start) \<in> measure (\<lambda>(code, op, start). length code - start)"
      using l [of 2] l [of 1] l [of "length op"] \<open>op \<noteq> []\<close> a by simp_all
  qed simp
qed

declare divisors.simps [simp del]

text \<open>The state at a line: the first block that contains it, and its definitions before the line.\<close>

definition state_at_line ::
  "cfg_info \<Rightarrow> var_ref list \<Rightarrow> (block_id \<rightharpoonup> abstract_state) \<Rightarrow> string list option \<Rightarrow> string \<Rightarrow> nat \<Rightarrow>
    abstract_state option" where
  "state_at_line cfg refs state_in source_lines language line_num =
     map_option (\<lambda>b.
       compute_state_at_line b refs (unwrap_or (state_in (blk_id b)) Map.empty) source_lines line_num language)
       (find (in_lines (line_num mod 2 ^ 32)) (cfg_blocks cfg))"

definition warn_if ::
  "(abstract_value \<Rightarrow> bool) \<Rightarrow> abstract_state option \<Rightarrow> nat \<Rightarrow> string \<Rightarrow> (nat \<times> string) list" where
  "warn_if bad st line_num var =
     (case st of None \<Rightarrow> [] | Some st \<Rightarrow> if bad (state_get st var) then [(line_num, var)] else [])"

definition division_code :: "string \<Rightarrow> string \<Rightarrow> string" where
  "division_code line language = strip_strings (strip_comment line language) language"

definition find_div_zero ::
  "cfg_info \<Rightarrow> var_ref list \<Rightarrow> (block_id \<rightharpoonup> abstract_state) \<Rightarrow> string list option \<Rightarrow> string \<Rightarrow> (nat \<times> string) list" where
  "find_div_zero cfg refs state_in source_lines language =
     (case source_lines of
        None \<Rightarrow> []
      | Some lines \<Rightarrow>
          remdups_adj (sort (concat (map (\<lambda>(line_idx, line).
            concat (map (\<lambda>op.
              concat (map
                (warn_if may_be_zero (state_at_line cfg refs state_in source_lines language (line_idx + 1)) (line_idx + 1))
                (divisors (division_code line language) op 0)))
              (div_patterns language)))
            (enumerate 0 lines)))))"

definition find_null_deref ::
  "cfg_info \<Rightarrow> var_ref list \<Rightarrow> (block_id \<rightharpoonup> abstract_state) \<Rightarrow> string list option \<Rightarrow> string \<Rightarrow> (nat \<times> string) list" where
  "find_null_deref cfg refs state_in source_lines language =
     (case source_lines of
        None \<Rightarrow> []
      | Some lines \<Rightarrow>
          remdups_adj (sort (concat (map (\<lambda>(line_idx, line).
            concat (map
              (warn_if may_be_null (state_at_line cfg refs state_in source_lines language (line_idx + 1)) (line_idx + 1))
              (filter is_identifier (extract_deref_patterns (strip_comment line language)))))
            (enumerate 0 lines)))))"

section \<open>The solver\<close>

record abstract_interp_info =
  ai_state_in :: "block_id \<rightharpoonup> abstract_state"
  ai_state_out :: "block_id \<rightharpoonup> abstract_state"
  ai_div_zero :: "(nat \<times> string) list"
  ai_null_deref :: "(nat \<times> string) list"
  ai_function_name :: string

type_synonym state_maps = "(block_id \<rightharpoonup> abstract_state) \<times> (block_id \<rightharpoonup> abstract_state)"

text \<open>The state at the entry of a block, from the states at the exits of its predecessors.\<close>

definition interp_in ::
  "(block_id \<rightharpoonup> block_id list) \<Rightarrow> block_id set \<Rightarrow> block_id \<Rightarrow> state_maps \<Rightarrow> abstract_state" where
  "interp_in predecessors loop_headers block_id = (\<lambda>(state_in, state_out).
     let joined = join_states (List.map_filter state_out (get_list predecessors block_id))
     in if block_id \<in> loop_headers then
          (case state_in block_id of Some old_in \<Rightarrow> widen_state old_in joined | None \<Rightarrow> joined)
        else joined)"

definition interp_block ::
  "cfg_info \<Rightarrow> block_id set \<Rightarrow> (cfg_block \<Rightarrow> abstract_state \<Rightarrow> abstract_state) \<Rightarrow> block_id \<Rightarrow>
    bool \<times> state_maps \<Rightarrow> bool \<times> state_maps" where
  "interp_block cfg loop_headers transfer block_id = (\<lambda>(changed, state_in, state_out).
     if block_id = entry_block cfg then (changed, state_in, state_out)
     else
       case find (\<lambda>b. blk_id b = block_id) (cfg_blocks cfg) of
         None \<Rightarrow> (changed, state_in, state_out)
       | Some block \<Rightarrow>
           let new_in = interp_in (build_predecessors cfg) loop_headers block_id (state_in, state_out);
               new_out = transfer block new_in
           in if rel_option state_eq (state_in block_id) (Some new_in) \<and>
                 rel_option state_eq (state_out block_id) (Some new_out)
              then (changed, state_in, state_out)
              else (True, state_in(block_id \<mapsto> new_in), state_out(block_id \<mapsto> new_out)))"

text \<open>Rounds over all blocks until nothing changes, at most \<open>n\<close>; whether the last round changed a state.\<close>

fun interp_rounds ::
  "nat \<Rightarrow> (bool \<times> state_maps \<Rightarrow> bool \<times> state_maps) \<Rightarrow> state_maps \<Rightarrow> bool \<times> state_maps" where
  "interp_rounds 0 round states = (True, states)"
| "interp_rounds (Suc n) round states =
     (case round (False, states) of (changed, states) \<Rightarrow>
        if changed then interp_rounds n round states else (False, states))"

definition interp_init ::
  "cfg_info \<Rightarrow> (cfg_block \<Rightarrow> abstract_state \<Rightarrow> abstract_state) \<Rightarrow> abstract_state \<Rightarrow> state_maps" where
  "interp_init cfg transfer init_state =
     (let entry = entry_block cfg;
          entry_out =
            (case find (\<lambda>b. blk_id b = entry) (cfg_blocks cfg) of
               Some b \<Rightarrow> transfer b init_state
             | None \<Rightarrow> init_state)
      in fold (\<lambda>b (state_in, state_out).
           if blk_id b \<noteq> entry then (state_in(blk_id b \<mapsto> Map.empty), state_out(blk_id b \<mapsto> Map.empty))
           else (state_in, state_out))
           (cfg_blocks cfg) ([entry \<mapsto> init_state], [entry \<mapsto> entry_out]))"

text \<open>The solver: whether it stopped at the bound, and the states.\<close>

definition interp_states ::
  "cfg_info \<Rightarrow> block_id set \<Rightarrow> var_ref list \<Rightarrow> string list option \<Rightarrow> string \<Rightarrow> bool \<times> state_maps" where
  "interp_states cfg loop_headers refs source_lines language =
     (let transfer = (\<lambda>b st. transfer_block st b refs source_lines language);
          max_iterations = length (cfg_blocks cfg) * 10 + 100
      in interp_rounds max_iterations (fold (interp_block cfg loop_headers transfer) (reverse_postorder cfg))
           (interp_init cfg transfer (init_params cfg refs)))"

definition compute_abstract_interp ::
  "cfg_info \<Rightarrow> var_ref list \<Rightarrow> string list option \<Rightarrow> string \<Rightarrow> (dataflow_error + abstract_interp_info) option" where
  "compute_abstract_interp cfg refs source_lines language =
     (case validate_cfg cfg of
        Inl err \<Rightarrow> Some (Inl err)
      | Inr _ \<Rightarrow>
          map_option (\<lambda>loop_headers.
            case interp_states cfg loop_headers refs source_lines language of
              (_, state_in, state_out) \<Rightarrow>
                Inr \<lparr>ai_state_in = state_in, ai_state_out = state_out,
                  ai_div_zero = find_div_zero cfg refs state_in source_lines language,
                  ai_null_deref = find_null_deref cfg refs state_in source_lines language,
                  ai_function_name = cfg_function cfg\<rparr>)
            (find_back_edges cfg))"

section \<open>Queries\<close>

definition value_at :: "abstract_interp_info \<Rightarrow> block_id \<Rightarrow> string \<Rightarrow> abstract_value" where
  "value_at info block var = (case ai_state_in info block of Some st \<Rightarrow> state_get st var | None \<Rightarrow> av_top)"

definition value_at_exit :: "abstract_interp_info \<Rightarrow> block_id \<Rightarrow> string \<Rightarrow> abstract_value" where
  "value_at_exit info block var = (case ai_state_out info block of Some st \<Rightarrow> state_get st var | None \<Rightarrow> av_top)"

definition range_at :: "abstract_interp_info \<Rightarrow> block_id \<Rightarrow> string \<Rightarrow> interval option" where
  "range_at info block var = av_range (value_at info block var)"

definition type_at :: "abstract_interp_info \<Rightarrow> block_id \<Rightarrow> string \<Rightarrow> string option" where
  "type_at info block var = av_type (value_at info block var)"

definition is_definitely_not_null :: "abstract_interp_info \<Rightarrow> block_id \<Rightarrow> string \<Rightarrow> bool" where
  "is_definitely_not_null info block var \<longleftrightarrow> av_nullable (value_at info block var) = Never"

text \<open>
  The blocks and the variables are iterated in the order of the hash maps, and a constant of a later block
  replaces one of an earlier block.
\<close>

definition get_constants ::
  "(block_id set \<Rightarrow> block_id list) \<Rightarrow> abstract_interp_info \<Rightarrow> (string \<rightharpoonup> constant_value)" where
  "get_constants enum info =
     fold (\<lambda>block constants. \<lambda>var.
       case Option.bind (Option.bind (ai_state_out info block) (\<lambda>st. st var)) av_constant of
         Some c \<Rightarrow> Some c
       | None \<Rightarrow> constants var)
       (enum (dom (ai_state_out info))) Map.empty"

end
