(* ===== verification/Guard.thy ===== *)
theory Guard
  imports Abstract_Value
begin

text \<open>
  Guard conditions of \<open>dataflow/guard.rs\<close>: the parser of a branch condition and the narrowing of an
  abstract value on the branch where the condition holds or fails.
\<close>

section \<open>Conditions\<close>

datatype guard_condition =
  GuardEq (guard_variable: string) i64
| GuardNeq (guard_variable: string) i64
| GuardLt (guard_variable: string) i64
| GuardLe (guard_variable: string) i64
| GuardGt (guard_variable: string) i64
| GuardGe (guard_variable: string) i64
| NotNull (guard_variable: string)
| IsNull (guard_variable: string)
| Truthy (guard_variable: string)
| Falsy (guard_variable: string)

fun negate_guard :: "guard_condition \<Rightarrow> guard_condition" where
  "negate_guard (GuardEq var v) = GuardNeq var v"
| "negate_guard (GuardNeq var v) = GuardEq var v"
| "negate_guard (GuardLt var v) = GuardGe var v"
| "negate_guard (GuardLe var v) = GuardGt var v"
| "negate_guard (GuardGt var v) = GuardLe var v"
| "negate_guard (GuardGe var v) = GuardLt var v"
| "negate_guard (NotNull var) = IsNull var"
| "negate_guard (IsNull var) = NotNull var"
| "negate_guard (Truthy var) = Falsy var"
| "negate_guard (Falsy var) = Truthy var"

section \<open>Parsing\<close>

definition flip_operator :: "string \<Rightarrow> string option" where
  "flip_operator op =
     (if op = ''=='' then Some ''==''
      else if op = ''!='' then Some ''!=''
      else if op = ''<'' then Some ''>''
      else if op = ''<='' then Some ''>=''
      else if op = ''>'' then Some ''<''
      else if op = ''>='' then Some ''<=''
      else None)"

definition make_guard :: "string \<Rightarrow> string \<Rightarrow> i64 \<Rightarrow> guard_condition option" where
  "make_guard var op v =
     (if op = ''=='' then Some (GuardEq var v)
      else if op = ''!='' then Some (GuardNeq var v)
      else if op = ''<'' then Some (GuardLt var v)
      else if op = ''<='' then Some (GuardLe var v)
      else if op = ''>'' then Some (GuardGt var v)
      else if op = ''>='' then Some (GuardGe var v)
      else None)"

definition guard_null_keywords :: "string list" where
  "guard_null_keywords = [''null'', ''nil'', ''nullptr'', ''NULL'', ''None'']"

definition null_guard :: "string \<Rightarrow> string \<Rightarrow> guard_condition option" where
  "null_guard op var =
     (if op = ''=='' then Some (IsNull var) else if op = ''!='' then Some (NotNull var) else None)"

definition canonical_operator :: "string \<Rightarrow> string" where
  "canonical_operator op = (if op = ''==='' then ''=='' else if op = ''!=='' then ''!='' else op)"

definition try_comparison_split :: "string \<Rightarrow> string \<Rightarrow> guard_condition option" where
  "try_comparison_split s op =
     (case find_str op s of None \<Rightarrow> None
      | Some idx \<Rightarrow>
          let lhs = trim (take idx s); rhs = trim (drop (idx + length op) s);
              canonical_op = canonical_operator op
          in if lhs = [] \<or> rhs = [] then None
             else if is_identifier lhs \<and> rhs \<in> set guard_null_keywords then null_guard canonical_op lhs
             else if lhs \<in> set guard_null_keywords \<and> is_identifier rhs then null_guard canonical_op rhs
             else
               case (if is_identifier lhs then parse_i64 rhs else None) of
                 Some v \<Rightarrow> make_guard lhs canonical_op v
               | None \<Rightarrow>
                   (case (if is_identifier rhs then parse_i64 lhs else None) of
                      Some v \<Rightarrow> Option.bind (flip_operator canonical_op) (\<lambda>flipped. make_guard rhs flipped v)
                    | None \<Rightarrow> None))"

text \<open>A null check written as a suffix of the variable.\<close>

definition suffix_guard :: "string \<Rightarrow> string \<times> (string \<Rightarrow> guard_condition) \<Rightarrow> guard_condition option" where
  "suffix_guard s = (\<lambda>(suffix, guard).
     case strip_suffix suffix s of None \<Rightarrow> None
     | Some rest \<Rightarrow> if is_identifier (trim rest) then Some (guard (trim rest)) else None)"

definition null_suffixes :: "(string \<times> (string \<Rightarrow> guard_condition)) list" where
  "null_suffixes =
     [(''.is_some()'', NotNull), (''.is_none()'', IsNull), ('' is not None'', NotNull), ('' is None'', IsNull)]"

definition comparison_operators :: "string list" where
  "comparison_operators = [''!=='', ''==='', ''>='', ''<='', ''!='', ''=='', ''>'', ''<'']"

definition parse_guard_condition :: "string \<Rightarrow> guard_condition option" where
  "parse_guard_condition condition =
     (let s = trim condition
      in if s = [] then None
         else
           case first_some (suffix_guard s) null_suffixes of
             Some g \<Rightarrow> Some g
           | None \<Rightarrow>
               (case strip_prefix ''not '' s of
                  Some rest \<Rightarrow> if is_identifier (trim rest) then Some (Falsy (trim rest)) else None
                | None \<Rightarrow>
                    (case first_some (try_comparison_split s) comparison_operators of
                       Some g \<Rightarrow> Some g
                     | None \<Rightarrow>
                         (case strip_prefix ''!'' s of
                            Some rest \<Rightarrow> if is_identifier (trim rest) then Some (Falsy (trim rest)) else None
                          | None \<Rightarrow> if is_identifier s then Some (Truthy s) else None))))"

section \<open>Narrowing\<close>

text \<open>The tighter of two bounds.\<close>

definition tighter :: "(i64 \<Rightarrow> i64 \<Rightarrow> i64) \<Rightarrow> i64 option \<Rightarrow> i64 option \<Rightarrow> i64 option" where
  "tighter f a b =
     (case (a, b) of
        (None, None) \<Rightarrow> None
      | (Some v, None) \<Rightarrow> Some v
      | (None, Some v) \<Rightarrow> Some v
      | (Some a, Some b) \<Rightarrow> Some (f a b))"

definition intersect_range :: "interval option \<Rightarrow> interval option \<Rightarrow> interval option" where
  "intersect_range a b =
     (case (a, b) of
        (None, None) \<Rightarrow> None
      | (None, Some r) \<Rightarrow> Some r
      | (Some r, None) \<Rightarrow> Some r
      | (Some (a_lo, a_hi), Some (b_lo, b_hi)) \<Rightarrow> Some (tighter max a_lo b_lo, tighter min a_hi b_hi))"

definition is_empty_range :: "interval option \<Rightarrow> bool" where
  "is_empty_range r = (case r of Some (Some lo, Some hi) \<Rightarrow> hi < lo | _ \<Rightarrow> False)"

definition exclude_zero :: "interval option \<Rightarrow> interval option" where
  "exclude_zero r =
     (case r of None \<Rightarrow> None
      | Some (lo, hi) \<Rightarrow>
          let lo_val = unwrap_or lo i64_min; hi_val = unwrap_or hi i64_max
          in if lo_val = 0 \<and> hi_val = 0 then Some (Some 1, Some 0)
             else if lo_val = 0 then Some (Some 1, hi)
             else if hi_val = 0 then Some (lo, Some (- 1))
             else Some (lo, hi))"

text \<open>
  The narrowed value before the final test for an empty interval; \<open>None\<close> where the code returns
  \<open>bottom()\<close> at once. \<open>checked_add\<close> and \<open>checked_sub\<close> fail at the ends of the 64-bit range.
\<close>

fun narrow_true :: "abstract_value \<Rightarrow> guard_condition \<Rightarrow> abstract_value option" where
  "narrow_true a (GuardEq _ c) = Some (a\<lparr>av_range := intersect_range (av_range a) (Some (Some c, Some c))\<rparr>)"
| "narrow_true a (GuardNeq _ c) =
     (case av_range a of
        None \<Rightarrow> Some a
      | Some (lo, hi) \<Rightarrow>
          if lo = Some c \<and> hi = Some c then None
          else if lo = Some c then
            Some (if in_i64 (c + 1) then a\<lparr>av_range := Some (Some (c + 1), hi)\<rparr> else a)
          else if hi = Some c then
            Some (if in_i64 (c - 1) then a\<lparr>av_range := Some (lo, Some (c - 1))\<rparr> else a)
          else Some a)"
| "narrow_true a (GuardLt _ c) =
     (if in_i64 (c - 1) then Some (a\<lparr>av_range := intersect_range (av_range a) (Some (None, Some (c - 1)))\<rparr>) else None)"
| "narrow_true a (GuardLe _ c) = Some (a\<lparr>av_range := intersect_range (av_range a) (Some (None, Some c))\<rparr>)"
| "narrow_true a (GuardGt _ c) =
     (if in_i64 (c + 1) then Some (a\<lparr>av_range := intersect_range (av_range a) (Some (Some (c + 1), None))\<rparr>) else None)"
| "narrow_true a (GuardGe _ c) = Some (a\<lparr>av_range := intersect_range (av_range a) (Some (Some c, None))\<rparr>)"
| "narrow_true a (NotNull _) = Some (a\<lparr>av_nullable := Never\<rparr>)"
| "narrow_true a (IsNull _) = Some (a\<lparr>av_nullable := Always\<rparr>)"
| "narrow_true a (Truthy _) = Some (a\<lparr>av_nullable := Never, av_range := exclude_zero (av_range a)\<rparr>)"
| "narrow_true a (Falsy _) = Some (a\<lparr>av_nullable := Maybe\<rparr>)"

definition narrow_value :: "abstract_value \<Rightarrow> guard_condition \<Rightarrow> bool \<Rightarrow> abstract_value" where
  "narrow_value a guard is_true_branch =
     (case narrow_true a (if is_true_branch then guard else negate_guard guard) of
        None \<Rightarrow> av_bottom
      | Some r \<Rightarrow> if is_empty_range (av_range r) then av_bottom else r)"

definition narrow_state :: "abstract_state \<Rightarrow> guard_condition \<Rightarrow> bool \<Rightarrow> abstract_state" where
  "narrow_state st guard is_true_branch =
     (let var = guard_variable guard
      in state_set st var (narrow_value (state_get st var) guard is_true_branch))"

end
