(* ===== verification/Abstract_Meaning.thy ===== *)
theory Abstract_Meaning
  imports Guard
begin

text \<open>
  The meaning of an abstract value as the set of concrete values it describes, and what arithmetic,
  join, widening and narrowing do to it.
\<close>

section \<open>Concrete values\<close>

datatype concrete = VInt int | VString string | VBool bool | VNull

definition in_interval :: "interval option \<Rightarrow> int \<Rightarrow> bool" where
  "in_interval r v =
     (case r of None \<Rightarrow> True
      | Some (low, high) \<Rightarrow> (\<forall>l. low = Some l \<longrightarrow> l \<le> v) \<and> (\<forall>h. high = Some h \<longrightarrow> v \<le> h))"

text \<open>The type, the number the interval bounds, and the constant of a concrete value.\<close>

fun type_name :: "concrete \<Rightarrow> string" where
  "type_name (VInt i) = ''int''"
| "type_name (VString s) = ''str''"
| "type_name (VBool b) = ''bool''"
| "type_name VNull = ''NoneType''"

fun measured :: "concrete \<Rightarrow> int option" where
  "measured (VInt i) = Some i"
| "measured (VString s) = Some (int (length s))"
| "measured (VBool b) = Some (of_bool b)"
| "measured VNull = None"

fun as_constant :: "concrete \<Rightarrow> constant_value" where
  "as_constant (VInt i) = ConstInt i"
| "as_constant (VString s) = ConstString s"
| "as_constant (VBool b) = ConstBool b"
| "as_constant VNull = ConstNull"

definition describes :: "abstract_value \<Rightarrow> concrete \<Rightarrow> bool" where
  "describes a v \<longleftrightarrow>
     av_type a \<in> {None, Some (type_name v)} \<and>
     (\<forall>m. measured v = Some m \<longrightarrow> in_interval (av_range a) m) \<and>
     av_nullable a \<noteq> (if v = VNull then Never else Always) \<and>
     av_constant a \<in> {None, Some (as_constant v)}"

lemma describes_top [simp]: "describes av_top v"
  by (auto simp: describes_def av_top_def in_interval_def)

lemma describes_bottom [simp]: "\<not> describes av_bottom v"
  by (cases v) (auto simp: describes_def av_bottom_def)

definition storable :: "concrete \<Rightarrow> bool" where
  "storable v \<longleftrightarrow> (\<forall>m. measured v = Some m \<longrightarrow> in_i64 m)"

lemma describes_constant: "storable v \<Longrightarrow> describes (from_constant (as_constant v)) v"
  by (cases v) (auto simp: describes_def in_interval_def storable_def Let_def)

text \<open>The values of the constants, read back.\<close>

lemma not_may_be_zero: "describes a (VInt v) \<Longrightarrow> in_i64 v \<Longrightarrow> \<not> may_be_zero a \<Longrightarrow> v \<noteq> 0"
  by (auto simp: describes_def in_interval_def may_be_zero_def unwrap_or_def i64_simps split: option.splits)

lemma not_may_be_null: "describes a v \<Longrightarrow> \<not> may_be_null a \<Longrightarrow> v \<noteq> VNull"
  by (auto simp: describes_def may_be_null_def)

section \<open>Arithmetic\<close>

text \<open>The bound is moved where it stays in range and dropped where it does not.\<close>

lemma add_bound_eq: "in_i64 l \<Longrightarrow> in_i64 c \<Longrightarrow> add_bound c l = (if in_i64 (l + c) then Some (l + c) else None)"
  by (auto simp: add_bound_def i64_simps Let_def)

lemma sub_bound_eq: "in_i64 l \<Longrightarrow> in_i64 c \<Longrightarrow> sub_bound c l = (if in_i64 (l - c) then Some (l - c) else None)"
  by (auto simp: sub_bound_def i64_simps Let_def)

fun arith :: "char \<Rightarrow> int \<Rightarrow> int \<Rightarrow> int" where
  "arith op v c = (if op = CHR ''+'' then v + c else if op = CHR ''-'' then v - c else v * c)"

definition bounds_ok :: "interval option \<Rightarrow> bool" where
  "bounds_ok r = (case r of None \<Rightarrow> True
     | Some (low, high) \<Rightarrow> (\<forall>l. low = Some l \<longrightarrow> in_i64 l) \<and> (\<forall>h. high = Some h \<longrightarrow> in_i64 h))"

definition arithmetic_ops :: "char list" where
  "arithmetic_ops = [CHR ''+'', CHR ''-'', CHR ''*'']"

lemma in_arithmetic_range:
  assumes "in_interval (Some r) v" and "bounds_ok (Some r)" and "in_i64 c" and "op \<in> set arithmetic_ops"
  shows "in_interval (Some (arithmetic_range op c r)) (arith op v c)"
proof -
  obtain low high where r: "r = (low, high)" by (cases r)
  have low: "l \<le> v" "in_i64 l" if "low = Some l" for l
    using assms(1,2) that by (auto simp: r in_interval_def bounds_ok_def)
  have high: "v \<le> h" "in_i64 h" if "high = Some h" for h
    using assms(1,2) that by (auto simp: r in_interval_def bounds_ok_def)
  consider "op = CHR ''+''" | "op = CHR ''-''" | "op = CHR ''*''" using assms(4) by (auto simp: arithmetic_ops_def)
  then show ?thesis
  proof cases
    case 1
    then show ?thesis using low high assms(3)
      by (auto simp: r arithmetic_range_def in_interval_def add_bound_eq split: if_splits bind_splits)
  next
    case 2
    then show ?thesis using low high assms(3)
      by (auto simp: r arithmetic_range_def in_interval_def sub_bound_eq split: if_splits bind_splits)
  next
    case 3
    consider "c = 0" | "0 < c" | "c < 0" by linarith
    then show ?thesis
    proof cases
      case 1
      with 3 show ?thesis by (simp add: r arithmetic_range_def in_interval_def Let_def)
    next
      case 2
      then show ?thesis using low high 3
        by (auto simp: r arithmetic_range_def in_interval_def Let_def compute_mul_def mult_right_mono
            split: option.splits if_splits)
    next
      case neg: 3
      then show ?thesis using low high 3
        by (auto simp: r arithmetic_range_def in_interval_def Let_def compute_mul_def mult_right_mono_neg
            split: option.splits if_splits)
    qed
  qed
qed

lemma bounds_ok_arithmetic:
  assumes "bounds_ok (Some r)" and "in_i64 c"
  shows "bounds_ok (Some (arithmetic_range op c r))"
proof -
  obtain low high where r: "r = (low, high)" by (cases r)
  have "in_i64 0" by (simp add: i64_simps)
  with assms show ?thesis
    by (auto simp: r bounds_ok_def arithmetic_range_def add_bound_eq sub_bound_eq Let_def compute_mul_def
        split: if_splits bind_splits option.splits)
qed


definition value_ok :: "abstract_value \<Rightarrow> bool" where
  "value_ok a \<longleftrightarrow> bounds_ok (av_range a)"

lemma apply_arithmetic_sound:
  assumes "describes a (VInt v)" and "value_ok a" and "in_i64 c" and "op \<in> set arithmetic_ops"
  shows "describes (apply_arithmetic a op c) (VInt (arith op v c))"
proof -
  have range: "in_interval (map_option (arithmetic_range op c) (av_range a)) (arith op v c)"
  proof (cases "av_range a")
    case None
    then show ?thesis by (simp add: in_interval_def)
  next
    case (Some r)
    with assms show ?thesis
      using in_arithmetic_range [of r v c op] by (simp add: describes_def value_ok_def)
  qed
  have "av_constant (apply_arithmetic a op c) \<in> {None, Some (ConstInt (arith op v c))}"
    using range by (auto simp: apply_arithmetic_def Let_def in_interval_def split: option.splits if_splits)
  then show ?thesis
    using assms(1) range by (simp add: describes_def apply_arithmetic_def Let_def)
qed

lemma value_ok_apply_arithmetic: "value_ok a \<Longrightarrow> in_i64 c \<Longrightarrow> value_ok (apply_arithmetic a op c)"
proof (cases "av_range a")
  case None
  then show ?thesis by (simp add: value_ok_def apply_arithmetic_def Let_def bounds_ok_def)
next
  case (Some r)
  moreover assume "value_ok a" and "in_i64 c"
  ultimately show ?thesis
    using bounds_ok_arithmetic [of r c op] by (simp add: value_ok_def apply_arithmetic_def Let_def)
qed

text \<open>The length of a string, or the number of a boolean, becomes an integer constant of that type.\<close>

lemma arithmetic_mistyped:
  assumes "measured v = Some m" and "\<nexists>i. v = VInt i" and "in_i64 m" and "in_i64 c" and "in_i64 (m + c)"
  shows "av_constant (apply_arithmetic (from_constant (as_constant v)) CHR ''+'' c) = Some (ConstInt (m + c)) \<and>
    \<not> describes (apply_arithmetic (from_constant (as_constant v)) CHR ''+'' c) w"
  using assms
  by (cases v; cases w)
    (auto simp: apply_arithmetic_def Let_def arithmetic_range_def add_bound_eq is_constant_def describes_def)

section \<open>Join and widening\<close>

lemma in_join_range:
  assumes "r = None \<longleftrightarrow> s = None" and "in_interval r v \<or> in_interval s v"
  shows "in_interval (join_range r s) v"
proof (cases r)
  case None
  with assms show ?thesis by (simp add: join_range_def in_interval_def)
next
  case r: (Some r')
  with assms(1) obtain s' where s: "s = Some s'" by auto
  obtain a b c d where rs: "r' = (a, b)" "s' = (c, d)" by (cases r', cases s') auto
  show ?thesis using assms(2) unfolding r s rs
    by (cases a; cases b; cases c; cases d) (auto simp: join_range_def both_bounds_def in_interval_def)
qed

lemma constant_eq_describes:
  "constant_eq c d \<Longrightarrow> c = as_constant v \<or> d = as_constant v \<Longrightarrow> c = as_constant v"
  by (cases v; cases c; cases d) auto

lemma join_values_sound:
  assumes "av_range a = None \<longleftrightarrow> av_range b = None" and "describes a v \<or> describes b v"
  shows "describes (join_values a b) v"
proof -
  have "in_interval (av_range (join_values a b)) m" if "measured v = Some m" for m
    using in_join_range [OF assms(1), of m] assms(2) that by (auto simp: describes_def join_values_def)
  moreover have "av_type (join_values a b) \<in> {None, Some (type_name v)}"
    using assms(2) by (auto simp: describes_def join_values_def)
  moreover have "av_nullable (join_values a b) \<noteq> (if v = VNull then Never else Always)"
    using assms(2) by (auto simp: describes_def join_values_def split: nullability.splits if_splits)
  moreover have "av_constant (join_values a b) \<in> {None, Some (as_constant v)}"
    using assms(2) constant_eq_describes [of _ _ v]
    by (auto simp: describes_def join_values_def split: option.splits)
  ultimately show ?thesis unfolding describes_def by blast
qed

text \<open>An unknown range is lost in the join with a known one.\<close>

lemma join_values_unknown:
  assumes "av_range a = None" and "av_range b = Some r"
  shows "av_range (join_values a b) = Some r" and "av_range (join_values b a) = Some r"
  using assms by (simp_all add: join_values_def join_range_def)

lemma in_widen_range: "in_interval new v \<Longrightarrow> in_interval (widen_range old new) v"
  by (auto simp: in_interval_def widen_range_def widen_low_def widen_high_def split: option.splits if_splits)

lemma widen_value_sound: "describes new v \<Longrightarrow> describes (widen_value old new) v"
  by (auto simp: describes_def widen_value_def in_widen_range)

lemma value_ok_join: "value_ok a \<Longrightarrow> value_ok b \<Longrightarrow> value_ok (join_values a b)"
  by (auto simp: value_ok_def bounds_ok_def join_values_def join_range_def both_bounds_def min_def max_def
      split: option.splits)

lemma value_ok_widen: "value_ok new \<Longrightarrow> value_ok (widen_value old new)"
  by (auto simp: value_ok_def bounds_ok_def widen_value_def widen_range_def widen_low_def widen_high_def
      split: option.splits if_splits)

lemma value_ok_top [simp]: "value_ok av_top" and value_ok_bottom [simp]: "value_ok av_bottom"
  by (simp_all add: value_ok_def bounds_ok_def av_top_def av_bottom_def)

lemma value_ok_constant: "storable v \<Longrightarrow> value_ok (from_constant (as_constant v))"
  by (cases v) (auto simp: value_ok_def bounds_ok_def Let_def storable_def)

section \<open>Narrowing\<close>

text \<open>When a condition holds of an integer.\<close>

fun holds :: "guard_condition \<Rightarrow> int \<Rightarrow> bool" where
  "holds (GuardEq _ c) v \<longleftrightarrow> v = c"
| "holds (GuardNeq _ c) v \<longleftrightarrow> v \<noteq> c"
| "holds (GuardLt _ c) v \<longleftrightarrow> v < c"
| "holds (GuardLe _ c) v \<longleftrightarrow> v \<le> c"
| "holds (GuardGt _ c) v \<longleftrightarrow> v > c"
| "holds (GuardGe _ c) v \<longleftrightarrow> v \<ge> c"
| "holds (NotNull _) v \<longleftrightarrow> True"
| "holds (IsNull _) v \<longleftrightarrow> False"
| "holds (Truthy _) v \<longleftrightarrow> v \<noteq> 0"
| "holds (Falsy _) v \<longleftrightarrow> v = 0"

lemma holds_negate: "holds (negate_guard g) v \<longleftrightarrow> \<not> holds g v"
  by (cases g) auto

lemma in_intersect_range: "in_interval (intersect_range r s) v \<longleftrightarrow> in_interval r v \<and> in_interval s v"
proof (cases r; cases s)
  fix r' s' assume rs: "r = Some r'" "s = Some s'"
  obtain a b c d where "r' = (a, b)" "s' = (c, d)" by (cases r', cases s') auto
  with rs show ?thesis
    by (cases a; cases b; cases c; cases d) (auto simp: intersect_range_def tighter_def in_interval_def)
qed (auto simp: intersect_range_def in_interval_def)

lemma is_empty_range: "is_empty_range r \<Longrightarrow> \<not> in_interval r v"
  by (auto simp: is_empty_range_def in_interval_def split: option.splits)

lemma in_exclude_zero:
  "in_i64 v \<Longrightarrow> in_interval (exclude_zero r) v \<Longrightarrow> in_interval r v"
  "in_i64 v \<Longrightarrow> in_interval r v \<Longrightarrow> v \<noteq> 0 \<Longrightarrow> in_interval (exclude_zero r) v"
  by (auto simp: in_interval_def exclude_zero_def unwrap_or_def Let_def i64_simps split: option.splits if_splits)

text \<open>The conditions whose integers are an interval.\<close>

fun is_interval_guard :: "guard_condition \<Rightarrow> bool" where
  "is_interval_guard (GuardNeq _ c) \<longleftrightarrow> False"
| "is_interval_guard (Truthy _) \<longleftrightarrow> False"
| "is_interval_guard (Falsy _) \<longleftrightarrow> False"
| "is_interval_guard (IsNull _) \<longleftrightarrow> False"
| "is_interval_guard _ \<longleftrightarrow> True"


lemma in_half_intervals [simp]:
  "in_interval (Some (Some l, None)) v \<longleftrightarrow> l \<le> v"
  "in_interval (Some (None, Some h)) v \<longleftrightarrow> v \<le> h"
  "in_interval (Some (Some l, Some h)) v \<longleftrightarrow> l \<le> v \<and> v \<le> h"
  "in_interval (Some (None, None)) v"
  "in_interval None v"
  by (simp_all add: in_interval_def)

lemma in_range_end:
  "in_i64 v \<Longrightarrow> \<not> in_i64 (c + 1) \<Longrightarrow> in_i64 c \<Longrightarrow> v \<le> c"
  "in_i64 v \<Longrightarrow> \<not> in_i64 (c - 1) \<Longrightarrow> in_i64 c \<Longrightarrow> c \<le> v"
  by (auto simp: i64_simps)

fun guard_value :: "guard_condition \<Rightarrow> i64 option" where
  "guard_value (GuardEq _ c) = Some c"
| "guard_value (GuardNeq _ c) = Some c"
| "guard_value (GuardLt _ c) = Some c"
| "guard_value (GuardLe _ c) = Some c"
| "guard_value (GuardGt _ c) = Some c"
| "guard_value (GuardGe _ c) = Some c"
| "guard_value _ = None"

definition guard_ok :: "guard_condition \<Rightarrow> bool" where
  "guard_ok g \<longleftrightarrow> is_identifier (guard_variable g) \<and> (\<forall>c. guard_value g = Some c \<longrightarrow> in_i64 c)"

lemma guard_ok_negate [simp]: "guard_ok (negate_guard g) = guard_ok g"
  by (cases g) (simp_all add: guard_ok_def)

lemma narrow_neq:
  assumes "narrow_true a (GuardNeq x c) = n"
  shows "n = None \<and> av_range a = Some (Some c, Some c) \<or>
    (\<exists>r. n = Some r \<and> (r = a \<or> (\<exists>h. av_range a = Some (Some c, h) \<and> r = a\<lparr>av_range := Some (Some (c + 1), h)\<rparr>) \<or>
      (\<exists>l. av_range a = Some (l, Some c) \<and> r = a\<lparr>av_range := Some (l, Some (c - 1))\<rparr>)))"
  using assms by (auto split: option.splits prod.splits if_splits)

lemma in_interval_neq:
  "in_interval (Some (Some (c + 1), h)) v \<longleftrightarrow> in_interval (Some (Some c, h)) v \<and> v \<noteq> c"
  "in_interval (Some (l, Some (c - 1))) v \<longleftrightarrow> in_interval (Some (l, Some c)) v \<and> v \<noteq> c"
  by (auto simp: in_interval_def)

text \<open>What narrowing keeps of the integers of a value.\<close>

lemma narrow_true_sound:
  assumes "in_i64 v" and "in_interval (av_range a) v" and "holds g v" and "guard_ok g"
  shows "\<exists>r. narrow_true a g = Some r \<and> in_interval (av_range r) v"
proof (cases g)
  case (GuardNeq x c)
  with assms have "v \<noteq> c" by simp
  then show ?thesis
    using narrow_neq [OF refl, of a x c] assms(2) GuardNeq by (auto simp: in_interval_neq simp del: narrow_true.simps)
next
  case (GuardLt x c)
  with assms in_range_end(2) [of v c] show ?thesis by (auto simp: in_intersect_range guard_ok_def)
next
  case (GuardGt x c)
  with assms in_range_end(1) [of v c] show ?thesis by (auto simp: in_intersect_range guard_ok_def)
qed (use assms in \<open>simp_all add: in_intersect_range in_exclude_zero(2)\<close>)

lemma narrow_true_keeps:
  assumes "narrow_true a g = Some r" and "in_i64 v" and "in_interval (av_range r) v"
  shows "in_interval (av_range a) v"
proof (cases g)
  case (GuardNeq x c)
  from assms(1) have "narrow_true a (GuardNeq x c) = Some r" unfolding GuardNeq .
  from narrow_neq [OF this] assms(3) show ?thesis by (auto simp: in_interval_neq)
next
  case (GuardLt x c)
  with assms show ?thesis by (auto simp: in_intersect_range split: if_splits)
next
  case (GuardGt x c)
  with assms show ?thesis by (auto simp: in_intersect_range split: if_splits)
next
  case (Truthy x)
  from assms(1) have "av_range r = exclude_zero (av_range a)" unfolding Truthy by auto
  with assms(2,3) in_exclude_zero(1) show ?thesis by simp
qed (use assms in \<open>auto simp: in_intersect_range\<close>)

lemma narrow_true_interval:
  assumes "narrow_true a g = Some r" and "is_interval_guard g" and "in_interval (av_range r) v"
  shows "holds g v"
proof (cases g)
  case (GuardLt x c)
  with assms show ?thesis by (auto simp: in_intersect_range split: if_splits)
next
  case (GuardGt x c)
  with assms show ?thesis by (auto simp: in_intersect_range split: if_splits)
qed (use assms in \<open>auto simp: in_intersect_range\<close>)

lemma narrow_true_fields:
  assumes "narrow_true a g = Some r"
  shows "av_type r = av_type a" and "av_constant r = av_constant a"
    and "av_nullable r =
      (case g of NotNull _ \<Rightarrow> Never | Truthy _ \<Rightarrow> Never | IsNull _ \<Rightarrow> Always | Falsy _ \<Rightarrow> Maybe | _ \<Rightarrow> av_nullable a)"
  using assms by (cases g; auto split: option.splits if_splits)+

text \<open>The condition that holds on a branch.\<close>

definition branch_guard :: "guard_condition \<Rightarrow> bool \<Rightarrow> guard_condition" where
  "branch_guard g is_true_branch = (if is_true_branch then g else negate_guard g)"

lemma guard_ok_branch [simp]: "guard_ok (branch_guard g b) = guard_ok g"
  by (simp add: branch_guard_def)

lemma holds_branch: "holds (branch_guard g b) v \<longleftrightarrow> holds g v = b"
  by (simp add: branch_guard_def holds_negate)

lemma narrow_value_sound:
  assumes "describes a (VInt v)" and "in_i64 v" and "guard_ok g" and "holds g v = b"
  shows "describes (narrow_value a g b) (VInt v)"
proof -
  let ?g = "branch_guard g b"
  have h: "holds ?g v" using assms(4) by (simp add: holds_branch)
  then obtain r where r: "narrow_true a ?g = Some r" "in_interval (av_range r) v"
    using narrow_true_sound [of v a ?g] assms by (auto simp: describes_def)
  then have "narrow_value a g b = r"
    using is_empty_range [of "av_range r" v] by (auto simp: narrow_value_def branch_guard_def)
  moreover have "av_nullable r \<noteq> Always"
    using narrow_true_fields(3) [OF r(1)] assms(1) h by (auto simp: describes_def split: guard_condition.splits)
  ultimately show ?thesis
    using r(2) narrow_true_fields(1,2) [OF r(1)] assms(1) by (simp add: describes_def)
qed

lemma narrow_value_keeps:
  assumes "describes (narrow_value a g b) (VInt v)" and "in_i64 v" and "av_nullable a \<noteq> Always"
  shows "describes a (VInt v)" and "is_interval_guard (branch_guard g b) \<Longrightarrow> holds g v = b"
proof -
  let ?g = "branch_guard g b"
  obtain r where r: "narrow_true a ?g = Some r" "narrow_value a g b = r"
    using assms(1) by (auto simp: narrow_value_def branch_guard_def split: option.splits if_splits)
  note d = assms(1) [unfolded r(2)]
  then have i: "in_interval (av_range r) v" by (simp add: describes_def)
  show "describes a (VInt v)"
    using d narrow_true_fields(1,2) [OF r(1)] narrow_true_keeps [OF r(1) assms(2) i] assms(3)
    by (simp add: describes_def)
  show "holds g v = b" if "is_interval_guard ?g"
    using narrow_true_interval [OF r(1) that i] by (simp add: holds_branch)
qed

lemma value_ok_narrow:
  assumes "value_ok a" and "guard_ok g"
  shows "value_ok (narrow_value a g b)"
proof -
  have *: "bounds_ok (intersect_range r s)" if "bounds_ok r" "bounds_ok s" for r s
    using that by (auto simp: bounds_ok_def intersect_range_def tighter_def min_def max_def split: option.splits)
  have "in_i64 0" "in_i64 1" "in_i64 (- 1)" by (simp_all add: i64_simps)
  then have ex: "bounds_ok (exclude_zero r)" if "bounds_ok r" for r
    using that by (auto simp: bounds_ok_def exclude_zero_def Let_def split: option.splits)
  have "value_ok r" if r: "narrow_true a h = Some r" and h: "guard_ok h" for r h
  proof (cases h)
    case (GuardNeq x c)
    with r h assms(1) show ?thesis
      by (auto simp: value_ok_def bounds_ok_def split: option.splits if_splits)
  qed (use r h assms(1) in \<open>auto simp: value_ok_def guard_ok_def ex intro!: * split: if_splits\<close>,
      simp_all add: bounds_ok_def)
  then show ?thesis
    using assms(2) by (auto simp: narrow_value_def split: option.splits)
qed

lemma narrow_string:
  assumes "in_i64 (int (length s))"
  shows "narrow_value (from_constant (ConstString s)) (GuardNeq x (int (length s))) True = av_bottom"
  using assms by (simp add: narrow_value_def Let_def)

end
