(* ===== verification/Guard_Correct.thy ===== *)
theory Guard_Correct
  imports Abstract_Meaning
begin

text \<open>
  The parser of guard conditions: what it returns is well formed, and the printed form of a condition is
  read back.
\<close>

section \<open>Well-formed results\<close>

lemma make_guard_ok: "make_guard var op v = Some g \<Longrightarrow> is_identifier var \<Longrightarrow> in_i64 v \<Longrightarrow> guard_ok g"
  by (auto simp: make_guard_def guard_ok_def split: if_splits)

lemma null_guard_ok: "null_guard op var = Some g \<Longrightarrow> is_identifier var \<Longrightarrow> guard_ok g"
  by (auto simp: null_guard_def guard_ok_def split: if_splits)

lemma try_comparison_split_ok: "try_comparison_split s op = Some g \<Longrightarrow> guard_ok g"
  by (auto simp: try_comparison_split_def Let_def bind_eq_Some_conv
      split: option.splits if_splits
      dest: parse_i64_in_range intro: make_guard_ok null_guard_ok)

lemma suffix_guard_ok: "p \<in> set null_suffixes \<Longrightarrow> suffix_guard s p = Some g \<Longrightarrow> guard_ok g"
  by (auto simp: null_suffixes_def suffix_guard_def guard_ok_def split: option.splits if_splits)

lemma parse_guard_ok:
  assumes "parse_guard_condition condition = Some g"
  shows "guard_ok g"
proof -
  have id: "guard_ok (Falsy x)" "guard_ok (Truthy x)" if "is_identifier x" for x
    using that by (simp_all add: guard_ok_def)
  let ?s = "trim condition"
  consider "first_some (suffix_guard ?s) null_suffixes = Some g"
    | x where "g = Falsy x" "is_identifier x"
    | "first_some (try_comparison_split ?s) comparison_operators = Some g"
    | x where "g = Truthy x" "is_identifier x"
    using assms unfolding parse_guard_condition_def Let_def by (auto split: option.splits if_splits)
  then show ?thesis
  proof cases
    case 1
    then show ?thesis by (rule first_some_ok) (rule suffix_guard_ok)
  next
    case 3
    then show ?thesis by (rule first_some_ok) (rule try_comparison_split_ok)
  qed (simp_all add: id)
qed

section \<open>Reading back\<close>

definition print_comparison :: "string \<Rightarrow> string \<Rightarrow> i64 \<Rightarrow> string" where
  "print_comparison x op c = x @ '' '' @ op @ '' '' @ int_string c"

text \<open>The condition in the notation of Python.\<close>

fun print_guard :: "guard_condition \<Rightarrow> string" where
  "print_guard (GuardEq x c) = print_comparison x ''=='' c"
| "print_guard (GuardNeq x c) = print_comparison x ''!='' c"
| "print_guard (GuardLt x c) = print_comparison x ''<'' c"
| "print_guard (GuardLe x c) = print_comparison x ''<='' c"
| "print_guard (GuardGt x c) = print_comparison x ''>'' c"
| "print_guard (GuardGe x c) = print_comparison x ''>='' c"
| "print_guard (NotNull x) = x @ '' is not None''"
| "print_guard (IsNull x) = x @ '' is None''"
| "print_guard (Truthy x) = x"
| "print_guard (Falsy x) = ''not '' @ x"

lemma int_string_ends:
  "int_string c \<noteq> []" "\<not> is_whitespace (hd (int_string c))" "\<not> is_whitespace (last (int_string c))"
  "is_ascii_digit (last (int_string c))"
proof -
  show ne: "int_string c \<noteq> []" by (simp add: int_string_def)
  have ws: "\<not> is_whitespace d" if "d \<in> set (int_string c)" for d
    using int_string_chars [OF that] by (auto simp: char_class_defs)
  show "\<not> is_whitespace (hd (int_string c))" "\<not> is_whitespace (last (int_string c))"
    using ne ws by simp_all
  show "is_ascii_digit (last (int_string c))"
    by (auto simp: int_string_def intro!: nat_string_digits [OF last_in_set])
qed

lemma int_string_no_char: "\<not> is_ascii_digit d \<Longrightarrow> d \<noteq> CHR ''-'' \<Longrightarrow> occurrences d (int_string c) = 0"
  using int_string_chars by (auto intro!: occurrences_0)

lemma int_string_not_keyword: "int_string c \<notin> set guard_null_keywords"
proof
  assume "int_string c \<in> set guard_null_keywords"
  then have "\<not> is_ascii_digit (last (int_string c))"
    by (auto simp: guard_null_keywords_def is_ascii_digit_def char_code_def)
  then show False using int_string_ends(4) by simp
qed

lemma int_string_not_identifier: "\<not> is_identifier (int_string c)"
proof
  assume id: "is_identifier (int_string c)"
  then have "is_alphabetic (hd (int_string c)) \<or> hd (int_string c) = CHR ''_''"
    by (auto simp: is_identifier_def split: list.splits)
  moreover have "hd (int_string c) \<in> set (int_string c)" using int_string_ends(1) by simp
  from int_string_chars [OF this] have "is_ascii_digit (hd (int_string c)) \<or> hd (int_string c) = CHR ''-''" .
  ultimately show False by (auto simp: char_class_defs)
qed

text \<open>A comparison of a variable with a number, split at its operator.\<close>

lemma split_comparison:
  assumes "is_identifier x" and "in_i64 c" and "op \<noteq> []" and "hd op \<notin> {CHR '' ''} \<union> {c. is_word_char c}"
  shows "try_comparison_split (print_comparison x op c) op = make_guard x (canonical_operator op) c"
proof -
  let ?s = "x @ '' '' @ op @ '' '' @ int_string c"
  have "hd op \<notin> set (x @ '' '')"
    using assms(1,4) is_identifier_word by auto
  then have f: "find_str op ?s = Some (length (x @ '' ''))"
    using find_str_hd [of op "x @ '' ''" "'' '' @ int_string c"] assms(3) by simp
  have space: "is_whitespace CHR '' ''" by (simp add: is_whitespace_def char_code_def)
  have l: "trim (take (length (x @ '' '')) ?s) = x"
    using trim_surrounded [of x "[]" "'' ''"] identifier_ends [OF assms(1)] space by simp
  have r: "trim (drop (length (x @ '' '') + length op) ?s) = int_string c"
    using trim_surrounded [of "int_string c" "'' ''" "[]"] int_string_ends space by simp
  show ?thesis
    unfolding print_comparison_def try_comparison_split_def f option.case Let_def l r
    using assms(1,2) identifier_ends(1) int_string_ends(1) int_string_not_keyword int_string_not_identifier
    by (simp add: parse_int_string)
qed

lemma no_comparison: "occurrences c s < occurrences c op \<Longrightarrow> try_comparison_split s op = None"
  using no_find [of c s op] by (simp add: try_comparison_split_def)


lemma occurrences_comparison:
  "is_identifier x \<Longrightarrow> \<not> is_word_char d \<Longrightarrow> d \<noteq> CHR ''-'' \<Longrightarrow> d \<noteq> CHR '' '' \<Longrightarrow>
    occurrences d (print_comparison x op c) = occurrences d op"
  by (simp add: print_comparison_def identifier_no_char int_string_no_char is_word_char_def is_alphanumeric_def)

text \<open>What the earlier alternatives of the parser do with a comparison.\<close>

lemma comparison_no_null_suffix:
  assumes "is_identifier x"
  shows "first_some (suffix_guard (print_comparison x op c)) null_suffixes = None"
proof -
  let ?s = "print_comparison x op c"
  have digit: "is_ascii_digit (last ?s)" using int_string_ends(1,4) by (simp add: print_comparison_def)
  have "strip_suffix p ?s = None" if "p \<noteq> []" "\<not> is_ascii_digit (last p)" for p
  proof (rule no_suffix_last)
    show "?s \<noteq> []" using int_string_ends(1) by (simp add: print_comparison_def)
    show "last ?s \<noteq> last p" using digit that(2) by metis
  qed (rule that(1))
  then show ?thesis
    by (simp add: null_suffixes_def suffix_guard_def is_ascii_digit_def char_code_def)
qed

lemma word_before_space:
  assumes "starts_with (p @ '' '') (x @ '' '' @ r)" and "CHR '' '' \<notin> set p" and "CHR '' '' \<notin> set x"
  shows "p = x"
proof -
  from assms(1) obtain t where t: "p @ '' '' @ t = x @ '' '' @ r"
    unfolding starts_with_def by (metis append.assoc append_take_drop_id)
  have "takeWhile ((\<noteq>) CHR '' '') (w @ '' '' @ u) = w" if "CHR '' '' \<notin> set w" for w u
    using that by (subst takeWhile_append2) auto
  with t assms(2,3) show ?thesis by metis
qed

lemma comparison_no_not:
  assumes "is_identifier x" and "x \<noteq> ''not''"
  shows "strip_prefix ''not '' (print_comparison x op c) = None"
proof -
  have "\<not> is_word_char CHR '' ''" by (simp add: char_class_defs)
  then have "CHR '' '' \<notin> set x" using is_identifier_word [OF assms(1)] by metis
  then show ?thesis
    using word_before_space [of "''not''" x "op @ '' '' @ int_string c"] assms(2)
    by (auto simp: strip_prefix_def print_comparison_def)
qed

lemma trim_comparison:
  assumes "is_identifier x"
  shows "trim (print_comparison x op c) = print_comparison x op c" and "print_comparison x op c \<noteq> []"
  using trim_id [of "print_comparison x op c"] identifier_ends [OF assms] int_string_ends
  by (simp_all add: print_comparison_def)

lemma not_word_chars: "\<not> is_word_char CHR ''!''" "\<not> is_word_char CHR ''=''" "\<not> is_word_char CHR ''<''"
  "\<not> is_word_char CHR ''>''" "\<not> is_word_char CHR ''.''" "\<not> is_word_char CHR '' ''" "\<not> is_word_char CHR ''(''"
  by (simp_all add: char_class_defs)

text \<open>The operators before \<open>op\<close> in the list of the parser do not occur in the comparison.\<close>

lemma first_operator:
  assumes "is_identifier x" and "in_i64 c" and "op \<in> {''=='', ''!='', ''<'', ''<='', ''>'', ''>=''}"
  shows "first_some (try_comparison_split (print_comparison x op c)) comparison_operators = make_guard x op c"
proof -
  let ?s = "print_comparison x op c"
  have n: "try_comparison_split ?s p = None"
    if "occurrences CHR ''!'' op < occurrences CHR ''!'' p \<or> occurrences CHR ''='' op < occurrences CHR ''='' p \<or>
      occurrences CHR ''<'' op < occurrences CHR ''<'' p \<or> occurrences CHR ''>'' op < occurrences CHR ''>'' p" for p
    using that occurrences_comparison [OF assms(1), of _ op c] not_word_chars
      no_comparison [of "CHR ''!''" ?s p] no_comparison [of "CHR ''=''" ?s p]
      no_comparison [of "CHR ''<''" ?s p] no_comparison [of "CHR ''>''" ?s p] by auto
  have y: "try_comparison_split ?s op = make_guard x op c"
    using split_comparison [OF assms(1,2), of op] assms(3) not_word_chars by (auto simp: canonical_operator_def)
  have m: "make_guard x op c \<noteq> None" using assms(3) by (auto simp: make_guard_def)
  then obtain g where g: "make_guard x op c = Some g" by auto
  show ?thesis
    using assms(3) y n unfolding comparison_operators_def by (auto simp: g)
qed

lemma parse_comparison:
  assumes "is_identifier x" and "x \<noteq> ''not''" and "in_i64 c" and "op \<in> {''=='', ''!='', ''<'', ''<='', ''>'', ''>=''}"
  shows "parse_guard_condition (print_comparison x op c) = make_guard x op c"
proof -
  have m: "make_guard x op c \<noteq> None" using assms(4) by (auto simp: make_guard_def)
  then obtain g where g: "make_guard x op c = Some g" by auto
  show ?thesis
    unfolding parse_guard_condition_def Let_def trim_comparison(1) [OF assms(1)]
      comparison_no_null_suffix [OF assms(1)] comparison_no_not [OF assms(1,2)] first_operator [OF assms(1,3,4)] g
    using trim_comparison(2) [OF assms(1)] by simp
qed

lemma parse_trimmed:
  assumes "trim s = s" and "s \<noteq> []"
  shows "first_some (suffix_guard s) null_suffixes = Some g \<Longrightarrow> parse_guard_condition s = Some g"
    and "first_some (suffix_guard s) null_suffixes = None \<Longrightarrow> strip_prefix ''not '' s = Some x \<Longrightarrow>
      is_identifier x \<Longrightarrow> parse_guard_condition s = Some (Falsy x)"
    and "first_some (suffix_guard s) null_suffixes = None \<Longrightarrow> strip_prefix ''not '' s = None \<Longrightarrow>
      first_some (try_comparison_split s) comparison_operators = None \<Longrightarrow> strip_prefix ''!'' s = None \<Longrightarrow>
      is_identifier s \<Longrightarrow> parse_guard_condition s = Some (Truthy s)"
  using assms by (simp_all add: parse_guard_condition_def Let_def trim_identifier)

lemma first_suffix:
  "first_some (suffix_guard s) null_suffixes =
    (case suffix_guard s (''.is_some()'', NotNull) of Some g \<Rightarrow> Some g
     | None \<Rightarrow> (case suffix_guard s (''.is_none()'', IsNull) of Some g \<Rightarrow> Some g
     | None \<Rightarrow> (case suffix_guard s ('' is not None'', NotNull) of Some g \<Rightarrow> Some g
     | None \<Rightarrow> suffix_guard s ('' is None'', IsNull))))"
  by (simp add: null_suffixes_def split: option.splits)

lemma no_suffix_guard: "occurrences c s < occurrences c p \<Longrightarrow> suffix_guard s (p, g) = None"
  using no_suffix [of c s p] by (simp add: suffix_guard_def)

lemma suffix_guard_append: "is_identifier x \<Longrightarrow> suffix_guard (x @ p) (p, g) = Some (g x)"
  by (simp add: suffix_guard_def trim_identifier)

lemma trim_with_identifier:
  assumes "is_identifier x"
  shows "trim (x @ '' is not None'') = x @ '' is not None''" and "trim (x @ '' is None'') = x @ '' is None''"
    and "trim (''not '' @ x) = ''not '' @ x"
  using identifier_ends [OF assms]
  by (auto intro!: trim_id simp: is_whitespace_def char_code_def simp del: append_Cons)

lemma no_dot_guard:
  "occurrences CHR ''.'' s = 0 \<Longrightarrow> suffix_guard s (''.is_some()'', g) = None"
  "occurrences CHR ''.'' s = 0 \<Longrightarrow> suffix_guard s (''.is_none()'', g) = None"
  by (simp_all add: no_suffix_guard [where c = "CHR ''.''"])

lemma parse_null_checks:
  assumes "is_identifier x"
  shows "parse_guard_condition (x @ '' is not None'') = Some (NotNull x)"
    and "parse_guard_condition (x @ '' is None'') = Some (IsNull x)"
proof -
  have no: "occurrences d x = 0" if "\<not> is_word_char d" for d
    using identifier_no_char [OF assms that] .
  let ?s = "x @ '' is not None''"
  have "occurrences CHR ''.'' ?s = 0" using no not_word_chars by simp
  then have "first_some (suffix_guard ?s) null_suffixes = Some (NotNull x)"
    unfolding first_suffix suffix_guard_append [OF assms] by (simp only: no_dot_guard option.case)
  then show "parse_guard_condition ?s = Some (NotNull x)"
    by (intro parse_trimmed(1) trim_with_identifier assms) simp_all
  let ?s = "x @ '' is None''"
  have "occurrences CHR ''.'' ?s = 0" using no not_word_chars by simp
  moreover have "suffix_guard ?s ('' is not None'', NotNull) = None"
    by (rule no_suffix_guard [where c = "CHR '' ''"]) (simp add: no not_word_chars)
  ultimately have "first_some (suffix_guard ?s) null_suffixes = Some (IsNull x)"
    unfolding first_suffix suffix_guard_append [OF assms] by (simp only: no_dot_guard option.case)
  then show "parse_guard_condition ?s = Some (IsNull x)"
    by (intro parse_trimmed(1) trim_with_identifier assms) simp_all
qed

lemma parse_truth_checks:
  assumes "is_identifier x"
  shows "parse_guard_condition x = Some (Truthy x)" and "parse_guard_condition (''not '' @ x) = Some (Falsy x)"
proof -
  have no: "occurrences d x = 0" if "\<not> is_word_char d" for d
    using identifier_no_char [OF assms that] .
  have s: "suffix_guard s ('' is not None'', NotNull) = None" "suffix_guard s ('' is None'', IsNull) = None"
    "suffix_guard s (''.is_some()'', NotNull) = None" "suffix_guard s (''.is_none()'', IsNull) = None"
    if "s = x \<or> s = ''not '' @ x" for s
    using that
    by (auto intro: no_suffix_guard [where c = "CHR '' ''"] no_suffix_guard [where c = "CHR ''.''"]
        simp: no not_word_chars simp del: append_Cons)
  then have f: "first_some (suffix_guard s) null_suffixes = None" if "s = x \<or> s = ''not '' @ x" for s
    unfolding first_suffix using that by simp
  have "try_comparison_split x op = None" if "op \<in> set comparison_operators" for op
    using that no_comparison [of "CHR ''=''" x op] no_comparison [of "CHR ''<''" x op]
      no_comparison [of "CHR ''>''" x op] no not_word_chars by (auto simp: comparison_operators_def)
  then have "first_some (try_comparison_split x) comparison_operators = None"
    by (simp add: comparison_operators_def)
  moreover have "strip_prefix ''!'' x = None"
    by (rule no_prefix [where c = "CHR ''!''"]) (simp add: no not_word_chars)
  moreover have "strip_prefix ''not '' x = None"
    by (rule no_prefix [where c = "CHR '' ''"]) (simp add: no not_word_chars)
  ultimately show "parse_guard_condition x = Some (Truthy x)"
    using f [of x] assms by (intro parse_trimmed(3) trim_identifier identifier_ends) simp_all
  show "parse_guard_condition (''not '' @ x) = Some (Falsy x)"
    using f [of "''not '' @ x"]
    by (intro parse_trimmed(2) trim_with_identifier(3) strip_prefix_append assms) simp_all
qed

lemma parse_print_guard:
  assumes "guard_ok g" and "guard_variable g \<noteq> ''not''"
  shows "parse_guard_condition (print_guard g) = Some g"
  using assms
  by (cases g) (simp_all add: guard_ok_def parse_comparison make_guard_def parse_null_checks parse_truth_checks
      del: append_Cons)

end
