(* ===== verification/Assignment.thy ===== *)
theory Assignment
  imports Abstract_Parse Guard_Correct
begin

text \<open>
  Simple assignments of Python: their text is read as the value they compute, and that value describes
  what they store.
\<close>

section \<open>Right-hand sides\<close>

datatype rhs =
  RhsInt i64
| RhsBool bool
| RhsNone
| RhsCopy string
| RhsArith string char i64

definition is_variable :: "string \<Rightarrow> bool" where
  "is_variable x \<longleftrightarrow> is_identifier x \<and> x \<notin> {''None'', ''True'', ''False''}"

fun rhs_ok :: "rhs \<Rightarrow> bool" where
  "rhs_ok (RhsInt c) \<longleftrightarrow> in_i64 c"
| "rhs_ok (RhsBool b) \<longleftrightarrow> True"
| "rhs_ok RhsNone \<longleftrightarrow> True"
| "rhs_ok (RhsCopy y) \<longleftrightarrow> is_variable y"
| "rhs_ok (RhsArith y op c) \<longleftrightarrow> is_variable y \<and> op \<in> set arithmetic_ops \<and> in_i64 c"

fun print_rhs :: "rhs \<Rightarrow> string" where
  "print_rhs (RhsInt c) = int_string c"
| "print_rhs (RhsBool b) = (if b then ''True'' else ''False'')"
| "print_rhs RhsNone = ''None''"
| "print_rhs (RhsCopy y) = y"
| "print_rhs (RhsArith y op c) = y @ '' '' @ [op] @ '' '' @ int_string c"

definition print_assignment :: "string \<Rightarrow> rhs \<Rightarrow> string" where
  "print_assignment x e = x @ '' = '' @ print_rhs e"

fun abstract_rhs :: "abstract_state \<Rightarrow> rhs \<Rightarrow> abstract_value" where
  "abstract_rhs st (RhsInt c) = from_constant (ConstInt c)"
| "abstract_rhs st (RhsBool b) = from_constant (ConstBool b)"
| "abstract_rhs st RhsNone = from_constant ConstNull"
| "abstract_rhs st (RhsCopy y) = state_get st y"
| "abstract_rhs st (RhsArith y op c) = apply_arithmetic (state_get st y) op c"

section \<open>Reading a right-hand side\<close>

text \<open>What starts with neither a digit, a sign nor a dot is no number.\<close>

definition number_start :: "char \<Rightarrow> bool" where
  "number_start c \<longleftrightarrow> is_ascii_digit c \<or> c \<in> {CHR ''-'', CHR ''+'', CHR ''.''}"

lemma not_number_i64: "s \<noteq> [] \<Longrightarrow> \<not> number_start (hd s) \<Longrightarrow> parse_i64 s = None"
  by (cases s) (auto simp: parse_i64_def number_start_def Let_def)

lemma not_number_decimal: "s \<noteq> [] \<Longrightarrow> \<not> number_start (hd s) \<Longrightarrow> parse_decimal s = None"
  by (cases s) (auto simp: parse_decimal_def number_start_def Let_def)

lemma not_number_f64:
  assumes "s \<noteq> []" and "\<not> number_start (hd s)"
  shows "parse_f64 s = (if to_lowercase s \<in> {''inf'', ''infinity''} then Some f64_infinity
    else if to_lowercase s = ''nan'' then Some (f64_infinity + 2 ^ 51) else None)"
proof -
  have "split_sign s = (False, s)"
    using assms by (cases s) (auto simp: split_sign_def number_start_def)
  then show ?thesis
    using not_number_decimal [OF assms] by (simp add: parse_f64_def option.map_ident)
qed

text \<open>The guard before the float parser excludes the names of infinity and not-a-number.\<close>

lemma float_guard:
  assumes "s \<noteq> []" and "\<not> number_start (hd s)"
  shows "(if contains_str ''.'' s \<or> contains_str ''e'' (to_lowercase s) then parse_f64 s else None) = None"
proof (cases "to_lowercase s \<in> {''inf'', ''infinity'', ''nan''}")
  case True
  then have "\<not> contains_str ''e'' (to_lowercase s)"
    using no_find [of "CHR ''e''" "to_lowercase s" "''e''"] by (auto simp: contains_str_def)
  moreover have "CHR ''.'' \<notin> set s"
  proof
    assume "CHR ''.'' \<in> set s"
    then have "to_lower_char CHR ''.'' \<in> set (to_lowercase s)" unfolding to_lowercase_def by (simp only: set_map imageI)
    moreover have "to_lower_char CHR ''.'' = CHR ''.''" by (simp add: to_lower_char_def is_upper_def char_code_def)
    ultimately show False using True by auto
  qed
  then have "\<not> contains_str ''.'' s"
    using no_find [of "CHR ''.''" s "''.''"] occurrences_0 [of "CHR ''.''" s] by (simp add: contains_str_def)
  ultimately show ?thesis by simp
next
  case False
  then show ?thesis using not_number_f64 [OF assms] by auto
qed

lemma rhs_value_other:
  assumes "s \<noteq> []" and "\<not> number_start (hd s)"
  shows "rhs_value s st language =
    (if quoted_by [double_quote] s \<or> quoted_by [single_quote] s then from_constant (ConstString (unquote 1 s))
     else if quoted_by (replicate 3 double_quote) s \<or> quoted_by (replicate 3 single_quote) s then
       from_constant (ConstString (unquote 3 s))
     else if s \<in> set (get_null_keywords language) then
       (if s = ''undefined'' then
          \<lparr>av_type = Some ''undefined'', av_range = None, av_nullable = Always, av_constant = None\<rparr>
        else from_constant ConstNull)
     else case get_boolean_keywords language s of Some b \<Rightarrow> from_constant (ConstBool b)
     | None \<Rightarrow>
         if is_identifier s then state_get st s
         else (case parse_simple_arithmetic s of
                 Some (operand_var, op, constant) \<Rightarrow> apply_arithmetic (state_get st operand_var) op constant
               | None \<Rightarrow> av_top))"
  unfolding rhs_value_def not_number_i64 [OF assms] float_guard [OF assms] by (simp add: assms(1))

text \<open>A text between two quotes is one literal, whatever it holds.\<close>

lemma rhs_value_quoted:
  assumes "q = double_quote \<or> q = single_quote"
  shows "rhs_value (q # s @ [q]) st language = from_constant (ConstString s)"
proof -
  have h: "\<not> number_start (hd (q # s @ [q]))"
    using assms by (auto simp: number_start_def double_quote_def single_quote_def is_ascii_digit_def char_code_def)
  have "quoted_by [q] (q # s @ [q])" by (simp add: quoted_by_def starts_with_def ends_with_def)
  moreover have "unquote 1 (q # s @ [q]) = s" by (simp add: unquote_def)
  ultimately show ?thesis
    using assms by (subst rhs_value_other [OF _ h]) auto
qed

lemma identifier_hd:
  assumes "is_identifier x"
  shows "\<not> number_start (hd x)" and "hd x \<noteq> double_quote" and "hd x \<noteq> single_quote"
  using assms
  by (auto simp: is_identifier_def number_start_def double_quote_def single_quote_def char_class_defs split: list.splits)

lemma not_quoted:
  assumes "hd s \<noteq> double_quote" and "hd s \<noteq> single_quote"
  shows "\<not> quoted_by [double_quote] s" "\<not> quoted_by [single_quote] s"
    "\<not> quoted_by (replicate 3 double_quote) s" "\<not> quoted_by (replicate 3 single_quote) s"
  using assms by (cases s; auto simp: quoted_by_def starts_with_def numeral_3_eq_3)+

lemma python_keywords:
  "get_null_keywords ''python'' = [''None'']"
  "get_boolean_keywords ''python'' = [''True'' \<mapsto> True, ''False'' \<mapsto> False]"
  "get_comment_pattern ''python'' = ''#''"
  by (simp_all add: get_null_keywords_def get_boolean_keywords_def get_comment_pattern_def to_lowercase_def
      to_lower_char_def is_upper_def char_code_def)

lemma rhs_value_copy: "is_variable y \<Longrightarrow> rhs_value y st ''python'' = state_get st y"
  unfolding is_variable_def
  by (subst rhs_value_other) (auto simp: python_keywords identifier_hd identifier_ends not_quoted)

lemma rhs_value_keywords:
  "rhs_value ''None'' st ''python'' = from_constant ConstNull"
  "rhs_value ''True'' st ''python'' = from_constant (ConstBool True)"
  "rhs_value ''False'' st ''python'' = from_constant (ConstBool False)"
proof -
  have q: "\<not> quoted_by [double_quote] s" "\<not> quoted_by [single_quote] s"
    "\<not> quoted_by (replicate 3 double_quote) s" "\<not> quoted_by (replicate 3 single_quote) s" "\<not> number_start (hd s)"
    if "s \<in> {''None'', ''True'', ''False''}" for s
    using that not_quoted [of s]
    by (auto simp: double_quote_def single_quote_def number_start_def is_ascii_digit_def char_code_def)
  have n: "\<not> number_start CHR ''N''" "\<not> number_start CHR ''T''" "\<not> number_start CHR ''F''"
    by (simp_all add: number_start_def is_ascii_digit_def char_code_def)
  show "rhs_value ''None'' st ''python'' = from_constant ConstNull"
    "rhs_value ''True'' st ''python'' = from_constant (ConstBool True)"
    "rhs_value ''False'' st ''python'' = from_constant (ConstBool False)"
    by (subst rhs_value_other; simp add: q n python_keywords)+
qed

lemma rhs_value_int: "in_i64 c \<Longrightarrow> rhs_value (int_string c) st language = from_constant (ConstInt c)"
  by (simp add: rhs_value_def parse_int_string int_string_ends)


text \<open>Splitting \<open>y op c\<close> at its operator.\<close>

lemma no_space_split:
  assumes "u @ CHR '' '' # p = v @ CHR '' '' # q" and "CHR '' '' \<notin> set u" and "CHR '' '' \<notin> set v"
  shows "u = v" and "p = q"
proof -
  have "takeWhile ((\<noteq>) CHR '' '') (w @ CHR '' '' # r) = w" if "CHR '' '' \<notin> set w" for w r
    using that by (subst takeWhile_append2) auto
  with assms show "u = v" by metis
  with assms(1) show "p = q" by simp
qed

lemma find_str_split: "find_str p s = Some i \<Longrightarrow> \<exists>u q. s = u @ p @ q"
  using find_str_at [of p s i] unfolding starts_with_def by (metis append_take_drop_id)

lemma spaced_operator_found:
  assumes "find_str ('' '' @ [o'] @ '' '') (y @ '' '' @ [op] @ '' '' @ d) = Some i"
    and "CHR '' '' \<notin> set y" and "CHR '' '' \<notin> set d" and "o' \<noteq> CHR '' ''" and "op \<noteq> CHR '' ''"
  shows "o' = op"
proof -
  let ?s = "y @ '' '' @ [op] @ '' '' @ d"
  obtain u q where "?s = u @ ('' '' @ [o'] @ '' '') @ q" using find_str_split [OF assms(1)] by blast
  then have q: "?s = u @ '' '' @ [o'] @ '' '' @ q" by (simp only: append_assoc)
  have count: "occurrences CHR '' '' ?s = 2" using assms(2,3,5) by (simp add: occurrences_0)
  have "occurrences CHR '' '' ?s = occurrences CHR '' '' u + 2 + occurrences CHR '' '' q"
    by (subst q) (use assms(4) in simp)
  then have "occurrences CHR '' '' u = 0" unfolding count by simp
  then have "CHR '' '' \<notin> set u" by (auto simp: occurrences_def filter_empty_conv)
  moreover have "y @ CHR '' '' # op # '' '' @ d = u @ CHR '' '' # o' # '' '' @ q" using q by simp
  ultimately show ?thesis using no_space_split(2) [of y "op # '' '' @ d" u "o' # '' '' @ q"] assms(2) by simp
qed

lemma variable_no_space: "is_identifier x \<Longrightarrow> CHR '' '' \<notin> set x"
proof
  assume "is_identifier x" and "CHR '' '' \<in> set x"
  then have "is_word_char CHR '' ''" by (rule is_identifier_word)
  then show False by (simp add: char_class_defs)
qed

lemma int_string_no_space: "CHR '' '' \<notin> set (int_string c)"
  using int_string_chars [of "CHR '' ''" c] by (auto simp: is_ascii_digit_def char_code_def)

lemma operator_char: "op \<in> set arithmetic_ops \<Longrightarrow> \<not> is_word_char op \<and> op \<noteq> CHR '' ''"
  by (auto simp: arithmetic_ops_def char_class_defs)

lemma simple_arithmetic_found:
  assumes "is_identifier y" and "op \<in> set arithmetic_ops" and "in_i64 c"
  shows "simple_arithmetic_with (y @ '' '' @ [op] @ '' '' @ int_string c) op = Some (y, op, c)"
proof -
  let ?s = "y @ '' '' @ [op] @ '' '' @ int_string c"
  have "split_once ('' '' @ [op] @ '' '') ?s = Some (y, int_string c)"
    using find_str_hd [of "'' '' @ [op] @ '' ''" y "int_string c"] variable_no_space [OF assms(1)]
    by (simp add: split_once_def)
  then show ?thesis
    using assms(1,3) int_string_ends by (simp add: simple_arithmetic_with_def trim_identifier trim_id parse_int_string)
qed

lemma no_split: "occurrences o' s = 0 \<Longrightarrow> o' \<noteq> CHR '' '' \<Longrightarrow> simple_arithmetic_with s o' = None"
  using no_find [of o' s "[o']"] no_find [of o' s "'' '' @ [o'] @ '' ''"]
  by (simp add: simple_arithmetic_with_def split_once_def)

text \<open>The minus of a negative factor is tried first, with a left side that is no variable.\<close>

lemma minus_before_times:
  assumes "is_identifier y"
  shows "simple_arithmetic_with (y @ '' '' @ ''*'' @ '' '' @ int_string c) CHR ''-'' = None"
proof (cases "c < 0")
  case False
  then have "occurrences CHR ''-'' (int_string c) = 0"
    using nat_string_digits [of "CHR ''-''" "nat c"]
    by (auto intro!: occurrences_0 simp: int_string_def is_ascii_digit_def char_code_def)
  then show ?thesis
    using identifier_no_char [OF assms, of "CHR ''-''"] by (intro no_split) (simp_all add: char_class_defs)
next
  case True
  define d where "d = nat_string (nat (- c))"
  let ?s = "y @ '' '' @ ''*'' @ '' '' @ int_string c"
  have c: "int_string c = ''-'' @ d" using True by (simp add: int_string_def d_def)
  then have s: "?s = (y @ '' * '') @ ''-'' @ d" by simp
  have minus: "CHR ''-'' \<notin> set (y @ '' * '')"
    using is_identifier_word [OF assms, of "CHR ''-''"] by (auto simp: char_class_defs)
  have spaced: "find_str ('' '' @ [CHR ''-''] @ '' '') ?s = None"
  proof (rule ccontr)
    assume "find_str ('' '' @ [CHR ''-''] @ '' '') ?s \<noteq> None"
    then obtain i where "find_str ('' '' @ [CHR ''-''] @ '' '') (y @ '' '' @ [CHR ''*''] @ '' '' @ int_string c) = Some i" by auto
    from spaced_operator_found [OF this variable_no_space [OF assms] int_string_no_space] show False by simp
  qed
  have found: "find_str ''-'' ?s = Some (length (y @ '' * ''))"
    unfolding s by (rule find_str_hd) (use minus in simp_all)
  have "trim (y @ '' * '') = y @ '' *''"
    using trim_surrounded [of "y @ '' *''" "[]" "'' ''"] identifier_ends [OF assms]
    by (simp add: is_whitespace_def char_code_def)
  moreover have "\<not> is_identifier (y @ '' *'')"
    using is_identifier_word [of "y @ '' *''" "CHR ''*''"] by (auto simp: char_class_defs)
  moreover have "split_once ''-'' ?s = Some (y @ '' * '', d)"
    unfolding split_once_def found by (simp add: c)
  moreover have "split_once ('' '' @ [CHR ''-''] @ '' '') ?s = None"
    unfolding split_once_def spaced by simp
  ultimately show ?thesis
    unfolding simple_arithmetic_with_def by simp
qed

lemma parse_simple_arithmetic_print:
  assumes "is_identifier y" and "op \<in> set arithmetic_ops" and "in_i64 c"
  shows "parse_simple_arithmetic (y @ '' '' @ [op] @ '' '' @ int_string c) = Some (y, op, c)"
proof -
  let ?s = "y @ '' '' @ [op] @ '' '' @ int_string c"
  have t: "trim ?s = ?s"
    using identifier_ends [OF assms(1)] int_string_ends by (intro trim_id) simp_all
  have no_plus: "simple_arithmetic_with ?s CHR ''+'' = None" if "op \<noteq> CHR ''+''"
    using identifier_no_char [OF assms(1), of "CHR ''+''"] int_string_no_char [of "CHR ''+''" c] that
    by (intro no_split) (auto simp: char_class_defs)
  consider "op = CHR ''+''" | "op = CHR ''-''" | "op = CHR ''*''" using assms(2) by (auto simp: arithmetic_ops_def)
  then show ?thesis
    using simple_arithmetic_found [OF assms] no_plus minus_before_times [OF assms(1), of c]
    unfolding parse_simple_arithmetic_def t by cases simp_all
qed

lemma rhs_value_arith:
  assumes "is_variable y" and "op \<in> set arithmetic_ops" and "in_i64 c"
  shows "rhs_value (y @ '' '' @ [op] @ '' '' @ int_string c) st ''python'' = apply_arithmetic (state_get st y) op c"
proof -
  let ?s = "y @ '' '' @ [op] @ '' '' @ int_string c"
  have id: "is_identifier y" using assms(1) by (simp add: is_variable_def)
  have h: "hd ?s = hd y" "?s \<noteq> []" using identifier_ends(1) [OF id] by simp_all
  have "\<not> is_word_char CHR '' ''" by (simp add: char_class_defs)
  then have "\<not> is_identifier ?s" using is_identifier_word [of ?s "CHR '' ''"] by auto
  moreover have "?s \<notin> {''None'', ''True'', ''False''}"
  proof -
    have "\<forall>k \<in> {''None'', ''True'', ''False''}. CHR '' '' \<notin> set k" by simp
    moreover have "CHR '' '' \<in> set ?s" by simp
    ultimately show ?thesis by blast
  qed
  ultimately show ?thesis
    using identifier_hd [OF id] not_quoted [of ?s] parse_simple_arithmetic_print [OF id assms(2,3)]
    by (subst rhs_value_other) (simp_all only: h, auto simp: python_keywords)
qed

lemma rhs_value_print: "rhs_ok e \<Longrightarrow> rhs_value (print_rhs e) st ''python'' = abstract_rhs st e"
  by (cases e) (simp_all add: rhs_value_int rhs_value_keywords rhs_value_copy rhs_value_arith del: append_Cons append_Nil)

section \<open>Reading an assignment\<close>

definition plain_char :: "char \<Rightarrow> bool" where
  "plain_char c \<longleftrightarrow> c \<notin> {backslash, double_quote, single_quote, back_quote}"

text \<open>A line without quotes, escapes and the first character of the comment mark has no comment.\<close>

lemma strip_comment_loop_plain:
  assumes "\<forall>c \<in> set s. plain_char c \<and> c \<noteq> hd pattern" and "pattern \<noteq> []"
  shows "strip_comment_loop pattern False None s = s"
  using assms(1)
proof (induction s)
  case (Cons c s)
  then have "\<not> starts_with pattern (c # s)" using assms(2) by (cases pattern) (auto simp: starts_with_def)
  moreover have "c \<noteq> backslash" "\<not> (c = double_quote \<or> c = single_quote)" using Cons.prems by (simp_all add: plain_char_def)
  moreover have "strip_comment_loop pattern False None s = s" using Cons by simp
  ultimately show ?case by simp
qed simp

lemma word_plain: "is_word_char c \<Longrightarrow> plain_char c \<and> c \<noteq> CHR ''#'' \<and> c \<noteq> CHR ''=''"
  by (auto simp: plain_char_def backslash_def double_quote_def single_quote_def back_quote_def char_class_defs)

definition simple_text :: "string \<Rightarrow> bool" where
  "simple_text s \<longleftrightarrow> s \<noteq> [] \<and> \<not> is_whitespace (hd s) \<and> \<not> is_whitespace (last s) \<and>
     (\<forall>c \<in> set s. plain_char c \<and> c \<noteq> CHR ''#'' \<and> c \<noteq> CHR ''='')"

lemma simple_text_identifier: "is_identifier x \<Longrightarrow> simple_text x"
  using identifier_ends [of x] is_identifier_word [of x] word_plain by (auto simp: simple_text_def)

lemma int_char_plain:
  assumes "c \<in> set (int_string v)"
  shows "plain_char c \<and> c \<noteq> CHR ''#'' \<and> c \<noteq> CHR ''=''"
proof (cases "c = CHR ''-''")
  case False
  then have "is_word_char c"
    using int_string_chars [OF assms] by (simp add: is_word_char_def is_alphanumeric_def)
  then show ?thesis by (rule word_plain)
qed (simp add: plain_char_def backslash_def double_quote_def single_quote_def back_quote_def)

lemma simple_text_int: "simple_text (int_string v)"
  using int_string_ends [of v] int_char_plain [of _ v] by (simp add: simple_text_def)

lemma simple_text_rhs:
  assumes "rhs_ok e"
  shows "simple_text (print_rhs e)"
proof (cases e)
  case (RhsInt c)
  then show ?thesis by (simp add: simple_text_int)
next
  case (RhsArith y op c)
  then have y: "simple_text y" and op: "op \<in> set arithmetic_ops"
    using assms simple_text_identifier by (auto simp: is_variable_def)
  then have "plain_char op \<and> op \<noteq> CHR ''#'' \<and> op \<noteq> CHR ''=''"
    by (auto simp: arithmetic_ops_def plain_char_def backslash_def double_quote_def single_quote_def back_quote_def)
  with y simple_text_int [of c] RhsArith show ?thesis
    by (auto simp: simple_text_def plain_char_def backslash_def double_quote_def single_quote_def back_quote_def)
next
  case (RhsCopy y)
  then show ?thesis using assms simple_text_identifier by (simp add: is_variable_def)
next
  case (RhsBool b)
  have "simple_text k" if "k \<in> {''True'', ''False''}" for k
    using that by (auto simp: simple_text_def is_whitespace_def char_code_def plain_char_def backslash_def
        double_quote_def single_quote_def back_quote_def)
  with RhsBool show ?thesis by simp
next
  case RhsNone
  have "simple_text ''None''"
    by (simp add: simple_text_def is_whitespace_def char_code_def plain_char_def backslash_def
        double_quote_def single_quote_def back_quote_def)
  with RhsNone show ?thesis by simp
qed

text \<open>The only equals sign of \<open>x = t\<close> follows a space, so no augmented assignment matches.\<close>

lemma equals_after_space:
  assumes "x @ '' = '' @ t = u @ (a @ [c, CHR ''=''] @ b) @ q" and "CHR ''='' \<notin> set x" and "CHR ''='' \<notin> set t"
  shows "c = CHR '' ''"
proof -
  let ?E = "CHR ''=''"
  have "occurrences ?E (x @ '' = '' @ t) = 1" using assms(2,3) by (simp add: occurrences_0)
  moreover have "occurrences ?E (x @ '' = '' @ t) = occurrences ?E (u @ a @ [c]) + 1 + occurrences ?E (b @ q)"
    by (subst assms(1)) simp
  ultimately have "occurrences ?E (u @ a @ [c]) = 0" by linarith
  then have "?E \<notin> set (u @ a @ [c])" by (auto simp: occurrences_def filter_empty_conv split: if_splits)
  then have "takeWhile ((\<noteq>) ?E) ((u @ a @ [c]) @ ?E # b @ q) = u @ a @ [c]"
    by (subst takeWhile_append2) auto
  moreover have "takeWhile ((\<noteq>) ?E) ((x @ '' '') @ ?E # '' '' @ t) = x @ '' ''"
    using assms(2) by (subst takeWhile_append2) auto
  moreover have "(u @ a @ [c]) @ ?E # b @ q = (x @ '' '') @ ?E # '' '' @ t" using assms(1) by simp
  ultimately have "u @ a @ [c] = x @ '' ''" by metis
  then have "last (u @ a @ [c]) = last (x @ '' '')" by (simp only:)
  then show ?thesis by simp
qed

lemma not_augmented:
  assumes "CHR ''='' \<notin> set x" and "CHR ''='' \<notin> set t" and "op \<noteq> CHR '' ''"
  shows "augmented_rhs (x @ '' = '' @ t) x op = None"
proof -
  have "find_str (a @ [op, CHR ''=''] @ b) (x @ '' = '' @ t) = None" for a b
  proof (rule ccontr)
    assume "find_str (a @ [op, CHR ''=''] @ b) (x @ '' = '' @ t) \<noteq> None"
    then obtain i where "find_str (a @ [op, CHR ''=''] @ b) (x @ '' = '' @ t) = Some i" by auto
    from find_str_split [OF this] obtain u q where "x @ '' = '' @ t = u @ (a @ [op, CHR ''=''] @ b) @ q" by blast
    from equals_after_space [OF this assms(1,2)] assms(3) show False by simp
  qed
  note n = this [of "x @ '' ''" "'' ''"] this [of "x @ '' ''" "[]"] this [of x "'' ''"] this [of x "[]"]
  show ?thesis
    using n by (simp add: augmented_rhs_def after_pattern_def)
qed

lemma find_str_0: "starts_with p s \<Longrightarrow> find_str p s = Some 0"
  by (cases s) (auto simp: starts_with_def)

lemma extract_rhs_assignment:
  assumes "is_identifier x" and "simple_text t"
  shows "extract_rhs (x @ '' = '' @ t) x = Some t"
proof -
  let ?s = "x @ '' = '' @ t"
  have eq: "CHR ''='' \<notin> set x" "CHR ''='' \<notin> set t"
    using simple_text_identifier [OF assms(1)] assms(2) by (auto simp: simple_text_def)
  have t: "trim ?s = ?s"
    using identifier_ends [OF assms(1)] assms(2) by (intro trim_id) (simp_all add: simple_text_def)
  have "first_some (augmented_rhs ?s x) ''+-*/%'' = None"
    using not_augmented [OF eq] by simp
  moreover have "after_pattern ?s (x @ '' = '') = Some t"
  proof -
    have "find_str (x @ '' = '') ?s = Some 0"
      by (rule find_str_0) (simp add: starts_with_def)
    moreover have "trim t = t" using assms(2) by (simp add: simple_text_def trim_id)
    ultimately show ?thesis by (simp add: after_pattern_def)
  qed
  ultimately show ?thesis unfolding extract_rhs_def Let_def t by simp
qed

lemma strip_comment_simple:
  assumes "\<forall>c \<in> set s. plain_char c \<and> c \<noteq> CHR ''#''"
  shows "strip_comment s ''python'' = s"
  unfolding strip_comment_def python_keywords using assms by (intro strip_comment_loop_plain) simp_all

lemma parse_print_assignment:
  assumes "is_identifier x" and "rhs_ok e"
  shows "parse_rhs_abstract (print_assignment x e) x st ''python'' = abstract_rhs st e"
proof -
  let ?s = "x @ '' = '' @ print_rhs e"
  note st = simple_text_rhs [OF assms(2)]
  have "\<forall>c \<in> set ?s. plain_char c \<and> c \<noteq> CHR ''#''"
    using simple_text_identifier [OF assms(1)] st
    by (auto simp: simple_text_def plain_char_def backslash_def double_quote_def single_quote_def back_quote_def)
  then have "strip_comment ?s ''python'' = ?s" by (rule strip_comment_simple)
  moreover have "trim (print_rhs e) = print_rhs e" using st by (simp add: simple_text_def trim_id)
  ultimately show ?thesis
    unfolding parse_rhs_abstract_def print_assignment_def
    using extract_rhs_assignment [OF assms(1) st] rhs_value_print [OF assms(2)] by simp
qed

section \<open>What an assignment stores\<close>

type_synonym store = "string \<Rightarrow> concrete"

text \<open>The value a right-hand side computes; arithmetic on anything but integers fails.\<close>

fun eval_rhs :: "store \<Rightarrow> rhs \<Rightarrow> concrete option" where
  "eval_rhs \<sigma> (RhsInt c) = Some (VInt c)"
| "eval_rhs \<sigma> (RhsBool b) = Some (VBool b)"
| "eval_rhs \<sigma> RhsNone = Some VNull"
| "eval_rhs \<sigma> (RhsCopy y) = Some (\<sigma> y)"
| "eval_rhs \<sigma> (RhsArith y op c) = (case \<sigma> y of VInt i \<Rightarrow> Some (VInt (arith op i c)) | _ \<Rightarrow> None)"

definition store_in :: "abstract_state \<Rightarrow> store \<Rightarrow> bool" where
  "store_in st \<sigma> \<longleftrightarrow> (\<forall>x. describes (state_get st x) (\<sigma> x))"

definition state_ok :: "abstract_state \<Rightarrow> bool" where
  "state_ok st \<longleftrightarrow> (\<forall>x. value_ok (state_get st x))"

lemma abstract_rhs_sound:
  assumes "store_in st \<sigma>" and "state_ok st" and "rhs_ok e" and "eval_rhs \<sigma> e = Some v"
  shows "describes (abstract_rhs st e) v" and "value_ok (abstract_rhs st e)"
proof -
  have st: "describes (state_get st x) (\<sigma> x)" "value_ok (state_get st x)" for x
    using assms(1,2) by (simp_all add: store_in_def state_ok_def)
  have k: "describes (from_constant (as_constant u)) u" "value_ok (from_constant (as_constant u))" if "storable u" for u
    using that describes_constant value_ok_constant by auto
  have s: "storable (VBool b)" "storable VNull" for b
    by (simp_all add: storable_def i64_simps)
  note k' = k [OF s(1)] k [OF s(2)]
  show "describes (abstract_rhs st e) v"
  proof (cases e)
    case (RhsArith y op c)
    with assms(4) obtain i where i: "\<sigma> y = VInt i" "v = VInt (arith op i c)" by (auto split: concrete.splits)
    with apply_arithmetic_sound [of "state_get st y" i c op] st [of y] assms(3) RhsArith show ?thesis by simp
  next
    case (RhsInt c)
    with k [of "VInt c"] assms(3,4) show ?thesis by (simp add: storable_def)
  qed (use assms(4) st k' in \<open>auto simp del: from_constant.simps\<close>)
  show "value_ok (abstract_rhs st e)"
  proof (cases e)
    case (RhsArith y op c)
    with value_ok_apply_arithmetic [of "state_get st y" c op] st [of y] assms(3) show ?thesis by simp
  next
    case (RhsInt c)
    with k [of "VInt c"] assms(3,4) show ?thesis by (simp add: storable_def)
  qed (use st k' in \<open>simp_all del: from_constant.simps\<close>)
qed

lemma state_get_set: "state_get (state_set st x a) y = (if y = x then a else state_get st y)"
  by (simp add: state_get_def state_set_def unwrap_or_def)

end
