(* ===== verification/Interp_Correct.thy ===== *)
theory Interp_Correct
  imports Abstract_Interp Assignment Dominator_Tree
begin

text \<open>
  The abstract interpreter on programs of simple assignments: the states it computes describe every
  execution of the control flow graph, if it stopped before its bound and no merge joins a known with an
  unknown range.
\<close>

section \<open>Bounds\<close>

lemma wrap_ok: "in_i64 (wrap_i64 n)" and one_ok: "in_i64 0" "in_i64 1"
  by (simp_all add: i64_simps del: wrap_i64_def) (simp_all add: i64_simps)

lemma value_ok_from_constant:
  "(\<And>v. c = ConstInt v \<Longrightarrow> in_i64 v) \<Longrightarrow> value_ok (from_constant c)"
  by (cases c) (auto simp: value_ok_def bounds_ok_def Let_def one_ok)

lemma parse_simple_arithmetic_ok:
  assumes "parse_simple_arithmetic s = Some (y, op, c)"
  shows "in_i64 c"
proof -
  have "in_i64 c'" if "simple_arithmetic_with t o' = Some (y', op', c')" for t o' y' op' c'
    using that by (auto simp: simple_arithmetic_with_def Let_def dest: parse_i64_in_range split: option.splits if_splits)
  then have "in_i64 (snd (snd (y, op, c)))"
    using assms unfolding parse_simple_arithmetic_def
    by (elim first_some_ok [where P = "\<lambda>z. in_i64 (snd (snd z))"]) auto
  then show ?thesis by simp
qed

lemma value_ok_parse_rhs:
  assumes "state_ok st"
  shows "value_ok (parse_rhs_abstract line var st language)"
proof -
  have st: "value_ok (state_get st x)" for x using assms by (simp add: state_ok_def)
  have "value_ok (rhs_value rhs st language)" for rhs
  proof (cases "parse_i64 rhs")
    case (Some v)
    then show ?thesis by (simp add: rhs_value_def value_ok_def bounds_ok_def parse_i64_in_range av_top_def)
  next
    case None
    have u: "value_ok \<lparr>av_type = t, av_range = None, av_nullable = n, av_constant = k\<rparr>" for t n k
      by (simp add: value_ok_def bounds_ok_def)
    have k: "value_ok (from_constant (ConstFloat f))" "value_ok (from_constant (ConstString t))"
      "value_ok (from_constant (ConstBool b))" "value_ok (from_constant ConstNull)" for f t b
      by (rule value_ok_from_constant, simp)+
    have a: "value_ok (case parse_simple_arithmetic rhs of
        Some (y, op, c) \<Rightarrow> apply_arithmetic (state_get st y) op c | None \<Rightarrow> av_top)"
      using value_ok_apply_arithmetic [OF st] parse_simple_arithmetic_ok [of rhs] by (auto split: option.split)
    have if_ok: "value_ok (if p then x else y)" if "value_ok x" "value_ok y" for p x y
      using that by simp
    have case_ok: "value_ok (case z of None \<Rightarrow> x | Some w \<Rightarrow> f w)" if "value_ok x" "\<And>w. value_ok (f w)" for z x f
      using that by (cases z) simp_all
    have case_bool_ok: "value_ok (case z of None \<Rightarrow> x | Some (w :: bool) \<Rightarrow> f w)" if "value_ok x" "\<And>w. value_ok (f w)" for z x f
      using that by (cases z) simp_all
    show ?thesis
      unfolding rhs_value_def None option.case
      by (rule if_ok, rule value_ok_top, rule case_ok, rule if_ok, rule k, rule if_ok, rule k, rule if_ok,
          rule if_ok, rule u, rule k, rule case_bool_ok, rule if_ok, rule st, rule a, rule k, rule k)
  qed
  then show ?thesis by (simp add: parse_rhs_abstract_def split: option.split)
qed

lemma state_ok_set: "state_ok st \<Longrightarrow> value_ok a \<Longrightarrow> state_ok (state_set st x a)"
  by (simp add: state_ok_def state_get_set)

lemma state_ok_empty [simp]: "state_ok Map.empty"
  by (simp add: state_ok_def state_get_def unwrap_or_def)

lemma state_ok_transfer_definition: "state_ok st \<Longrightarrow> state_ok (transfer_definition lines language r st)"
  unfolding transfer_definition_def Let_def
  by (rule state_ok_set) (auto simp: value_ok_parse_rhs split: option.split)

lemma state_ok_transfer: "state_ok st \<Longrightarrow> state_ok (fold (transfer_definition lines language) rs st)"
  by (rule fold_invariant [where P = state_ok]) (auto intro: state_ok_transfer_definition)

lemma state_get_fun:
  "state_get (\<lambda>var. if P var then Some (f var) else None) x = (if P x then f x else av_top)"
  by (simp add: state_get_def unwrap_or_def)

lemma state_ok_join:
  assumes "\<forall>s \<in> set ss. state_ok s"
  shows "state_ok (join_states ss)"
proof (cases ss rule: join_states.cases)
  case (3 s t sts)
  have "value_ok (fold (\<lambda>u joined. join_values joined (state_get u x)) (t # sts) (state_get s x))" for x
    by (rule fold_invariant) (use assms 3 in \<open>auto simp: state_ok_def intro: value_ok_join\<close>)
  then show ?thesis using 3 by (simp add: state_ok_def state_get_def unwrap_or_def)
qed (use assms in auto)

lemma state_get_widen:
  "state_get (widen_state old new) x =
    (if old x = None \<and> new x = None then av_top else widen_value (state_get old x) (state_get new x))"
  by (subst state_get_def) (auto simp: widen_state_def unwrap_or_def)

lemma state_ok_widen: "state_ok new \<Longrightarrow> state_ok (widen_state old new)"
  by (simp add: state_ok_def state_get_widen value_ok_widen)

section \<open>Meaning of the operations on states\<close>

lemma constant_eq_as_constant: "constant_eq c d \<Longrightarrow> c = as_constant v \<longleftrightarrow> d = as_constant v"
  by (cases v; cases c; cases d) auto

lemma rel_constant_eq:
  "rel_option constant_eq c d \<Longrightarrow> c \<in> {None, Some (as_constant v)} \<longleftrightarrow> d \<in> {None, Some (as_constant v)}"
  by (cases c; cases d) (simp_all add: constant_eq_as_constant)

lemma value_eq_describes:
  assumes "value_eq a b"
  shows "describes a v = describes b v"
proof -
  from assms have "rel_option constant_eq (av_constant a) (av_constant b)" by (simp add: value_eq_def)
  from rel_constant_eq [OF this, of v] assms show ?thesis
    unfolding describes_def value_eq_def by (simp only:)
qed

lemma state_eq_store_in:
  assumes "state_eq s t"
  shows "store_in s \<sigma> = store_in t \<sigma>"
proof -
  have "describes (state_get s x) v = describes (state_get t x) v" for x v
  proof -
    have "rel_option value_eq (s x) (t x)" using assms by (simp add: state_eq_def)
    then show ?thesis
      by (cases "s x"; cases "t x") (auto simp: state_get_def unwrap_or_def value_eq_describes)
  qed
  then show ?thesis by (simp add: store_in_def)
qed

text \<open>No variable has a known range in one state and an unknown one in another.\<close>

definition compatible :: "abstract_state list \<Rightarrow> bool" where
  "compatible ss \<longleftrightarrow>
     (\<forall>x. \<forall>s \<in> set ss. \<forall>t \<in> set ss. av_range (state_get s x) = None \<longrightarrow> av_range (state_get t x) = None)"

lemma compatibleD:
  "compatible ss \<Longrightarrow> s \<in> set ss \<Longrightarrow> t \<in> set ss \<Longrightarrow>
    (av_range (state_get s x) = None) = (av_range (state_get t x) = None)"
  unfolding compatible_def by blast

lemma join_range_None: "join_range r s = None \<longleftrightarrow> r = None \<and> s = None"
  by (auto simp: join_range_def split: option.splits)

lemma fold_join_sound:
  assumes "\<forall>t \<in> set ts. (av_range t = None) = (av_range a = None)" and "describes a v \<or> (\<exists>t \<in> set ts. describes t v)"
  shows "describes (fold (\<lambda>t j. join_values j t) ts a) v"
  using assms
proof (induction ts arbitrary: a)
  case (Cons t ts)
  have "av_range (join_values a t) = None \<longleftrightarrow> av_range a = None"
    using Cons.prems(1) by (simp add: join_values_def join_range_None)
  moreover have "describes (join_values a t) v" if "describes a v \<or> describes t v"
    using join_values_sound [OF _ that] Cons.prems(1) by simp
  ultimately show ?case using Cons.prems Cons.IH [of "join_values a t"] by auto
qed simp

lemma store_in_join:
  assumes "compatible ss" and "s \<in> set ss" and "store_in s \<sigma>"
  shows "store_in (join_states ss) \<sigma>"
proof (cases ss rule: join_states.cases)
  case (3 u t sts)
  have "describes (state_get (join_states ss) x) (\<sigma> x)" for x
  proof (cases "list_ex (\<lambda>u. u x \<noteq> None) ss")
    case True
    let ?f = "\<lambda>s. state_get s x"
    have "describes (fold (\<lambda>t j. join_values j t) (map ?f (t # sts)) (?f u)) (\<sigma> x)"
    proof (rule fold_join_sound)
      show "\<forall>t \<in> set (map ?f (t # sts)). (av_range t = None) = (av_range (?f u) = None)"
      proof
        fix a assume "a \<in> set (map ?f (t # sts))"
        then obtain w where w: "w \<in> set ss" "a = state_get w x" unfolding 3 by auto
        have "u \<in> set ss" unfolding 3 by simp
        then show "(av_range a = None) = (av_range (?f u) = None)"
          unfolding w(2) by (rule compatibleD [OF assms(1) w(1)])
      qed
      show "describes (?f u) (\<sigma> x) \<or> (\<exists>t \<in> set (map ?f (t # sts)). describes t (\<sigma> x))"
        using assms(2) assms(3) [unfolded store_in_def, THEN spec, of x] unfolding 3 by auto
    qed
    moreover have "state_get (join_states ss) x = fold (\<lambda>t j. join_values j t) (map ?f (t # sts)) (?f u)"
      using True unfolding 3 join_states.simps state_get_fun if_P [OF True [unfolded 3]] by (simp add: fold_map comp_def)
    ultimately show ?thesis by simp
  next
    case False
    then have "state_get (join_states ss) x = av_top"
      unfolding 3 by (simp add: state_get_def unwrap_or_def)
    then show ?thesis by simp
  qed
  then show ?thesis by (simp add: store_in_def)
qed (use assms in auto)

lemma store_in_widen: "store_in new \<sigma> \<Longrightarrow> store_in (widen_state old new) \<sigma>"
  by (simp add: store_in_def state_get_widen widen_value_sound)

section \<open>Blocks\<close>

text \<open>Every definition is a simple assignment, written on its line.\<close>

definition simple_program :: "var_ref list \<Rightarrow> string list \<Rightarrow> (var_ref \<Rightarrow> rhs) \<Rightarrow> bool" where
  "simple_program refs lines assigned \<longleftrightarrow>
     (\<forall>r \<in> set refs. vr_ref_type r = RefDefinition \<longrightarrow>
        is_identifier (vr_name r) \<and> rhs_ok (assigned r) \<and> vr_line r - 1 < length lines \<and>
        lines ! (vr_line r - 1) = print_assignment (vr_name r) (assigned r))"

text \<open>Executing definitions in order; \<open>None\<close> where one fails.\<close>

fun run_defs :: "(var_ref \<Rightarrow> rhs) \<Rightarrow> var_ref list \<Rightarrow> store \<Rightarrow> store option" where
  "run_defs assigned [] \<sigma> = Some \<sigma>"
| "run_defs assigned (r # rs) \<sigma> =
     (case eval_rhs \<sigma> (assigned r) of None \<Rightarrow> None | Some v \<Rightarrow> run_defs assigned rs (\<sigma>(vr_name r := v)))"

lemma transfer_definition_simple:
  assumes "simple_program refs lines assigned" and "r \<in> set refs" and "vr_ref_type r = RefDefinition"
  shows "transfer_definition (Some lines) ''python'' r st = state_set st (vr_name r) (abstract_rhs st (assigned r))"
proof -
  have r: "is_identifier (vr_name r)" "rhs_ok (assigned r)" "vr_line r - 1 < length lines"
    "lines ! (vr_line r - 1) = print_assignment (vr_name r) (assigned r)"
    using assms by (simp_all add: simple_program_def)
  show ?thesis
    unfolding transfer_definition_def option.case Let_def r(4) parse_print_assignment [OF r(1,2)] using r(3) by simp
qed

lemma run_defs_sound:
  assumes "simple_program refs lines assigned" and "\<forall>r \<in> set rs. r \<in> set refs \<and> vr_ref_type r = RefDefinition"
    and "store_in st \<sigma>" and "state_ok st" and "run_defs assigned rs \<sigma> = Some \<sigma>'"
  shows "store_in (fold (transfer_definition (Some lines) ''python'') rs st) \<sigma>'"
  using assms(2-)
proof (induction rs arbitrary: st \<sigma>)
  case (Cons r rs)
  from Cons.prems(4) obtain v where v: "eval_rhs \<sigma> (assigned r) = Some v" "run_defs assigned rs (\<sigma>(vr_name r := v)) = Some \<sigma>'"
    by (auto split: option.splits)
  have t: "transfer_definition (Some lines) ''python'' r st = state_set st (vr_name r) (abstract_rhs st (assigned r))"
    using transfer_definition_simple [OF assms(1)] Cons.prems(1) by simp
  have ok: "rhs_ok (assigned r)" using assms(1) Cons.prems(1) by (simp add: simple_program_def)
  note s = abstract_rhs_sound [OF Cons.prems(2,3) ok v(1)]
  have "store_in (state_set st (vr_name r) (abstract_rhs st (assigned r))) (\<sigma>(vr_name r := v))"
    using Cons.prems(2) s(1) by (simp add: store_in_def state_get_set)
  moreover have "state_ok (state_set st (vr_name r) (abstract_rhs st (assigned r)))"
    by (rule state_ok_set) (use Cons.prems(3) s(2) in simp_all)
  ultimately have "store_in (fold (transfer_definition (Some lines) ''python'') rs
      (state_set st (vr_name r) (abstract_rhs st (assigned r)))) \<sigma>'"
    using Cons.prems(1) by (intro Cons.IH [OF _ _ _ v(2)]) (simp_all del: fun_upd_apply)
  then show ?case unfolding fold.simps comp_def t .
qed simp

lemma set_defs_in_block:
  "set (defs_in_block refs b) = {r \<in> set refs. vr_ref_type r = RefDefinition \<and> in_lines (vr_line r) b}"
  by (auto simp: defs_in_block_def)

section \<open>The solver\<close>

definition find_block :: "cfg_info \<Rightarrow> block_id \<Rightarrow> cfg_block option" where
  "find_block cfg b = find (\<lambda>blk. blk_id blk = b) (cfg_blocks cfg)"

lemma find_block_Some: "b \<in> blk_id ` set (cfg_blocks cfg) \<Longrightarrow> \<exists>blk. find_block cfg b = Some blk"
  by (cases "find_block cfg b") (auto simp: find_block_def find_None_iff)

lemma find_blockD: "find_block cfg b = Some blk \<Longrightarrow> blk \<in> set (cfg_blocks cfg) \<and> blk_id blk = b"
  by (auto simp: find_block_def find_Some_iff)

text \<open>The equations of a block hold, up to the equality of the code.\<close>

definition stable ::
  "cfg_info \<Rightarrow> block_id set \<Rightarrow> (cfg_block \<Rightarrow> abstract_state \<Rightarrow> abstract_state) \<Rightarrow> block_id \<Rightarrow> state_maps \<Rightarrow> bool" where
  "stable cfg loop_headers transfer b states \<longleftrightarrow>
     (\<forall>blk. b \<noteq> entry_block cfg \<longrightarrow> find_block cfg b = Some blk \<longrightarrow>
        (let new_in = interp_in (build_predecessors cfg) loop_headers b states
         in rel_option state_eq (fst states b) (Some new_in) \<and>
            rel_option state_eq (snd states b) (Some (transfer blk new_in))))"

lemma interp_block_unchanged:
  assumes "interp_block cfg hs transfer b (c, s) = (False, s')"
  shows "c = False" and "s' = s" and "stable cfg hs transfer b s"
  using assms
  by (cases s; force simp: interp_block_def stable_def find_block_def Let_def split: if_splits option.splits)+

lemma interp_blocks_unchanged:
  assumes "fold (interp_block cfg hs transfer) bs (c, s) = (False, s')"
  shows "c = False" and "s' = s" and "\<forall>b \<in> set bs. stable cfg hs transfer b s"
proof -
  have "c = False \<and> s' = s \<and> (\<forall>b \<in> set bs. stable cfg hs transfer b s)"
    using assms
  proof (induction bs arbitrary: c s)
    case (Cons b bs)
    obtain c1 s1 where 1: "interp_block cfg hs transfer b (c, s) = (c1, s1)" by (rule prod.exhaust)
    with Cons.prems have "fold (interp_block cfg hs transfer) bs (c1, s1) = (False, s')" by simp
    from Cons.IH [OF this] have *: "c1 = False" "s' = s1" "\<forall>b \<in> set bs. stable cfg hs transfer b s1" by simp_all
    from interp_block_unchanged [OF 1 [unfolded *(1)]] * show ?case by simp
  qed simp
  then show "c = False" "s' = s" "\<forall>b \<in> set bs. stable cfg hs transfer b s" by simp_all
qed

lemma interp_rounds_stable:
  assumes "interp_rounds n (fold (interp_block cfg hs transfer) bs) s = (False, s')"
  shows "\<forall>b \<in> set bs. stable cfg hs transfer b s'"
  using assms
proof (induction n arbitrary: s)
  case (Suc n)
  obtain c s1 where 1: "fold (interp_block cfg hs transfer) bs (False, s) = (c, s1)" by (rule prod.exhaust)
  show ?case
  proof (cases c)
    case True
    with Suc 1 show ?thesis by simp
  next
    case False
    with 1 interp_blocks_unchanged [of cfg hs transfer bs False s s1] Suc.prems show ?thesis by simp
  qed
qed simp

lemma interp_rounds_invariant:
  assumes "\<And>c s. P s \<Longrightarrow> P (snd (round (c, s)))" and "P s"
  shows "P (snd (interp_rounds n round s))"
  using assms(2)
proof (induction n arbitrary: s)
  case (Suc n)
  with assms(1) [of s False] show ?case by (auto split: prod.split)
qed simp

text \<open>What every round keeps: the entry, the blocks that have states, and the bounds.\<close>

definition interp_inv :: "cfg_info \<Rightarrow> abstract_state \<Rightarrow> abstract_state \<Rightarrow> state_maps \<Rightarrow> bool" where
  "interp_inv cfg init out states \<longleftrightarrow>
     fst states (entry_block cfg) = Some init \<and> snd states (entry_block cfg) = Some out \<and>
     blk_id ` set (cfg_blocks cfg) \<subseteq> dom (fst states) \<and> blk_id ` set (cfg_blocks cfg) \<subseteq> dom (snd states) \<and>
     (\<forall>st \<in> ran (fst states) \<union> ran (snd states). state_ok st)"

lemma ran_updD: "y \<in> ran (m(k \<mapsto> v)) \<Longrightarrow> y = v \<or> y \<in> ran m"
  by (auto simp: ran_def split: if_splits)

lemma state_ok_interp_in:
  assumes "\<forall>st \<in> ran (snd states). state_ok st"
  shows "state_ok (interp_in preds hs b states)"
proof -
  have "\<forall>st \<in> set (List.map_filter (snd states) ps). state_ok st" for ps
    using assms by (auto simp: map_filter_def ran_def)
  then have "state_ok (join_states (List.map_filter (snd states) ps))" for ps by (simp add: state_ok_join)
  then show ?thesis
    by (cases states) (auto simp: interp_in_def Let_def state_ok_widen split: option.split)
qed

lemma interp_inv_block:
  assumes inv: "interp_inv cfg init out s" and ok: "\<And>blk st. state_ok st \<Longrightarrow> state_ok (transfer blk st)"
  shows "interp_inv cfg init out (snd (interp_block cfg hs transfer b (c, s)))"
proof -
  obtain sin sout where s: "s = (sin, sout)" by force
  let ?new = "interp_in (build_predecessors cfg) hs b (sin, sout)"
  have new: "state_ok ?new" by (rule state_ok_interp_in) (use inv s in \<open>simp add: interp_inv_def\<close>)
  have upd: "interp_inv cfg init out (sin(b \<mapsto> ?new), sout(b \<mapsto> transfer blk ?new))" if "b \<noteq> entry_block cfg" for blk
    using inv that new ok [OF new] unfolding s interp_inv_def by (auto dest!: ran_updD)
  show ?thesis
    using inv upd unfolding interp_block_def s by (auto simp: Let_def split: option.split)
qed

lemma interp_inv_rounds:
  assumes "interp_inv cfg init out s" and "\<And>blk st. state_ok st \<Longrightarrow> state_ok (transfer blk st)"
  shows "interp_inv cfg init out (snd (interp_rounds n (fold (interp_block cfg hs transfer) bs) s))"
proof (rule interp_rounds_invariant)
  fix c s assume "interp_inv cfg init out s"
  moreover have "interp_inv cfg init out (snd (interp_block cfg hs transfer b cs))"
    if "interp_inv cfg init out (snd cs)" for b cs
    using interp_inv_block [OF that assms(2), where hs = hs and b = b and c = "fst cs"] by simp
  ultimately show "interp_inv cfg init out (snd (fold (interp_block cfg hs transfer) bs (c, s)))"
    by (intro fold_invariant [where P = "\<lambda>cs. interp_inv cfg init out (snd cs)"]) simp_all
qed (rule assms(1))

lemma init_params_top: "state_get (init_params cfg refs) x = av_top"
proof -
  have "\<forall>x. state_get (fold (\<lambda>r st. if P r then st(vr_name r \<mapsto> av_top) else st) rs st) x = av_top"
    if "\<forall>x. state_get st x = av_top" for P :: "var_ref \<Rightarrow> bool" and rs st
    using that by (induction rs arbitrary: st) (auto simp: state_get_def unwrap_or_def)
  then show ?thesis
    by (simp add: init_params_def state_get_def [of Map.empty] unwrap_or_def split: option.split)
qed

lemma interp_inv_init:
  assumes "\<And>blk st. state_ok st \<Longrightarrow> state_ok (transfer blk st)" and "state_ok init"
  shows "interp_inv cfg init (case find_block cfg (entry_block cfg) of Some b \<Rightarrow> transfer b init | None \<Rightarrow> init)
    (interp_init cfg transfer init)"
proof -
  define out where "out = (case find_block cfg (entry_block cfg) of Some b \<Rightarrow> transfer b init | None \<Rightarrow> init)"
  have out: "state_ok out" using assms by (simp add: out_def split: option.split)
  define add where "add = (\<lambda>b (sin :: block_id \<rightharpoonup> abstract_state, sout :: block_id \<rightharpoonup> abstract_state).
    if blk_id (b :: cfg_block) \<noteq> entry_block cfg then (sin(blk_id b \<mapsto> Map.empty), sout(blk_id b \<mapsto> Map.empty)) else (sin, sout))"
  define P where "P = (\<lambda>(bs :: cfg_block set) (s :: state_maps). fst s (entry_block cfg) = Some init \<and> snd s (entry_block cfg) = Some out \<and>
    blk_id ` bs \<subseteq> dom (fst s) \<and> blk_id ` bs \<subseteq> dom (snd s) \<and>
    (\<forall>st \<in> ran (fst s) \<union> ran (snd s). state_ok st))"
  have "P (B \<union> set bs) (fold add bs s)" if "P B s" for B s and bs :: "cfg_block list"
    using that
  proof (induction bs arbitrary: B s)
    case (Cons b bs)
    have "P (insert b B) (add b s)"
      using Cons.prems unfolding P_def add_def by (auto split: prod.split if_splits dest!: ran_updD)
    from Cons.IH [OF this] show ?case by simp
  qed simp
  moreover have "P {} ([entry_block cfg \<mapsto> init], [entry_block cfg \<mapsto> out])"
    using assms(2) out by (simp add: P_def)
  ultimately have "P ({} \<union> set (cfg_blocks cfg)) (fold add (cfg_blocks cfg) ([entry_block cfg \<mapsto> init], [entry_block cfg \<mapsto> out]))" by blast
  then show ?thesis
    by (simp add: interp_inv_def P_def interp_init_def Let_def add_def out_def find_block_def)
qed

section \<open>Executions\<close>

text \<open>An execution reaches a block with a store; every definition of a block it leaves succeeds.\<close>

inductive arrives :: "cfg_info \<Rightarrow> var_ref list \<Rightarrow> (var_ref \<Rightarrow> rhs) \<Rightarrow> block_id \<Rightarrow> store \<Rightarrow> bool"
  for cfg refs assigned where
  arrives_entry: "arrives cfg refs assigned (entry_block cfg) \<sigma>"
| arrives_step: "arrives cfg refs assigned b \<sigma> \<Longrightarrow> find_block cfg b = Some blk \<Longrightarrow>
    run_defs assigned (defs_in_block refs blk) \<sigma> = Some \<sigma>' \<Longrightarrow> (b, c) \<in> flow cfg \<Longrightarrow>
    arrives cfg refs assigned c \<sigma>'"

lemma arrives_reachable: "arrives cfg refs assigned b \<sigma> \<Longrightarrow> (entry_block cfg, b) \<in> (flow cfg)\<^sup>*"
  by (induction rule: arrives.induct) (auto intro: rtrancl_into_rtrancl)

definition merges_known :: "cfg_info \<Rightarrow> (block_id \<rightharpoonup> abstract_state) \<Rightarrow> bool" where
  "merges_known cfg state_out \<longleftrightarrow>
     (\<forall>b. compatible (List.map_filter state_out (get_list (build_predecessors cfg) b)))"

lemma store_in_interp_in:
  assumes "compatible (List.map_filter sout (get_list preds b))" and "p \<in> set (get_list preds b)"
    and "sout p = Some st" and "store_in st \<sigma>"
  shows "store_in (interp_in preds hs b (sin, sout)) \<sigma>"
proof -
  have "st \<in> set (List.map_filter sout (get_list preds b))"
    using assms(2,3) by (force simp: map_filter_def)
  from store_in_join [OF assms(1) this assms(4)]
  show ?thesis by (auto simp: interp_in_def Let_def store_in_widen split: option.split)
qed

text \<open>The parts of a stable result.\<close>

lemma interp_states_stable:
  assumes "cfg_blocks cfg \<noteq> []" and "interp_states cfg hs refs lines language = (False, sin, sout)"
    and "transfer = (\<lambda>b st. transfer_block st b refs lines language)"
  shows "\<forall>b \<in> (flow cfg)\<^sup>* `` {entry_block cfg}. stable cfg hs transfer b (sin, sout)"
    and "interp_inv cfg (init_params cfg refs) (case find_block cfg (entry_block cfg) of
      Some b \<Rightarrow> transfer b (init_params cfg refs) | None \<Rightarrow> init_params cfg refs) (sin, sout)"
proof -
  let ?s = "interp_init cfg transfer (init_params cfg refs)"
  let ?n = "length (cfg_blocks cfg) * 10 + 100"
  have rounds: "interp_rounds ?n (fold (interp_block cfg hs transfer) (reverse_postorder cfg)) ?s = (False, sin, sout)"
    using assms(2) unfolding interp_states_def Let_def assms(3) .
  from interp_rounds_stable [OF this] reverse_postorder_props(2) [OF assms(1)]
  show "\<forall>b \<in> (flow cfg)\<^sup>* `` {entry_block cfg}. stable cfg hs transfer b (sin, sout)" by simp
  have ok: "state_ok (transfer blk st)" if "state_ok st" for blk st
    using that by (simp add: assms(3) transfer_block_def state_ok_transfer)
  have "state_ok (init_params cfg refs)" by (simp add: state_ok_def init_params_top)
  note init = interp_inv_init [where transfer = transfer and cfg = cfg, OF ok this, simplified]
  have "interp_inv cfg (init_params cfg refs) (case find_block cfg (entry_block cfg) of
      Some b \<Rightarrow> transfer b (init_params cfg refs) | None \<Rightarrow> init_params cfg refs)
    (snd (interp_rounds ?n (fold (interp_block cfg hs transfer) (reverse_postorder cfg)) ?s))"
    by (rule interp_inv_rounds [OF init]) (rule ok)
  then show "interp_inv cfg (init_params cfg refs) (case find_block cfg (entry_block cfg) of
      Some b \<Rightarrow> transfer b (init_params cfg refs) | None \<Rightarrow> init_params cfg refs) (sin, sout)"
    unfolding rounds by simp
qed

lemma run_block_sound:
  assumes "simple_program refs lines assigned" and "store_in st \<sigma>" and "state_ok st"
    and "run_defs assigned (defs_in_block refs blk) \<sigma> = Some \<sigma>'"
  shows "store_in (transfer_block st blk refs (Some lines) ''python'') \<sigma>'"
  unfolding transfer_block_def
  by (rule run_defs_sound [OF assms(1) _ assms(2-)]) (simp add: set_defs_in_block)

theorem interp_describes:
  assumes "cfg_blocks cfg \<noteq> []" and states: "interp_states cfg hs refs (Some lines) ''python'' = (False, sin, sout)"
    and prog: "simple_program refs lines assigned" and merges: "merges_known cfg sout"
    and "arrives cfg refs assigned b \<sigma>" and "find_block cfg b = Some blk"
  shows "\<exists>st. sin b = Some st \<and> store_in st \<sigma> \<and> state_ok st"
proof -
  define transfer where "transfer = (\<lambda>b st. transfer_block st b refs (Some lines) ''python'')"
  note stable = interp_states_stable(1) [OF assms(1) states transfer_def]
  note inv = interp_states_stable(2) [OF assms(1) states transfer_def]
  have ok: "state_ok st" if "sin b = Some st" for b st
    using inv that by (auto simp: interp_inv_def ran_def)
  have out: "\<exists>st. sout b = Some st \<and> store_in st \<sigma>'"
    if a: "arrives cfg refs assigned b \<sigma>" and blk: "find_block cfg b = Some blk"
      and st: "sin b = Some st" "store_in st \<sigma>" and run: "run_defs assigned (defs_in_block refs blk) \<sigma> = Some \<sigma>'"
    for b \<sigma> blk st \<sigma>'
  proof -
    have t: "store_in (transfer blk st) \<sigma>'"
      unfolding transfer_def by (rule run_block_sound [OF prog st(2) ok [OF st(1)] run])
    show ?thesis
    proof (cases "b = entry_block cfg")
      case True
      then have "sout b = Some (transfer blk st)"
        using inv st(1) blk by (simp add: interp_inv_def)
      with t show ?thesis by simp
    next
      case False
      let ?new = "interp_in (build_predecessors cfg) hs b (sin, sout)"
      have "stable cfg hs transfer b (sin, sout)" using stable arrives_reachable [OF a] by simp
      then have eq: "state_eq st ?new" "rel_option state_eq (sout b) (Some (transfer blk ?new))"
        using False blk st(1) by (simp_all add: stable_def Let_def)
      have "store_in ?new \<sigma>" using st(2) state_eq_store_in [OF eq(1)] by simp
      moreover have "state_ok ?new"
        by (rule state_ok_interp_in) (use inv in \<open>simp add: interp_inv_def\<close>)
      ultimately have "store_in (transfer blk ?new) \<sigma>'"
        unfolding transfer_def using run_block_sound [OF prog _ _ run] by simp
      then show ?thesis using eq(2) state_eq_store_in by (cases "sout b") auto
    qed
  qed
  have "\<exists>st. sin b = Some st \<and> store_in st \<sigma>" if "arrives cfg refs assigned b \<sigma>" "find_block cfg b = Some blk" for b \<sigma> blk
    using that
  proof (induction arbitrary: blk rule: arrives.induct)
    case (arrives_entry \<sigma>)
    have "store_in (init_params cfg refs) \<sigma>" by (simp add: store_in_def init_params_top)
    then show ?case using inv by (simp add: interp_inv_def)
  next
    case (arrives_step b \<sigma> blk1 \<sigma>' c)
    from arrives_step.IH [OF arrives_step.hyps(2)] obtain st where "sin b = Some st" "store_in st \<sigma>" by blast
    from out [OF arrives_step.hyps(1,2) this arrives_step.hyps(3)] obtain o1 where o1: "sout b = Some o1" "store_in o1 \<sigma>'" by blast
    show ?case
    proof (cases "c = entry_block cfg")
      case True
      have "store_in (init_params cfg refs) \<sigma>'" by (simp add: store_in_def init_params_top)
      then show ?thesis using inv True by (simp add: interp_inv_def)
    next
      case False
      let ?new = "interp_in (build_predecessors cfg) hs c (sin, sout)"
      have p: "b \<in> set (get_list (build_predecessors cfg) c)"
        using arrives_step.hyps(4) by (force simp: build_predecessors_eq flow_def)
      have "compatible (List.map_filter sout (get_list (build_predecessors cfg) c))"
        using merges by (simp add: merges_known_def)
      from store_in_interp_in [where sout = sout and preds = "build_predecessors cfg" and b = c, OF this p o1]
      have new: "store_in ?new \<sigma>'" .
      have "(entry_block cfg, c) \<in> (flow cfg)\<^sup>*"
        using arrives_reachable [OF arrives_step.hyps(1)] arrives_step.hyps(4) by (rule rtrancl_into_rtrancl)
      then have "stable cfg hs transfer c (sin, sout)" using stable by simp
      then have "rel_option state_eq (sin c) (Some ?new)"
        using False arrives_step.prems by (simp add: stable_def Let_def)
      with new show ?thesis using state_eq_store_in by (cases "sin c") auto
    qed
  qed
  with assms(5,6) ok show ?thesis by blast
qed

section \<open>Warnings\<close>

lemma set_warn_if:
  "p \<in> set (warn_if bad st line var) \<longleftrightarrow> p = (line, var) \<and> (\<exists>s. st = Some s \<and> bad (state_get s var))"
  by (auto simp: warn_if_def split: option.splits)

lemma in_enumerate: "(i, x) \<in> set (enumerate 0 xs) \<longleftrightarrow> i < length xs \<and> x = xs ! i"
  by (auto simp: in_set_enumerate_eq)

lemma in_find_div_zero:
  "(n, v) \<in> set (find_div_zero cfg refs sin (Some lines) language) \<longleftrightarrow>
    0 < n \<and> n \<le> length lines \<and>
    (\<exists>op \<in> set (div_patterns language). v \<in> set (divisors (division_code (lines ! (n - 1)) language) op 0)) \<and>
    (\<exists>st. state_at_line cfg refs sin (Some lines) language n = Some st \<and> may_be_zero (state_get st v))"
proof -
  have "(n, v) \<in> set (find_div_zero cfg refs sin (Some lines) language) \<longleftrightarrow>
    (\<exists>i < length lines. \<exists>op \<in> set (div_patterns language). \<exists>w \<in> set (divisors (division_code (lines ! i) language) op 0).
      (n, v) = (i + 1, w) \<and> (\<exists>st. state_at_line cfg refs sin (Some lines) language (i + 1) = Some st \<and> may_be_zero (state_get st w)))"
    unfolding find_div_zero_def option.case remdups_adj_set set_sort set_concat set_map image_image
    by (force simp: in_enumerate set_warn_if)
  also have "\<dots> \<longleftrightarrow> 0 < n \<and> n \<le> length lines \<and>
    (\<exists>op \<in> set (div_patterns language). v \<in> set (divisors (division_code (lines ! (n - 1)) language) op 0)) \<and>
    (\<exists>st. state_at_line cfg refs sin (Some lines) language n = Some st \<and> may_be_zero (state_get st v))"
    by (cases n) auto
  finally show ?thesis .
qed

lemma in_find_null_deref:
  "(n, v) \<in> set (find_null_deref cfg refs sin (Some lines) language) \<longleftrightarrow>
    0 < n \<and> n \<le> length lines \<and> is_identifier v \<and>
    v \<in> set (extract_deref_patterns (strip_comment (lines ! (n - 1)) language)) \<and>
    (\<exists>st. state_at_line cfg refs sin (Some lines) language n = Some st \<and> may_be_null (state_get st v))"
proof -
  have "(n, v) \<in> set (find_null_deref cfg refs sin (Some lines) language) \<longleftrightarrow>
    (\<exists>i < length lines. \<exists>w \<in> set (filter is_identifier (extract_deref_patterns (strip_comment (lines ! i) language))).
      (n, v) = (i + 1, w) \<and> (\<exists>st. state_at_line cfg refs sin (Some lines) language (i + 1) = Some st \<and> may_be_null (state_get st w)))"
    unfolding find_null_deref_def option.case remdups_adj_set set_sort set_concat set_map image_image
    by (force simp: in_enumerate set_warn_if)
  also have "\<dots> \<longleftrightarrow> 0 < n \<and> n \<le> length lines \<and> is_identifier v \<and>
    v \<in> set (extract_deref_patterns (strip_comment (lines ! (n - 1)) language)) \<and>
    (\<exists>st. state_at_line cfg refs sin (Some lines) language n = Some st \<and> may_be_null (state_get st v))"
    by (cases n) auto
  finally show ?thesis .
qed

text \<open>An execution that reaches a line: the first block that holds it, and its definitions before it.\<close>

definition defs_before :: "var_ref list \<Rightarrow> cfg_block \<Rightarrow> nat \<Rightarrow> var_ref list" where
  "defs_before refs blk n =
     sort_key (\<lambda>r. (vr_line r, vr_column r))
       (filter (\<lambda>r. vr_ref_type r = RefDefinition \<and> in_lines (vr_line r) blk \<and> vr_line r < n) refs)"

definition reaches_line :: "cfg_info \<Rightarrow> var_ref list \<Rightarrow> (var_ref \<Rightarrow> rhs) \<Rightarrow> nat \<Rightarrow> store \<Rightarrow> bool" where
  "reaches_line cfg refs assigned n \<sigma> \<longleftrightarrow>
     (\<exists>blk \<sigma>0. find (in_lines (n mod 2 ^ 32)) (cfg_blocks cfg) = Some blk \<and> find_block cfg (blk_id blk) = Some blk \<and>
        arrives cfg refs assigned (blk_id blk) \<sigma>0 \<and> run_defs assigned (defs_before refs blk n) \<sigma>0 = Some \<sigma>)"

lemma state_at_line_sound:
  assumes "cfg_blocks cfg \<noteq> []" and "interp_states cfg hs refs (Some lines) ''python'' = (False, sin, sout)"
    and prog: "simple_program refs lines assigned" and "merges_known cfg sout" and "reaches_line cfg refs assigned n \<sigma>"
  shows "\<exists>st. state_at_line cfg refs sin (Some lines) ''python'' n = Some st \<and> store_in st \<sigma>"
proof -
  from assms(5) obtain blk \<sigma>0 where l: "find (in_lines (n mod 2 ^ 32)) (cfg_blocks cfg) = Some blk"
    and b: "find_block cfg (blk_id blk) = Some blk" and a: "arrives cfg refs assigned (blk_id blk) \<sigma>0"
    and r: "run_defs assigned (defs_before refs blk n) \<sigma>0 = Some \<sigma>" unfolding reaches_line_def by blast
  from interp_describes [OF assms(1-4) a b] obtain st where st: "sin (blk_id blk) = Some st" "store_in st \<sigma>0" "state_ok st"
    by blast
  have "store_in (fold (transfer_definition (Some lines) ''python'') (defs_before refs blk n) st) \<sigma>"
    by (rule run_defs_sound [OF prog _ st(2,3) r]) (simp add: defs_before_def)
  then show ?thesis
    unfolding state_at_line_def l by (simp add: st(1) unwrap_or_def compute_state_at_line_def defs_before_def)
qed

lemma describes_zero: "describes a (VInt 0) \<Longrightarrow> may_be_zero a"
  using not_may_be_zero [of a 0] by (auto simp: i64_simps)

lemma describes_null: "describes a VNull \<Longrightarrow> may_be_null a"
  using not_may_be_null [of a VNull] by auto

end
