(* ===== verification/Interp_Properties.thy ===== *)
theory Interp_Properties
  imports Interp_Correct
begin

text \<open>
  The properties of the abstract interpreter and of the guard conditions, with sample programs on which
  their hypotheses hold.
\<close>

section \<open>Sample programs\<close>

definition sample_def :: "string \<Rightarrow> nat \<Rightarrow> ref_type \<Rightarrow> var_ref" where
  "sample_def x line kind = \<lparr>vr_name = x, vr_ref_type = kind, vr_line = line, vr_column = 0, vr_context = None, vr_group_id = None\<rparr>"





section \<open>Soundness of the analysis\<close>


definition zero_refs :: "var_ref list" where
  "zero_refs = [sample_def ''x'' 1 RefDefinition]"






text \<open>
  C6: If the solver stopped before its bound, its states satisfy the equations of the analysis, up to the
  equality of the code: the entry has unknown parameters, every other reachable block the join over its
  predecessors, widened at a loop header, and every block the result of its transfer function.
\<close>

theorem interp_equations:
  assumes "cfg_blocks cfg \<noteq> []" and "interp_states cfg hs refs lines language = (False, sin, sout)"
  shows "(\<forall>blk. find_block cfg (entry_block cfg) = Some blk \<longrightarrow>
      sin (entry_block cfg) = Some (init_params cfg refs) \<and>
      sout (entry_block cfg) = Some (transfer_block (init_params cfg refs) blk refs lines language)) \<and>
    (\<forall>b blk. (entry_block cfg, b) \<in> (flow cfg)\<^sup>* \<longrightarrow> b \<noteq> entry_block cfg \<longrightarrow> find_block cfg b = Some blk \<longrightarrow>
      (\<exists>i out. sin b = Some i \<and> sout b = Some out \<and>
        (let new_in = interp_in (build_predecessors cfg) hs b (sin, sout)
         in state_eq i new_in \<and> state_eq out (transfer_block new_in blk refs lines language))))"
proof -
  define transfer where "transfer = (\<lambda>b st. transfer_block st b refs lines language)"
  note stable = interp_states_stable(1) [OF assms transfer_def]
  note inv = interp_states_stable(2) [OF assms transfer_def]
  show ?thesis
  proof (intro conjI allI impI)
    fix blk assume "find_block cfg (entry_block cfg) = Some blk"
    with inv show "sin (entry_block cfg) = Some (init_params cfg refs)"
      "sout (entry_block cfg) = Some (transfer_block (init_params cfg refs) blk refs lines language)"
      by (simp_all add: interp_inv_def transfer_def)
  next
    fix b blk assume b: "(entry_block cfg, b) \<in> (flow cfg)\<^sup>*" "b \<noteq> entry_block cfg" "find_block cfg b = Some blk"
    then have "stable cfg hs transfer b (sin, sout)" using stable by simp
    with b(2,3) have "rel_option state_eq (sin b) (Some (interp_in (build_predecessors cfg) hs b (sin, sout)))"
      "rel_option state_eq (sout b) (Some (transfer blk (interp_in (build_predecessors cfg) hs b (sin, sout))))"
      by (simp_all add: stable_def Let_def)
    then show "\<exists>i out. sin b = Some i \<and> sout b = Some out \<and>
        (let new_in = interp_in (build_predecessors cfg) hs b (sin, sout)
         in state_eq i new_in \<and> state_eq out (transfer_block new_in blk refs lines language))"
      by (cases "sin b"; cases "sout b") (simp_all add: Let_def transfer_def)
  qed
qed

text \<open>Two blocks in a row.\<close>

definition two_blocks :: cfg_info where
  "two_blocks = \<lparr>cfg_function = ''f'',
     cfg_blocks = [\<lparr>blk_id = 0, blk_type = Entry, blk_lines = (1, 1), blk_calls = []\<rparr>,
       \<lparr>blk_id = 1, blk_type = Exit, blk_lines = (2, 2), blk_calls = []\<rparr>],
     cfg_edges = [\<lparr>edge_from = 0, edge_to = 1, edge_kind = Unconditional, edge_condition = None\<rparr>],
     entry_block = 0, exit_blocks = [1], cyclomatic_complexity = 1\<rparr>"

lemma two_blocks_reach: "(flow two_blocks)\<^sup>* `` {0} = {0, 1}"
proof -
  have f: "flow two_blocks = {(0, 1)}" by (simp add: flow_def two_blocks_def)
  have "(flow two_blocks)\<^sup>* `` {0} \<subseteq> {0, 1}"
  proof
    fix b assume "b \<in> (flow two_blocks)\<^sup>* `` {0}"
    then have "(0, b) \<in> (flow two_blocks)\<^sup>*" by simp
    then show "b \<in> {0, 1}" by (induction) (auto simp: f)
  qed
  moreover have "(0, 1) \<in> (flow two_blocks)\<^sup>*" by (rule r_into_rtrancl) (simp add: f)
  ultimately show ?thesis by auto
qed

lemma two_blocks_order: "reverse_postorder two_blocks = [0, 1]"
proof -
  let ?o = "reverse_postorder two_blocks"
  have ne: "cfg_blocks two_blocks \<noteq> []" and e: "entry_block two_blocks = 0" by (simp_all add: two_blocks_def)
  have o: "distinct ?o" "set ?o = {0, 1}" "hd ?o = 0"
    using reverse_postorder_props [OF ne] two_blocks_reach by (simp_all add: e)
  have "length ?o = 2" using distinct_card [OF o(1)] o(2) by simp
  then obtain a b where ab: "?o = [a, b]" by (auto simp: length_Suc_conv numeral_2_eq_2)
  have "a = 0" using o(3) by (simp add: ab)
  moreover have "b \<noteq> a" using o(1) by (simp add: ab)
  moreover have "b \<in> {0, 1}" unfolding o(2) [symmetric] by (simp add: ab)
  ultimately show ?thesis by (simp add: ab)
qed

lemma value_eq_refl [simp]: "value_eq a a"
proof -
  have "constant_eq c c" for c by (cases c) (auto simp: f64_eq_def)
  then show ?thesis by (cases "av_constant a") (simp_all add: value_eq_def)
qed

lemma state_eq_refl [simp]: "state_eq st st"
  by (simp add: state_eq_def) (metis option.exhaust option.rel_intros value_eq_refl)

lemma interp_rounds_once:
  assumes "round (False, s) = (True, s')" and "round (False, s') = (False, s')" and "2 \<le> n"
  shows "interp_rounds n round s = (False, s')"
  using assms by (cases n; cases "n - 1") auto

text \<open>The first line sets a variable; the second block takes its value over.\<close>

definition two_lines :: "string list option" where
  "two_lines = Some [''x = 0'', ''print(7 / x)'']"

theorem interp_equations_witness:
  "\<exists>sin sout i. interp_states two_blocks {} zero_refs two_lines ''python'' = (False, sin, sout) \<and>
     sin 1 = Some i \<and> state_eq i (interp_in (build_predecessors two_blocks) {} 1 (sin, sout))"
proof -
  define t where "t = (\<lambda>b st. transfer_block st b zero_refs two_lines ''python'')"
  define b0 b1 where "b0 = hd (cfg_blocks two_blocks)" and "b1 = last (cfg_blocks two_blocks)"
  define st0 where "st0 = t b0 (init_params two_blocks zero_refs)"
  define s0 where "s0 = interp_init two_blocks t (init_params two_blocks zero_refs)"
  define s1 where "s1 = ((fst s0)(1 \<mapsto> st0), (snd s0)(1 \<mapsto> t b1 st0))"
  let ?round = "fold (interp_block two_blocks {} t) (reverse_postorder two_blocks)"
  have s0: "fst s0 0 = Some (init_params two_blocks zero_refs)" "snd s0 0 = Some st0" "fst s0 1 = Some Map.empty"
    by (simp_all add: s0_def interp_init_def two_blocks_def st0_def b0_def t_def)
  have preds: "get_list (build_predecessors two_blocks) 1 = [0]"
    by (simp add: build_predecessors_eq two_blocks_def)
  have e: "entry_block two_blocks = 0" "find (\<lambda>b. blk_id b = 1) (cfg_blocks two_blocks) = Some b1"
    by (simp_all add: two_blocks_def b1_def)
  have new: "interp_in (build_predecessors two_blocks) {} 1 s = st0" if "snd s 0 = Some st0" for s
    using that preds by (cases s) (simp add: interp_in_def map_filter_def)
  have "\<not> state_eq Map.empty st0"
  proof -
    have "st0 ''x'' \<noteq> None"
      by (simp add: st0_def t_def transfer_block_def b0_def two_blocks_def defs_in_block_def zero_refs_def sample_def_def
          in_lines_def transfer_definition_def state_set_def Let_def)
    then show ?thesis by (auto simp: state_eq_def)
  qed
  then have 1: "?round (False, s0) = (True, s1)"
    using new [OF s0(2)] s0(3) unfolding two_blocks_order
    by (cases s0) (simp add: interp_block_def e s1_def del: One_nat_def)
  have 2: "?round (False, s1) = (False, s1)"
  proof -
    have "snd s1 0 = Some st0" using s0(2) by (simp add: s1_def)
    from new [OF this] show ?thesis unfolding two_blocks_order by (simp add: interp_block_def e s1_def del: One_nat_def)
  qed
  have "2 \<le> length (cfg_blocks two_blocks) * 10 + 100" by simp
  from interp_rounds_once [OF 1 2 this]
  have r: "interp_states two_blocks {} zero_refs two_lines ''python'' = (False, fst s1, snd s1)"
    unfolding interp_states_def Let_def t_def [symmetric] s0_def by simp
  have "(entry_block two_blocks, 1) \<in> (flow two_blocks)\<^sup>*" using two_blocks_reach e(1) by auto
  moreover have "1 \<noteq> entry_block two_blocks" by (simp add: e)
  moreover have "find_block two_blocks 1 = Some b1" by (simp add: find_block_def e del: One_nat_def)
  moreover have "cfg_blocks two_blocks \<noteq> []" by (simp add: two_blocks_def)
  ultimately have "\<exists>i out. fst s1 1 = Some i \<and> snd s1 1 = Some out \<and>
      (let new_in = interp_in (build_predecessors two_blocks) {} 1 (fst s1, snd s1)
       in state_eq i new_in \<and> state_eq out (transfer_block new_in b1 zero_refs two_lines ''python''))"
    using interp_equations [OF _ r] by blast
  then show ?thesis using r unfolding Let_def by blast
qed

section \<open>What the text scanners miss\<close>






text \<open>
  C34: The join of a state that knows nothing of a variable with one that bounds its range keeps the bound:
  the unknown value, which may be zero, is lost.
\<close>

theorem join_loses_unknown:
  assumes "st1 x = None" and "st2 x = Some a" and "av_range a = Some (Some l, h)" and "0 < l"
  shows "describes (state_get st1 x) (VInt 0) \<and> \<not> describes (state_get (join_states [st1, st2]) x) (VInt 0) \<and>
    \<not> may_be_zero (state_get (join_states [st1, st2]) x)"
proof -
  have 1: "state_get st1 x = av_top" using assms(1) by (simp add: state_get_def unwrap_or_def)
  have 2: "state_get (join_states [st1, st2]) x = join_values av_top a"
    using assms(1,2) by (simp add: state_get_def unwrap_or_def)
  have r: "av_range (join_values av_top a) = Some (Some l, h)"
    using join_values_unknown(1) [of av_top a] assms(3) by (simp add: av_top_def)
  have "\<not> describes (join_values av_top a) (VInt 0)"
    using assms(4) by (simp add: describes_def r in_interval_def)
  moreover have "\<not> may_be_zero (join_values av_top a)"
    using assms(4) by (simp add: may_be_zero_def r unwrap_or_def)
  ultimately show ?thesis unfolding 1 2 by simp
qed

theorem join_loses_unknown_witness:
  "\<not> may_be_zero (state_get (join_states [Map.empty, [''x'' \<mapsto> from_constant (ConstInt 5)]]) ''x'')"
  using join_loses_unknown [of Map.empty "''x''" "[''x'' \<mapsto> from_constant (ConstInt 5)]"] by simp

section \<open>Arithmetic\<close>



text \<open>
  C38: The length of a string and the number of a boolean take part in arithmetic as if they were its
  value: the result is an integer constant of type string or boolean, which describes no value at all.
\<close>

theorem arithmetic_mistypes:
  assumes "measured v = Some m" and "\<nexists>i. v = VInt i" and "in_i64 m" and "in_i64 c" and "in_i64 (m + c)"
  shows "av_constant (apply_arithmetic (from_constant (as_constant v)) CHR ''+'' c) = Some (ConstInt (m + c)) \<and>
    (\<nexists>w. describes (apply_arithmetic (from_constant (as_constant v)) CHR ''+'' c) w)"
  using arithmetic_mistyped [OF assms] by blast

theorem arithmetic_mistypes_witness:
  "av_constant (apply_arithmetic (from_constant (ConstString ''abc'')) CHR ''+'' 1) = Some (ConstInt 4)"
  using arithmetic_mistypes [of "VString ''abc''" 3 1] by (simp add: i64_simps)



section \<open>Reading assignments\<close>


text \<open>
  C33: The abstract value of a line \<open>x = e\<close> of Python, for a number, a boolean, \<open>None\<close>, a variable or a
  variable combined with a number, is that of \<open>e\<close>.
\<close>

theorem assignment_roundtrip:
  assumes "is_identifier x" and "rhs_ok e"
  shows "parse_rhs_abstract (print_assignment x e) x st ''python'' = abstract_rhs st e"
  by (rule parse_print_assignment [OF assms])

theorem assignment_roundtrip_witness:
  "parse_rhs_abstract (print_assignment ''y'' (RhsArith ''x'' CHR ''*'' (- 3))) ''y'' [''x'' \<mapsto> from_constant (ConstInt 2)] ''python'' =
     from_constant (ConstInt (- 6))"
  using assignment_roundtrip [of "''y''" "RhsArith ''x'' CHR ''*'' (- 3)" "[''x'' \<mapsto> from_constant (ConstInt 2)]"]
  by (simp add: is_variable_def is_identifier_def is_alphabetic_def is_lower_def char_code_def arithmetic_ops_def i64_simps
      state_get_def unwrap_or_def apply_arithmetic_def arithmetic_range_def compute_mul_def is_constant_def Let_def)

text \<open>
  C36: Two string literals joined by an operator are read as one literal with the quotes and the operator
  in it, and a literal in triple quotes keeps two of the quotes on each side.
\<close>

theorem string_literals_misread:
  "let q = double_quote; a = rhs_value ([q] @ s @ [q] @ '' + '' @ [q] @ t @ [q]) st language;
       b = rhs_value ([q, q, q] @ s @ [q, q, q]) st language
   in a = from_constant (ConstString (s @ [q] @ '' + '' @ [q] @ t)) \<and> \<not> describes a (VString (s @ t)) \<and>
      b = from_constant (ConstString ([q, q] @ s @ [q, q])) \<and> \<not> describes b (VString s)"
proof -
  let ?q = double_quote
  have 1: "rhs_value ([?q] @ s @ [?q] @ '' + '' @ [?q] @ t @ [?q]) st language =
      from_constant (ConstString (s @ [?q] @ '' + '' @ [?q] @ t))"
    using rhs_value_quoted [of ?q "s @ [?q] @ '' + '' @ [?q] @ t" st language] by simp
  have 2: "rhs_value ([?q, ?q, ?q] @ s @ [?q, ?q, ?q]) st language = from_constant (ConstString ([?q, ?q] @ s @ [?q, ?q]))"
    using rhs_value_quoted [of ?q "[?q, ?q] @ s @ [?q, ?q]" st language] by simp
  have d: "\<not> describes (from_constant (ConstString u)) (VString w)" if "length u \<noteq> length w" for u w
    using that by (auto simp: describes_def Let_def)
  show ?thesis unfolding Let_def 1 2 by (intro conjI refl d) simp_all
qed

section \<open>Guards\<close>

text \<open>
  C32: A condition printed in the notation of Python is read back, unless its variable is called \<open>not\<close>.
\<close>

theorem guard_roundtrip:
  assumes "guard_ok g" and "guard_variable g \<noteq> ''not''"
  shows "parse_guard_condition (print_guard g) = Some g"
  by (rule parse_print_guard [OF assms])

theorem guard_roundtrip_witness: "parse_guard_condition (print_guard (GuardLe ''x'' (- 7))) = Some (GuardLe ''x'' (- 7))"
  using guard_roundtrip [of "GuardLe ''x'' (- 7)"]
  by (simp add: guard_ok_def is_identifier_def is_alphabetic_def is_lower_def char_code_def i64_simps)



text \<open>
  C37: Narrowing takes the range of a string, its length, for its value: on the branch where the string is
  found to differ from the number of its characters, which every string does, no value is left.
\<close>

theorem narrow_removes_string:
  assumes "in_i64 (int (length s))"
  shows "describes (from_constant (ConstString s)) (VString s) \<and>
    narrow_value (from_constant (ConstString s)) (GuardNeq x (int (length s))) True = av_bottom \<and>
    (\<nexists>v. describes av_bottom v)"
  using narrow_string [OF assms] describes_constant [of "VString s"] assms by (simp add: storable_def)

theorem narrow_removes_string_witness:
  "narrow_value (from_constant (ConstString ''ab'')) (GuardNeq ''x'' 2) True = av_bottom"
  using narrow_removes_string [of "''ab''" "''x''"] by (simp add: i64_simps)

end
