(* ===== verification/Spec2Isabelle.thy ===== *)
theory Spec2Isabelle
  imports Octagon_Properties Flow_Properties Alias_Properties Dataflow_Properties Chains_Properties
    Call_Graph_Properties Interp_Properties
begin

text \<open>
  A model of the analysis core of tldr-code, the crate \<open>crates/tldr-core\<close>: the octagon domain, the
  control flow graph helpers, dominators and dominance frontiers, the alias solver, program slices,
  reaching definitions, the abstract interpreter and the analyses of the call graph. All paths below are under \<open>src/crates/tldr-core/src\<close>.

  \<^bold>\<open>The program.\<close> tldr-core extracts syntax trees with tree-sitter, builds for every function a control
  flow graph (\<open>CfgInfo\<close>), the list of its variable references (\<open>VarRef\<close>) and a program dependence graph
  (\<open>PdgInfo\<close>), and runs analyses on them. The dominator tree of the graph places the phi functions of the
  SSA form; the constraints of the SSA form feed the alias solver; reaching definitions and slices read
  the control flow graph and the dependence graph; the octagon domain tracks \<open>\<plusminus>x \<plusminus> y \<le> c\<close> between the
  variables of a function. The command line, the daemon and the MCP server only call these analyses.

  \<^bold>\<open>The theories.\<close>
  \<^item> \<open>Prelude\<close>: 64-bit integers as \<open>int\<close> with the wrap-around and saturation written out, counted loops,
    loops whose body may fail, hash maps as partial functions.
  \<^item> \<open>Bound\<close>, \<open>Dbm\<close> (\<open>dataflow/octagon/bound.rs\<close>, \<open>dbm.rs\<close>): the operations of a bound as a record that
    stands for the trait \<open>Bound\<close>, its instance for \<open>i64\<close>, the packed half matrix with its index function.
    The meaning of a matrix is the set of the environments below its entries, for a locale of bounds.
  \<^item> \<open>Closure\<close> (\<open>closure.rs\<close>): strong, incremental and tight closure with every pass and the write-back.
  \<^item> \<open>Octagon_Ops\<close>, \<open>Octagon_Transfer\<close>, \<open>Octagon_Pack\<close> (\<open>operations.rs\<close>, \<open>query.rs\<close>, \<open>transfer.rs\<close>,
    \<open>pack.rs\<close>, \<open>mod.rs\<close>): lattice operations, projections, guards, assignments, variable packs.
  \<^item> \<open>Cfg\<close> (\<open>types.rs\<close>, \<open>dataflow/types.rs\<close>): the graph, adjacency maps, validation, breadth-first
    reachability and the reverse postorder of an iterative depth-first search.
  \<^item> \<open>Dominators\<close>, \<open>Dominators_Dfs\<close>, \<open>Dominators_Lt\<close>, \<open>Dominator_Tree\<close>, \<open>Dominance_Frontier\<close>
    (\<open>ssa/dominators.rs\<close>, \<open>find_back_edges\<close>): Lengauer and Tarjan's algorithm with path compression, the
    tree it builds, the queries of the tree, dominance frontiers and the iterated frontier. An index out
    of bounds and a loop that does not end are \<open>None\<close>; the dominator tree of every graph is \<open>Some\<close>.
  \<^item> \<open>Alias_Types\<close>, \<open>Alias_Solver\<close>, \<open>Alias_Correct\<close>, \<open>Alias_Results\<close> (\<open>alias/types.rs\<close>,
    \<open>constraints.rs\<close>, \<open>solver.rs\<close>): abstract locations, the constraint solver, may and must aliases.
    The order in which a hash set is iterated is a parameter \<open>enum\<close>; the results do not depend on it.
  \<^item> \<open>Slice\<close> (\<open>pdg/slice.rs\<close>): backward and forward slices, plain and rich.
  \<^item> \<open>Round_Robin\<close>, \<open>Reaching\<close>, \<open>Reaching_Correct\<close>, \<open>Reaching_Bits\<close> (\<open>dfg/reaching.rs\<close>): the round-robin
    solver, proved once in the locale \<open>gen_kill_problem\<close> and interpreted on the model's own sets; the
    three reaching-definitions analyses, their exactness as paths of the graph and their agreement.
  \<^item> \<open>Chains\<close>, \<open>Chains_Correct\<close> (\<open>dfg/reaching.rs\<close>, \<open>dfg/chains.rs\<close>): def-use and use-def chains, the
    report with its GEN and KILL lists, the detection of uninitialised uses.
  \<^item> \<open>Tarjan\<close>, \<open>Tarjan_Correct\<close> (\<open>analysis/tarjan.rs\<close>): the iterative form of Tarjan's algorithm with its
    explicit work list; its invariant and its termination.
  \<^item> \<open>Text\<close>: the string operations of Rust that the sources use (find, split, trim, prefixes, decimal
    numbers), on ASCII strings.
  \<^item> \<open>Call_Graph\<close>, \<open>Call_Graph_Correct\<close>, \<open>Callers_Correct\<close> (\<open>analysis/tarjan.rs\<close>, \<open>impact.rs\<close>,
    \<open>dead.rs\<close>, \<open>refcount.rs\<close>): cycles, trees of callers, similar names and uncalled functions.
  \<^item> \<open>Abstract_Value\<close>, \<open>Abstract_Parse\<close>, \<open>Abstract_Interp\<close> (\<open>dataflow/abstract_interp.rs\<close>): intervals,
    nullability and constants, what is read from a source line, the transfer functions, the solver with
    widening, the warnings; \<open>Guard\<close> (\<open>dataflow/guard.rs\<close>): the parser of branch conditions and narrowing.
  \<^item> \<open>Abstract_Meaning\<close>, \<open>Guard_Correct\<close>, \<open>Assignment\<close>, \<open>Interp_Correct\<close>: the concrete values an abstract
    value describes, reading back printed conditions and assignments, executions of the control flow
    graph and the proof that the states of the interpreter describe them.
  \<^item> \<open>Octagon_Properties\<close>, \<open>Flow_Properties\<close>, \<open>Alias_Properties\<close>, \<open>Dataflow_Properties\<close>,
    \<open>Chains_Properties\<close>, \<open>Call_Graph_Properties\<close>, \<open>Interp_Properties\<close>: the properties C1 to C40 with concrete inputs that show their hypotheses can hold.

  \<^bold>\<open>What is shown.\<close> The closures keep the integer environments of a matrix, the transfer functions keep
  exactly the environments they should, except for the assignment that reads its own variable, and
  halving the 64-bit infinity makes a bound out of none. \<open>build_dominator_tree\<close> is total and builds a
  well-formed tree over the reachable blocks; frontiers and iterated frontiers are what the walk of the
  code can reach. When the alias solver ends, its sets are the least solution of the constraints; its
  only error is the limit of rounds, which a loop walking a list always meets. Slices are the
  reachable part of the dependence graph, and forward and backward slices are converse. The solvers of
  reaching definitions compute exactly the definitions with a definition-free path, and the bit-vector
  solver is a refinement of the solver on sets. \<open>find_sccs\<close> always answers with the strongly connected
  components; the analyses of the call graph are characterised by its relation of calls: the trees of
  callers hold the functions within \<open>max_depth\<close> calls but do not notice mutual recursion, and a function
  on a cycle of calls is never reported as dead. On programs of simple assignments the abstract
  interpreter misses no division by zero and no null dereference, provided it stopped before its bound
  and no merge joins a known with an unknown range; further properties show where it
  misses some: unknown ranges at merges, augmented assignments, string literals, lengths of strings.

  \<^bold>\<open>Bounds and fuel.\<close> The bounds are the code's own: 100 rounds of the alias solver and of the
  reaching-definitions solvers, 10000 blocks, the square of the number of blocks in the frontier walk, ten rounds per
  block and 100 more in the abstract interpreter.
  A solver that stopped before its last round, or has fewer than 100 blocks, is exact. Where the code
  has no bound the model uses a terminating function or \<open>partial_function (option)\<close>, and the theorems
  show that the result is \<open>Some\<close>. \<open>usize\<close> arithmetic is on natural numbers; block ids and sizes stay far
  below \<open>2 ^ 64\<close>, and the one 32-bit size that can wrap is written with its modulus.

  \<^bold>\<open>Not modelled.\<close> Everything that walks syntax trees (tree-sitter is third-party), runs processes,
  stores data or embeds text; the floating-point instance of the bounds; the text of SSA instructions,
  so the extraction of alias constraints is an input. Planned next: SSA construction on the modelled frontiers, live variables and the other analyses of
  \<open>ssa/analysis.rs\<close>, available expressions, and that the tree of \<open>build_dominator_tree\<close> is the
  tree of immediate dominators.
\<close>

end
